(* ===== verification/Prelude.thy ===== *)
theory Prelude
  imports Main "HOL-Library.Word" "HOL-Library.Signed_Division"
begin

text \<open>
  Shared vocabulary of the development: the machine types of the C and C++ sources
  (bytes, \<open>IUINT16\<close>, \<open>IUINT32\<close>, 64-bit values and the C type \<open>int\<close>), the arithmetic of
  32-bit sequence numbers and time stamps that wrap around, generic list facts, and the
  named collections the component theories extend.
\<close>

unbundle bit_operations_syntax

section \<open>Machine types\<close>

type_synonym byte = "8 word"
type_synonym u16 = "16 word"
type_synonym u32 = "32 word"
type_synonym u64 = "64 word"

named_theorems kcp_defs \<open>definitions of the small control-block helpers\<close>
named_theorems frame_simps \<open>fields an operation leaves alone\<close>

text \<open>
  A C \<open>int\<close> is a mathematical integer reduced to 32 bits. Signed overflow is undefined in
  C; the reduction is the two's complement value every compiler of the build produces.
\<close>

definition i32 :: "int \<Rightarrow> int" where
  "i32 x = sint (word_of_int x :: u32)"

lemma i32_id [simp]: "- (2 ^ 31) \<le> x \<Longrightarrow> x < 2 ^ 31 \<Longrightarrow> i32 x = x"
  by (simp add: i32_def signed_take_bit_int_eq_self sint_sbintrunc')

lemma i32_range: "- (2 ^ 31) \<le> i32 x \<and> i32 x < 2 ^ 31"
  using sint_range_size [of "word_of_int x :: u32"] by (simp add: i32_def word_size)

lemma i32_sint [simp]: "i32 (sint (w :: u32)) = sint w"
  by (simp add: i32_def)

lemma unat_word_of_int32: "0 \<le> x \<Longrightarrow> x < 2 ^ 32 \<Longrightarrow> unat (word_of_int x :: u32) = nat x"
  by (simp add: unat_eq_nat_uint uint_word_of_int)

lemma unat_of_nat32 [simp]: "n < 2 ^ 32 \<Longrightarrow> unat (of_nat n :: u32) = n"
  by (simp add: unat_of_nat take_bit_nat_eq_self)

lemma unat_u32_of_u16: "unat (ucast (w :: u16) :: u32) = unat w"
  using unsigned_less [of w, where 'a = nat] by (simp add: unsigned_ucast_eq take_bit_nat_eq_self_iff)

lemma unat_u32_of_byte: "unat (ucast (w :: byte) :: u32) = unat w"
  using unsigned_less [of w, where 'a = nat] by (simp add: unsigned_ucast_eq take_bit_nat_eq_self_iff)

section \<open>Serial numbers\<close>

text \<open>
  \<open>wdist base x\<close> is how far \<open>x\<close> lies ahead of \<open>base\<close> on the circle of 32-bit numbers.
  A signed difference agrees with the difference of the distances as long as both stay
  below \<open>2 ^ 31\<close>; every window of the protocol is far below that.
\<close>

definition wdist :: "u32 \<Rightarrow> u32 \<Rightarrow> nat" where
  "wdist base x = unat (x - base)"

lemma wdist_self [simp]: "wdist b b = 0"
  by (simp add: wdist_def)

lemma wdist_eq_iff [simp]: "wdist b x = wdist b y \<longleftrightarrow> x = y"
  by (metis diff_add_cancel wdist_def word_unat_eq_iff)

lemma wdist_eq_0 [simp]: "wdist b x = 0 \<longleftrightarrow> x = b"
  by (metis wdist_eq_iff wdist_self)

lemma wdist_add: "n < 2 ^ 32 \<Longrightarrow> wdist b (b + of_nat n) = n"
  by (simp add: wdist_def unat_of_nat take_bit_nat_eq_self_iff)

lemma wdist_inverse: "b + of_nat (wdist b x) = x"
  by (simp add: wdist_def)

lemma wdist_less: "wdist b x < 2 ^ 32"
  using unsigned_less [of "x - b"] by (simp add: wdist_def)

lemma sint_diff_wdist:
  assumes "wdist b x < 2 ^ 31" and "wdist b y < 2 ^ 31"
  shows "sint (x - y) = int (wdist b x) - int (wdist b y)"
proof -
  have "x - y = (x - b) - (y - b)"
    by simp
  also have "\<dots> = word_of_int (int (wdist b x) - int (wdist b y))"
    by (simp add: wdist_def)
  finally have "sint (x - y) = i32 (int (wdist b x) - int (wdist b y))"
    by (simp add: i32_def)
  with assms show ?thesis
    by simp
qed

lemma sint_wdist: "wdist b x < 2 ^ 31 \<Longrightarrow> sint (x - b) = int (wdist b x)"
  using sint_diff_wdist [of b x b] by simp

lemma sint_wdist_neg_iff: "sint (x - b) < 0 \<longleftrightarrow> 2 ^ 31 \<le> wdist b x"
proof (cases "wdist b x < 2 ^ 31")
  case True
  then show ?thesis by (simp add: sint_wdist)
next
  case False
  let ?d = "int (wdist b x) - 2 ^ 32"
  have "x - b = word_of_int (int (wdist b x))"
    by (simp add: wdist_def)
  also have "\<dots> = word_of_int ?d"
    by (simp add: word_of_int_eq_iff take_bit_eq_mod)
  finally have "sint (x - b) = i32 ?d"
    by (simp only: i32_def)
  also have "\<dots> = ?d"
    using False wdist_less [of b x] by simp
  finally show ?thesis
    using False wdist_less [of b x] by simp
qed

lemma wdist_shift:
  assumes "wdist b x + n < 2 ^ 32"
  shows "wdist b (x + of_nat n) = wdist b x + n"
proof -
  have "x + of_nat n = b + of_nat (wdist b x + n)"
    using wdist_inverse [of b x] by (simp add: add.assoc [symmetric])
  then show ?thesis
    by (simp only: wdist_add [OF assms])
qed

lemma wdist_rebase:
  assumes "n \<le> wdist b x"
  shows "wdist (b + of_nat n) x = wdist b x - n"
proof -
  have "(b + of_nat n) + of_nat (wdist b x - n) = b + of_nat (n + (wdist b x - n))"
    by (simp only: of_nat_add add.assoc)
  also have "\<dots> = x"
    using assms wdist_inverse [of b x] by simp
  finally have "x = (b + of_nat n) + of_nat (wdist b x - n)" ..
  then show ?thesis
    using wdist_add [of "wdist b x - n" "b + of_nat n"] wdist_less [of b x] by simp
qed

end
