(* ===== verification/Kcp_Time.thy ===== *)
theory Kcp_Time
  imports Complex_Main Prelude "HOL-Library.Log_Nat" "HOL-Library.Product_Lexorder"
begin

text \<open>
  The clock synchronisation of the KCP sessions, \<open>src/kcp-cpp/KCPNet.cpp\<close>: the time packet, the
  estimate of the clock offset that the server makes from the answers of a client, the slow drift
  of the client towards a new estimate and the network time the client hands out. Times are 64-bit
  words in microseconds that are read as signed numbers; the drift is computed in double precision.
\<close>

section \<open>Time packets\<close>

text \<open>Little-endian 64-bit fields in a buffer.\<close>

fun le_bytes :: "nat \<Rightarrow> u64 \<Rightarrow> byte list" where
  "le_bytes 0 w = []"
| "le_bytes (Suc n) w = ucast w # le_bytes n (drop_bit 8 w)"

fun of_le :: "byte list \<Rightarrow> u64" where
  "of_le [] = 0"
| "of_le (b # bs) = ucast b + push_bit 8 (of_le bs)"

definition get64 :: "nat \<Rightarrow> byte list \<Rightarrow> u64" where
  "get64 off buf = of_le (take 8 (drop off buf))"

definition put64 :: "nat \<Rightarrow> u64 \<Rightarrow> byte list \<Rightarrow> byte list" where
  "put64 off w buf = take off buf @ le_bytes 8 w @ drop (off + 8) buf"

definition TIME_PREAMBLE_V1 :: u64 where "TIME_PREAMBLE_V1 = 0x000100010ff00ff0"
definition MAX_DELAY_DIFF_MS :: int where "MAX_DELAY_DIFF_MS = 20"
definition MIN_COLLECTED_TIME_POINTS :: nat where "MIN_COLLECTED_TIME_POINTS = 5"
definition MAX_SAVED_TIME_POINTS :: nat where "MAX_SAVED_TIME_POINTS = 100"
definition MAX_TIME_DRIFT_PPM :: int where "MAX_TIME_DRIFT_PPM = 500"

record KCPTimePacket =
  timePreamble :: u64
  t1 :: u64
  t2 :: u64
  t3 :: u64
  t4 :: u64
  correction :: u64
  correctionActive :: u64

definition time_packet :: KCPTimePacket where
  "time_packet = \<lparr>timePreamble = TIME_PREAMBLE_V1, t1 = 0, t2 = 0, t3 = 0, t4 = 0, correction = 0,
     correctionActive = 0\<rparr>"

text \<open>The object in memory (56 bytes), and the object a cast of the receive buffer shows.\<close>

definition packet_bytes :: "KCPTimePacket \<Rightarrow> byte list" where
  "packet_bytes p = concat (map (le_bytes 8)
     [timePreamble p, t1 p, t2 p, t3 p, t4 p, correction p, correctionActive p])"

definition packet_at :: "byte list \<Rightarrow> KCPTimePacket" where
  "packet_at buf = \<lparr>timePreamble = get64 0 buf, t1 = get64 8 buf, t2 = get64 16 buf, t3 = get64 24 buf,
     t4 = get64 32 buf, correction = get64 40 buf, correctionActive = get64 48 buf\<rparr>"

section \<open>The estimate of the server\<close>

text \<open>Delay and offset that one answer gives, with the time \<open>now\<close> at which it arrives.\<close>

definition time_point :: "KCPTimePacket \<Rightarrow> u64 \<Rightarrow> int \<times> int" where
  "time_point p now =
     (let p = p\<lparr>t4 := now\<rparr>;
          lDelay = sint (t4 p - t1 p);
          lCompensation = sint ((t2 p - t1 p) + (t3 p - t4 p)) sdiv 2
      in (lDelay, lCompensation))"

text \<open>What the server keeps of a session for its estimate.\<close>

record time_state =
  mGotStableTime :: bool
  mClientGotCorrection :: bool
  mListOfDelayAndCompensation :: "(int \<times> int) list"
  mCurrentCorrection :: u64

text \<open>
  The reaction of the server to an answer. \<open>std::partial_sort_copy\<close> delivers the smallest pairs in
  lexicographic order.
\<close>

definition got_time :: "KCPTimePacket \<Rightarrow> u64 \<Rightarrow> time_state \<Rightarrow> time_state" where
  "got_time p now d =
     (let l = mListOfDelayAndCompensation d @ [time_point p now];
          l = (if length l > MAX_SAVED_TIME_POINTS then tl l else l);
          d = d\<lparr>mListOfDelayAndCompensation := l\<rparr>
      in if length l \<ge> MIN_COLLECTED_TIME_POINTS
         then let lTimePoints = take MIN_COLLECTED_TIME_POINTS (sort l);
                  (lMinDelay, lMinCompensation) = lTimePoints ! 0;
                  (lMaxDelay, lMaxCompensation) = lTimePoints ! (MIN_COLLECTED_TIME_POINTS - 1);
                  d = (if sint (word_of_int (lMaxDelay - lMinDelay) :: u64) sdiv 1000 < MAX_DELAY_DIFF_MS \<and> \<not> mGotStableTime d
                       then d\<lparr>mGotStableTime := True\<rparr> else d);
                  d = (if mGotStableTime d then d\<lparr>mCurrentCorrection := word_of_int lMinCompensation\<rparr> else d)
              in if \<not> mClientGotCorrection d \<and> correctionActive p = 2
                 then d\<lparr>mClientGotCorrection := True\<rparr> else d
         else d)"

text \<open>The packet \<open>sendTimePacket\<close> sends at time \<open>now\<close>.\<close>

definition sendTimePacket :: "time_state \<Rightarrow> u64 \<Rightarrow> byte list" where
  "sendTimePacket d now =
     (let p = time_packet\<lparr>t1 := now\<rparr>;
          p = (if mGotStableTime d then p\<lparr>correctionActive := 1, correction := mCurrentCorrection d\<rparr> else p)
      in packet_bytes p)"

section \<open>Double precision\<close>

text \<open>
  The value of a positive number rounded to 53 significant bits, to the nearest value and to the even
  one of two. The numbers of the drift computation are far from the smallest and the largest double.
\<close>

definition ilog2 :: "rat \<Rightarrow> int" where
  "ilog2 x = (if 1 \<le> x then bitlen \<lfloor>x\<rfloor> - 1 else - bitlen (\<lceil>1 / x\<rceil> - 1))"

definition round_even :: "rat \<Rightarrow> int" where
  "round_even x =
     (let f = \<lfloor>x\<rfloor>; r = x - of_int f
      in if r < 1 / 2 then f else if r > 1 / 2 then f + 1 else if even f then f else f + 1)"

definition double :: "rat \<Rightarrow> rat" where
  "double x =
     (if x = 0 then 0
      else let u = 2 powi (ilog2 x - 52) in of_int (round_even (x / u)) * u)"

section \<open>Drift and network time of the client\<close>

record client_time =
  cCorrectionTarget :: u64
  cCorrection :: u64
  cGotCorrection :: bool
  cFirstTimeDelivery :: bool
  cLastDeliveredTime :: u64
  lTimeLast :: u64           \<comment> \<open>a local variable of the nudge thread\<close>

text \<open>The largest change allowed after \<open>lDiffTime\<close> microseconds, cut to an integer.\<close>

definition max_comp :: "u64 \<Rightarrow> int" where
  "max_comp lDiffTime =
     (let lMulFac = double (double (of_nat (unat lDiffTime)) / 1000000);
          lMaxComp = double (lMulFac * of_int MAX_TIME_DRIFT_PPM)
      in \<lfloor>lMaxComp\<rfloor>)"

definition drift :: "client_time \<Rightarrow> u64 \<Rightarrow> client_time" where
  "drift c lDiffTime =
     (if cCorrectionTarget c \<noteq> cCorrection c
      then if sint (cCorrectionTarget c) > sint (cCorrection c)
           then let v = cCorrection c + word_of_int (max_comp lDiffTime)
                in c\<lparr>cCorrection := (if sint v > sint (cCorrectionTarget c) then cCorrectionTarget c else v)\<rparr>
           else let v = cCorrection c - word_of_int (max_comp lDiffTime)
                in c\<lparr>cCorrection := (if sint v < sint (cCorrectionTarget c) then cCorrectionTarget c else v)\<rparr>
      else c)"

definition nudge_time :: "client_time \<Rightarrow> u64 \<Rightarrow> client_time" where
  "nudge_time c lTimeNowus =
     (if cGotCorrection c
      then if lTimeLast c = 0 then c\<lparr>lTimeLast := lTimeNowus\<rparr>
           else drift (c\<lparr>lTimeLast := lTimeNowus\<rparr>) (lTimeNowus - lTimeLast c)
      else c)"

definition getNetworkTimeus :: "client_time \<Rightarrow> u64 \<Rightarrow> u64 \<times> client_time" where
  "getNetworkTimeus c lLocalTime =
     (if \<not> cGotCorrection c then (0, c)
      else let lRecalculatedTime = lLocalTime - cCorrection c
           in if \<not> cFirstTimeDelivery c
              then if sint (cLastDeliveredTime c) < sint lRecalculatedTime
                   then (lRecalculatedTime, c\<lparr>cLastDeliveredTime := lRecalculatedTime\<rparr>)
                   else (cLastDeliveredTime c, c)
              else (lRecalculatedTime, c\<lparr>cLastDeliveredTime := lRecalculatedTime, cFirstTimeDelivery := False\<rparr>))"

text \<open>The client's answer to a time packet in its receive buffer, sent at time \<open>now\<close>.\<close>

definition answer_time :: "client_time \<Rightarrow> byte list \<Rightarrow> u64 \<Rightarrow> client_time \<times> byte list" where
  "answer_time c buf now =
     (let p = packet_at buf;
          active = (correctionActive p = 1);
          c = (if active
               then let c = (if \<not> cGotCorrection c then c\<lparr>cCorrection := correction p\<rparr> else c)
                    in c\<lparr>cCorrectionTarget := correction p, cGotCorrection := True\<rparr>
               else c);
          buf = (if active then put64 48 2 buf else buf);
          buf = put64 16 now buf;
          buf = put64 24 now buf
      in (c, buf))"

section \<open>Fields of a buffer\<close>

lemma length_le_bytes [simp]: "length (le_bytes n w) = n"
  by (induction n arbitrary: w) auto

lemma of_le_bytes: "of_le (le_bytes n w) = take_bit (8 * n) w"
proof (induction n arbitrary: w)
  case (Suc n)
  have "of_le (le_bytes (Suc n) w) = ucast (ucast w :: byte) + push_bit 8 (take_bit (8 * n) (drop_bit 8 w))"
    using Suc by simp
  also have "\<dots> = ucast (ucast w :: byte) OR push_bit 8 (take_bit (8 * n) (drop_bit 8 w))"
    by (rule disjunctive_add) (auto simp: bit_simps)
  also have "\<dots> = take_bit (8 * Suc n) w"
    by (rule bit_word_eqI) (auto simp: bit_simps)
  finally show ?case .
qed simp

lemma of_le_bytes8 [simp]: "of_le (le_bytes 8 w) = w"
  by (simp add: of_le_bytes take_bit_word_eq_self)

lemma get64_le [simp]: "get64 off (xs @ le_bytes 8 w @ ys) = w" if "length xs = off"
  using that by (simp add: get64_def)

lemma length_packet_bytes [simp]: "length (packet_bytes p) = 56"
  by (simp add: packet_bytes_def)

lemma packet_at_bytes: "packet_at (packet_bytes p @ rest) = p"
proof -
  let ?l = "le_bytes 8"
  have f: "get64 off (xs @ ?l w @ ys) = w" if "length xs = off" for off xs w ys
    using that by simp
  have e: "packet_bytes p @ rest = ?l (timePreamble p) @ ?l (t1 p) @ ?l (t2 p) @ ?l (t3 p) @ ?l (t4 p) @
      ?l (correction p) @ ?l (correctionActive p) @ rest"
    by (simp add: packet_bytes_def)
  show ?thesis
    unfolding e packet_at_def
    using f [of "[]" 0 "timePreamble p"] f [of "?l (timePreamble p)" 8 "t1 p"]
      f [of "?l (timePreamble p) @ ?l (t1 p)" 16 "t2 p"]
      f [of "?l (timePreamble p) @ ?l (t1 p) @ ?l (t2 p)" 24 "t3 p"]
      f [of "?l (timePreamble p) @ ?l (t1 p) @ ?l (t2 p) @ ?l (t3 p)" 32 "t4 p"]
      f [of "?l (timePreamble p) @ ?l (t1 p) @ ?l (t2 p) @ ?l (t3 p) @ ?l (t4 p)" 40 "correction p"]
      f [of "?l (timePreamble p) @ ?l (t1 p) @ ?l (t2 p) @ ?l (t3 p) @ ?l (t4 p) @ ?l (correction p)" 48
        "correctionActive p"]
    by (intro KCPTimePacket.equality) simp_all
qed

section \<open>Signed 64-bit arithmetic\<close>

lemma sint64_id: "sint (word_of_int x :: u64) = x" if "- (2 ^ 63) \<le> x" "x < 2 ^ 63"
  using that by (simp add: signed_take_bit_int_eq_self sint_sbintrunc')

lemma sint64_bounds: "- (2 ^ 63) \<le> sint (w :: u64)" "sint (w :: u64) < 2 ^ 63"
  using sint_range_size [of w] by (simp_all add: word_size)

lemma sint64_add: "sint (v + word_of_int x :: u64) = sint v + x"
  if "- (2 ^ 63) \<le> sint v + x" "sint v + x < 2 ^ 63"
proof -
  have "v + word_of_int x = word_of_int (sint v + x)" by simp
  then show ?thesis using sint64_id [OF that] by (simp only:)
qed

lemma sint64_sub: "sint (v - word_of_int x :: u64) = sint v - x"
  if "- (2 ^ 63) \<le> sint v - x" "sint v - x < 2 ^ 63"
  using sint64_add [of v "- x"] that by simp

section \<open>Rounding errors\<close>

lemma round_even_error: "\<bar>of_int (round_even x) - x\<bar> \<le> 1 / 2"
proof -
  define f where "f = \<lfloor>x\<rfloor>"
  have f: "of_int f \<le> x" "x < of_int f + 1" using floor_correct [of x] by (simp_all add: f_def)
  then show ?thesis by (auto simp: round_even_def Let_def f_def [symmetric] abs_if)
qed

lemma bitlen_rat: "2 powi (bitlen n - 1) \<le> (of_int n :: rat) \<and> (of_int n :: rat) < 2 powi bitlen n" if "0 < n"
proof -
  have b: "0 < bitlen n" using that bitlen_nonneg [of n] bitlen_eq_zero_iff [of n] by linarith
  have "2 ^ nat (bitlen n - 1) \<le> n \<and> n < 2 ^ nat (bitlen n)" by (rule bitlen_bounds [OF that])
  then have "(2 :: rat) ^ nat (bitlen n - 1) \<le> of_int n \<and> of_int n < (2 :: rat) ^ nat (bitlen n)"
    by (metis of_int_le_iff of_int_less_iff of_int_numeral of_int_power)
  then show ?thesis using b by (simp add: power_int_def)
qed

lemma ilog2_bounds:
  assumes "0 < x"
  shows "2 powi ilog2 x \<le> x" and "x < 2 powi (ilog2 x + 1)"
proof -
  have "2 powi ilog2 x \<le> x \<and> x < 2 powi (ilog2 x + 1)"
  proof (cases "1 \<le> x")
    case True
    then have n: "0 < \<lfloor>x\<rfloor>" by simp
    have "x < 2 powi bitlen \<lfloor>x\<rfloor>"
    proof -
      have "\<lfloor>x\<rfloor> + 1 \<le> 2 ^ nat (bitlen \<lfloor>x\<rfloor>)" using bitlen_bounds [OF n] by simp
      then have "(of_int (\<lfloor>x\<rfloor> + 1) :: rat) \<le> 2 ^ nat (bitlen \<lfloor>x\<rfloor>)"
        by (metis of_int_le_iff of_int_numeral of_int_power)
      moreover have "x < of_int (\<lfloor>x\<rfloor> + 1)" by linarith
      ultimately show ?thesis using bitlen_nonneg [of "\<lfloor>x\<rfloor>"] by (simp add: power_int_def)
    qed
    with True bitlen_rat [OF n] of_int_floor_le [of x] show ?thesis by (auto simp: ilog2_def intro: order_trans)
  next
    case False
    let ?c = "\<lceil>1 / x\<rceil>"
    have "1 < 1 / x" using False assms by (simp add: field_simps)
    then have c: "1 < ?c" by (simp add: less_ceiling_iff)
    then have n: "0 < ?c - 1" by simp
    note b = bitlen_rat [OF n]
    have lo: "of_int (?c - 1) < 1 / x" by linarith
    have "1 / x \<le> 2 powi bitlen (?c - 1)"
    proof -
      have "?c \<le> 2 ^ nat (bitlen (?c - 1))" using bitlen_bounds [OF n] by simp
      then have "(of_int ?c :: rat) \<le> 2 ^ nat (bitlen (?c - 1))"
        by (metis of_int_le_iff of_int_numeral of_int_power)
      with le_of_int_ceiling [of "1 / x"] have "1 / x \<le> 2 ^ nat (bitlen (?c - 1))" by (rule order_trans)
      then show ?thesis using bitlen_nonneg [of "?c - 1"] by (simp only: power_int_def if_True)
    qed
    moreover have "2 powi (bitlen (?c - 1) - 1) < 1 / x" using b lo by linarith
    ultimately have "2 powi (- bitlen (?c - 1)) \<le> x \<and> x < 2 powi (- bitlen (?c - 1) + 1)"
      using assms by (auto simp: power_int_minus power_int_diff power_int_add field_simps)
    then show ?thesis using False by (simp add: ilog2_def)
  qed
  then show "2 powi ilog2 x \<le> x" and "x < 2 powi (ilog2 x + 1)" by auto
qed

lemma double_error: "\<bar>double x - x\<bar> \<le> x / 2 ^ 53" if "0 \<le> x"
proof (cases "x = 0")
  case False
  then have x: "0 < x" using that by simp
  let ?u = "2 powi (ilog2 x - 52) :: rat"
  have u: "0 < ?u" by simp
  have "double x - x = (of_int (round_even (x / ?u)) - x / ?u) * ?u"
    using False by (simp add: double_def Let_def left_diff_distrib)
  then have "\<bar>double x - x\<bar> = \<bar>of_int (round_even (x / ?u)) - x / ?u\<bar> * ?u"
    using u by (simp add: abs_mult)
  also have "\<dots> \<le> 1 / 2 * ?u"
    by (rule mult_right_mono [OF round_even_error]) simp
  also have "\<dots> = 2 powi ilog2 x / 2 ^ 53"
    by (simp add: power_int_diff)
  also have "\<dots> \<le> x / 2 ^ 53"
    using ilog2_bounds(1) [OF x] by (intro divide_right_mono) auto
  finally show ?thesis .
qed (simp add: double_def)

text \<open>Up to 70 years the allowed change is at most 500 parts per million, and at most one below it.\<close>

lemma max_comp_bounds:
  assumes "unat d < 2 ^ 51"
  shows "max_comp d \<le> int (unat d) div 2000" and "int (unat d) div 2000 - 1 \<le> max_comp d" and "0 \<le> max_comp d"
proof -
  define n where "n = unat d"
  let ?d = "rat_of_nat n"
  define a where "a = double ?d"
  define b where "b = double (a / 1000000)"
  define c where "c = double (b * 500)"
  have "?d < of_nat (2 ^ 51)" using assms by (simp only: of_nat_less_iff n_def)
  then have d: "0 \<le> ?d" "?d < 2 ^ 51" by simp_all
  have pos: "0 \<le> double x" if "0 \<le> x" for x
    using double_error [OF that] that unfolding abs_le_iff by simp
  have a: "\<bar>a - ?d\<bar> \<le> ?d / 2 ^ 53" "0 \<le> a" using double_error [OF d(1)] pos [OF d(1)] by (simp_all add: a_def)
  have b: "\<bar>b - a / 1000000\<bar> \<le> a / 1000000 / 2 ^ 53" "0 \<le> b"
    using double_error [of "a / 1000000"] pos [of "a / 1000000"] a(2) by (simp_all add: b_def)
  have c: "\<bar>c - b * 500\<bar> \<le> b * 500 / 2 ^ 53" "0 \<le> c"
    using double_error [of "b * 500"] pos [of "b * 500"] b(2) by (simp_all add: c_def)
  have err: "\<bar>c - ?d / 2000\<bar> < 1 / 2000"
    unfolding abs_less_iff
  proof
    show "c - ?d / 2000 < 1 / 2000"
      using a(1) b(1) c(1) d unfolding abs_le_iff by simp
    show "- (c - ?d / 2000) < 1 / 2000"
      using a(1) b(1) c(1) d unfolding abs_le_iff by simp
  qed
  have m: "max_comp d = \<lfloor>c\<rfloor>"
    by (simp only: max_comp_def Let_def a_def b_def c_def MAX_TIME_DRIFT_PPM_def n_def of_int_numeral)
  define q where "q = int n div 2000"
  define r where "r = int n mod 2000"
  have "int n = 2000 * q + r" by (simp add: q_def r_def)
  then have dq: "?d = 2000 * of_int q + of_int r"
    by (metis of_int_add of_int_mult of_int_numeral of_int_of_nat_eq)
  have r: "0 \<le> r" "r \<le> 1999" by (simp_all add: r_def)
  then have r': "(0 :: rat) \<le> of_int r" "(of_int r :: rat) \<le> 1999"
    by (simp, metis of_int_le_iff of_int_numeral)
  have "c < of_int q + 1" "of_int q - 1 \<le> c"
    using err r' by (simp_all add: dq abs_if field_simps split: if_splits)
  then show "max_comp d \<le> int (unat d) div 2000" and "int (unat d) div 2000 - 1 \<le> max_comp d"
    unfolding m n_def [symmetric] q_def [symmetric] by (simp_all add: floor_le_iff le_floor_iff)
  show "0 \<le> max_comp d" using c(2) by (simp add: m)
qed

lemma drift_between:
  assumes "unat d < 2 ^ 51" and "\<bar>sint (cCorrection c)\<bar> < 2 ^ 62" and "\<bar>sint (cCorrectionTarget c)\<bar> < 2 ^ 62"
  shows "sint (cCorrection (drift c d)) =
     (if sint (cCorrection c) \<le> sint (cCorrectionTarget c)
      then min (sint (cCorrection c) + max_comp d) (sint (cCorrectionTarget c))
      else max (sint (cCorrection c) - max_comp d) (sint (cCorrectionTarget c)))"
proof -
  have m: "0 \<le> max_comp d" "max_comp d < 2 ^ 51"
  proof -
    have "int (unat d) < int (2 ^ 51)" using assms(1) by (simp only: of_nat_less_iff)
    moreover have "m div 2000 \<le> m" if "0 \<le> m" for m :: int using that by linarith
    ultimately show "max_comp d < 2 ^ 51"
      using max_comp_bounds(1) [OF assms(1)] of_nat_0_le_iff [of "unat d"] by fastforce
  qed (rule max_comp_bounds(3) [OF assms(1)])
  then have "sint (cCorrection c + word_of_int (max_comp d)) = sint (cCorrection c) + max_comp d"
    "sint (cCorrection c - word_of_int (max_comp d)) = sint (cCorrection c) - max_comp d"
    using assms by (simp_all add: sint64_add sint64_sub abs_less_iff)
  then show ?thesis using m by (auto simp: drift_def Let_def min_def max_def)
qed

section \<open>Accuracy of the estimate\<close>

text \<open>
  A genuine exchange with a client whose clock is \<open>\<theta>\<close> ahead: the request left at time \<open>s\<close> of the
  server, took \<open>d1\<close> to the client, which answered at once, and the answer took \<open>d2\<close>.
\<close>

definition genuine :: "int \<Rightarrow> KCPTimePacket \<times> u64 \<Rightarrow> int \<times> int \<times> int \<Rightarrow> bool" where
  "genuine \<theta> x e \<longleftrightarrow>
     (case (x, e) of ((p, now), (s, d1, d2)) \<Rightarrow>
        t1 p = word_of_int s \<and> t2 p = word_of_int (s + d1 + \<theta>) \<and> t3 p = word_of_int (s + d1 + \<theta>) \<and>
        now = word_of_int (s + d1 + d2) \<and> 0 \<le> d1 \<and> 0 \<le> d2 \<and> \<bar>\<theta>\<bar> < 2 ^ 60 \<and> d1 + d2 < 2 ^ 60)"

definition close_to :: "int \<Rightarrow> int \<times> int \<Rightarrow> bool" where
  "close_to \<theta> x \<longleftrightarrow> (case x of (delay, cmp) \<Rightarrow> 2 * \<bar>cmp - \<theta>\<bar> \<le> delay + 1 \<and> 0 \<le> delay \<and> delay < 2 ^ 60 \<and> \<bar>cmp\<bar> < 2 ^ 62)"

lemma sdiv2: "2 * \<bar>x sdiv 2\<bar> \<le> \<bar>x\<bar>" "\<bar>2 * (x sdiv 2) - x\<bar> \<le> 1" for x :: int
  by (auto simp: signed_divide_int_def sgn_if abs_if)

lemma genuine_point:
  assumes "genuine \<theta> (p, now) (s, d1, d2)"
  shows "fst (time_point p now) = d1 + d2" and "close_to \<theta> (time_point p now)"
proof -
  have g: "t1 p = word_of_int s" "t2 p = word_of_int (s + d1 + \<theta>)" "t3 p = word_of_int (s + d1 + \<theta>)"
    "now = word_of_int (s + d1 + d2)" "0 \<le> d1" "0 \<le> d2" "\<bar>\<theta>\<bar> < 2 ^ 60" "d1 + d2 < 2 ^ 60"
    using assms by (auto simp: genuine_def)
  have "sint (now - t1 p) = sint (word_of_int (d1 + d2) :: u64)" by (simp add: g)
  also have "\<dots> = d1 + d2" by (rule sint64_id) (use g in simp_all)
  finally have d: "sint (now - t1 p) = d1 + d2" .
  have "(t2 p - t1 p) + (t3 p - now) = word_of_int (2 * \<theta> + d1 - d2)" by (simp add: g)
  then have "sint ((t2 p - t1 p) + (t3 p - now)) = sint (word_of_int (2 * \<theta> + d1 - d2) :: u64)" by (simp only:)
  also have "\<dots> = 2 * \<theta> + d1 - d2" by (rule sint64_id) (use g in \<open>simp_all add: abs_less_iff\<close>)
  finally have c: "sint ((t2 p - t1 p) + (t3 p - now)) = 2 * \<theta> + d1 - d2" .
  show "fst (time_point p now) = d1 + d2" by (simp add: time_point_def Let_def d)
  show "close_to \<theta> (time_point p now)"
    using sdiv2 [of "2 * \<theta> + d1 - d2"] g(5-8)
    by (simp add: time_point_def Let_def d c close_to_def abs_if split: if_splits)
qed

text \<open>The state after a sequence of answers, and the answers that still count.\<close>

definition time_start :: time_state where
  "time_start = \<lparr>mGotStableTime = False, mClientGotCorrection = False, mListOfDelayAndCompensation = [],
     mCurrentCorrection = 0\<rparr>"

definition got_times :: "(KCPTimePacket \<times> u64) list \<Rightarrow> time_state" where
  "got_times xs = fold (\<lambda>(p, now). got_time p now) xs time_start"

definition latest :: "'a list \<Rightarrow> 'a list" where
  "latest xs = drop (length xs - MAX_SAVED_TIME_POINTS) xs"

lemma map_latest: "map f (latest xs) = latest (map f xs)"
  by (simp add: latest_def drop_map)

lemma latest_snoc: "latest (xs @ [x]) =
    (if length (latest xs @ [x]) > MAX_SAVED_TIME_POINTS then tl (latest xs @ [x]) else latest xs @ [x])"
proof (cases "length xs < MAX_SAVED_TIME_POINTS")
  case False
  then obtain n where n: "length xs = n + 100" by (metis MAX_SAVED_TIME_POINTS_def add.commute le_Suc_ex not_less)
  then have "drop (Suc (length xs) - 100) xs = tl (drop (length xs - 100) xs)" "drop (length xs - 100) xs \<noteq> []"
    by (simp_all add: drop_Suc tl_drop)
  then show ?thesis using False by (simp add: latest_def MAX_SAVED_TIME_POINTS_def)
qed (auto simp: latest_def MAX_SAVED_TIME_POINTS_def)

lemma sort_first: "l \<noteq> [] \<Longrightarrow> sort l ! 0 = Min (set l)" for l :: "'a::linorder list"
proof -
  assume "l \<noteq> []"
  then obtain y ys where y: "sort l = y # ys" by (metis length_0_conv length_sort list.exhaust)
  then have "sorted (y # ys)" "set l = set (y # ys)" by (metis sorted_sort, metis set_sort)
  then have "Min (set l) = y" by (intro Min_eqI) auto
  then show ?thesis by (simp add: y)
qed

lemma Min_fst: "finite A \<Longrightarrow> A \<noteq> {} \<Longrightarrow> fst (Min A) = Min (fst ` A)" for A :: "('a::linorder \<times> 'b::linorder) set"
proof -
  assume "finite A" "A \<noteq> {}"
  then have "Min A \<in> A" "\<And>x. x \<in> A \<Longrightarrow> Min A \<le> x" by simp_all
  then show ?thesis using \<open>finite A\<close> by (intro Min_eqI [symmetric]) (force simp: less_eq_prod_def)+
qed

text \<open>The correction is the offset measured by the fastest of the latest answers.\<close>

definition estimate_ok :: "(int \<times> int) list \<Rightarrow> time_state \<Rightarrow> bool" where
  "estimate_ok l d \<longleftrightarrow> mListOfDelayAndCompensation d = l \<and>
     (mGotStableTime d \<longrightarrow> MIN_COLLECTED_TIME_POINTS \<le> length l \<and>
        mCurrentCorrection d = word_of_int (snd (Min (set l))))"

lemma got_time_ok:
  assumes "estimate_ok (latest l) d"
  shows "estimate_ok (latest (l @ [time_point p now])) (got_time p now d)"
proof -
  let ?l = "latest (l @ [time_point p now])"
  have l: "(let l = mListOfDelayAndCompensation d @ [time_point p now]
      in if length l > MAX_SAVED_TIME_POINTS then tl l else l) = ?l"
    using assms by (simp add: estimate_ok_def latest_snoc Let_def)
  have "mGotStableTime d \<Longrightarrow> MIN_COLLECTED_TIME_POINTS \<le> length ?l"
    using assms by (simp add: estimate_ok_def latest_def MIN_COLLECTED_TIME_POINTS_def MAX_SAVED_TIME_POINTS_def) arith
  moreover have "take MIN_COLLECTED_TIME_POINTS (sort ?l) ! 0 = Min (set ?l)" if "MIN_COLLECTED_TIME_POINTS \<le> length ?l"
  proof -
    have "?l \<noteq> []" using that by (auto simp: MIN_COLLECTED_TIME_POINTS_def)
    then show ?thesis by (simp add: sort_first MIN_COLLECTED_TIME_POINTS_def)
  qed
  ultimately show ?thesis
    using l by (auto simp: got_time_def estimate_ok_def Let_def case_prod_beta)
qed

lemma got_times_ok: "estimate_ok (latest (map (\<lambda>(p, now). time_point p now) xs)) (got_times xs)"
proof (induction xs rule: rev_induct)
  case Nil
  then show ?case by (simp add: got_times_def time_start_def estimate_ok_def latest_def)
next
  case (snoc x xs)
  then show ?case using got_time_ok by (cases x) (auto simp: got_times_def)
qed

section \<open>Properties of the time transfer\<close>

text \<open>
  C11. Accuracy of the network time, end to end. A server has collected genuine answers of a client
  whose clock is \<open>\<theta>\<close> ahead, each over an arbitrary and asymmetric delay, and has found the delays
  stable. When the client gets its next time packet, as its first with a correction, and then asks for
  the network time while the server's clock shows \<open>S\<close>, the result differs from \<open>S\<close> by at most half of
  the shortest round trip among the last hundred exchanges (and half a microsecond).
\<close>

theorem network_time_accuracy:
  assumes "list_all2 (genuine \<theta>) xs es" and "mGotStableTime (got_times xs)"
    and "\<not> cGotCorrection c" and "cFirstTimeDelivery c" and "\<bar>S\<bar> < 2 ^ 62" and "\<bar>\<theta>\<bar> < 2 ^ 60"
    and "answer_time c (sendTimePacket (got_times xs) now @ rest) t = (c', reply)"
  shows "2 * \<bar>sint (fst (getNetworkTimeus c' (word_of_int (S + \<theta>)))) - S\<bar>
      \<le> Min (set (map (\<lambda>(s, d1, d2). d1 + d2) (latest es))) + 1"
proof -
  let ?tp = "\<lambda>(p, now). time_point p now" and ?del = "\<lambda>(s, d1, d2). d1 + d2"
  let ?l = "latest (map ?tp xs)" and ?d = "got_times xs"
  have all: "map fst (map ?tp xs) = map ?del es \<and> list_all (close_to \<theta>) (map ?tp xs)"
    using assms(1) by (induction rule: list_all2_induct) (auto simp: genuine_point)
  then have delays: "map fst ?l = map ?del (latest es)" by (simp add: map_latest)
  have close: "\<forall>x \<in> set ?l. close_to \<theta> x"
    using all set_drop_subset [of _ "map ?tp xs"] unfolding latest_def list_all_iff by blast
  have e: "?l \<noteq> []" "mCurrentCorrection ?d = word_of_int (snd (Min (set ?l)))"
    using got_times_ok [of xs] assms(2) by (auto simp: estimate_ok_def MIN_COLLECTED_TIME_POINTS_def)
  then have "Min (set ?l) \<in> set ?l" by simp
  with close obtain delay cmp where m: "Min (set ?l) = (delay, cmp)" "2 * \<bar>cmp - \<theta>\<bar> \<le> delay + 1" "delay < 2 ^ 60"
    by (metis (no_types, lifting) close_to_def case_prod_conv prod.exhaust)
  have min: "Min (set (map ?del (latest es))) = delay"
    unfolding delays [symmetric] using Min_fst [of "set ?l"] e(1) m(1) by simp
  have "cCorrection c' = mCurrentCorrection ?d" "cGotCorrection c'" "cFirstTimeDelivery c'"
    using assms(2,3,4,7) by (auto simp: answer_time_def sendTimePacket_def packet_at_bytes Let_def)
  then have "fst (getNetworkTimeus c' (word_of_int (S + \<theta>))) = word_of_int (S + \<theta> - cmp)"
    by (simp add: getNetworkTimeus_def Let_def e(2) m(1))
  then have "sint (fst (getNetworkTimeus c' (word_of_int (S + \<theta>)))) = S + \<theta> - cmp"
    using m(2,3) assms(5) by (simp only:) (rule sint64_id, auto simp: abs_if split: if_splits)
  then show ?thesis using m(2) min by (simp add: abs_minus_commute)
qed

definition demo_answer :: "KCPTimePacket \<times> u64" where
  "demo_answer = (time_packet\<lparr>t1 := 0, t2 := 1010, t3 := 1010\<rparr>, 40)"

definition demo_client :: client_time where
  "demo_client = \<lparr>cCorrectionTarget = 0, cCorrection = 0, cGotCorrection = False, cFirstTimeDelivery = True,
     cLastDeliveredTime = 0, lTimeLast = 0\<rparr>"

lemma demo_stable: "mGotStableTime (got_times (replicate 5 demo_answer))"
  by code_simp

theorem network_time_accuracy_witness:
  "2 * \<bar>sint (fst (getNetworkTimeus
      (fst (answer_time demo_client (sendTimePacket (got_times (replicate 5 demo_answer)) 7 @ []) 8))
      (word_of_int (5000 + 1000)))) - 5000\<bar> \<le> 40 + 1"
proof -
  have "list_all2 (genuine 1000) (replicate 5 demo_answer) (replicate 5 (0, 10, 30))"
    by (simp add: list_all2_conv_all_nth demo_answer_def genuine_def time_packet_def)
  moreover have "Min (set (map (\<lambda>(s, d1, d2). d1 + d2) (latest (replicate 5 (0 :: int, 10 :: int, 30 :: int))))) = 40"
    by (simp add: latest_def MAX_SAVED_TIME_POINTS_def)
  ultimately show ?thesis
    using network_time_accuracy [of 1000 "replicate 5 demo_answer" "replicate 5 (0, 10, 30)" demo_client 5000 7 "[]" 8
        "fst (answer_time demo_client (sendTimePacket (got_times (replicate 5 demo_answer)) 7 @ []) 8)"
        "snd (answer_time demo_client (sendTimePacket (got_times (replicate 5 demo_answer)) 7 @ []) 8)"] demo_stable
    by (simp add: demo_client_def)
qed

text \<open>
  C33. Drift of the client: between two rounds of the nudge thread the applied correction moves towards
  its target by at most 500 parts per million of the elapsed time, never past the target, and it does
  move when at least four milliseconds have passed. The computation is in double precision.
\<close>

theorem drift_limited:
  assumes "cGotCorrection c" and "lTimeLast c \<noteq> 0" and "el = lTimeNowus - lTimeLast c" and "unat el < 2 ^ 51"
    and "\<bar>sint (cCorrection c)\<bar> < 2 ^ 62" and "\<bar>sint (cCorrectionTarget c)\<bar> < 2 ^ 62"
  shows "let old = sint (cCorrection c); new = sint (cCorrection (nudge_time c lTimeNowus));
             target = sint (cCorrectionTarget c)
         in \<bar>new - old\<bar> \<le> int (unat el) div 2000 \<and> min old target \<le> new \<and> new \<le> max old target \<and>
            (4000 \<le> unat el \<longrightarrow> old = target \<or> \<bar>target - new\<bar> < \<bar>target - old\<bar>)"
proof -
  have n: "nudge_time c lTimeNowus = drift (c\<lparr>lTimeLast := lTimeNowus\<rparr>) el"
    using assms(1,2,3) by (simp add: nudge_time_def)
  have "1 \<le> max_comp el" if "4000 \<le> unat el"
  proof -
    have "int 4000 \<le> int (unat el)" using that by (simp only: of_nat_le_iff)
    from zdiv_mono1 [OF this, of 2000] show ?thesis using max_comp_bounds(2) [OF assms(4)] by simp
  qed
  then show ?thesis
    using drift_between [of el "c\<lparr>lTimeLast := lTimeNowus\<rparr>"] max_comp_bounds(1,3) [OF assms(4)] assms(4-6)
    unfolding n Let_def by (auto simp: min_def max_def)
qed

theorem drift_limited_witness:
  "let c = demo_client\<lparr>cGotCorrection := True, cCorrectionTarget := 100, lTimeLast := 5\<rparr>
   in \<bar>sint (cCorrection (nudge_time c 10005)) - 0\<bar> \<le> 5 \<and> \<bar>100 - sint (cCorrection (nudge_time c 10005))\<bar> < 100"
  using drift_limited [of "demo_client\<lparr>cGotCorrection := True, cCorrectionTarget := 100, lTimeLast := 5\<rparr>" 10000 10005]
  by (simp add: demo_client_def Let_def abs_if split: if_splits)

text \<open>What can happen to the clock of a client: a round of the nudge thread, a time packet, a request for the time.\<close>

datatype clock_event = Nudge_at u64 | Packet_at "byte list" u64 | Ask_at u64

fun clock_run :: "clock_event list \<Rightarrow> client_time \<Rightarrow> u64 list \<times> client_time" where
  "clock_run [] c = ([], c)"
| "clock_run (Nudge_at now # es) c = clock_run es (nudge_time c now)"
| "clock_run (Packet_at buf now # es) c = clock_run es (fst (answer_time c buf now))"
| "clock_run (Ask_at now # es) c =
     (let (v, c') = getNetworkTimeus c now; (vs, c'') = clock_run es c'
      in (if cGotCorrection c then v # vs else vs, c''))"

lemma nudge_time_frame [simp]:
  "cGotCorrection (nudge_time c now) = cGotCorrection c"
  "cFirstTimeDelivery (nudge_time c now) = cFirstTimeDelivery c"
  "cLastDeliveredTime (nudge_time c now) = cLastDeliveredTime c"
  by (auto simp: nudge_time_def drift_def Let_def)

lemma answer_time_frame [simp]:
  "cFirstTimeDelivery (fst (answer_time c buf now)) = cFirstTimeDelivery c"
  "cLastDeliveredTime (fst (answer_time c buf now)) = cLastDeliveredTime c"
  by (auto simp: answer_time_def Let_def)

lemma clock_run_sorted:
  "sorted (map sint (fst (clock_run es c))) \<and>
   (\<not> cFirstTimeDelivery c \<longrightarrow> (\<forall>v \<in> set (fst (clock_run es c)). sint (cLastDeliveredTime c) \<le> sint v))"
proof (induction es c rule: clock_run.induct)
  case (4 now es c)
  obtain v c' where g: "getNetworkTimeus c now = (v, c')" by (cases "getNetworkTimeus c now")
  obtain vs c'' where r: "clock_run es c' = (vs, c'')" by (cases "clock_run es c'")
  from 4 [OF g [symmetric]] r g show ?case
    by (auto simp: getNetworkTimeus_def Let_def split: if_splits)
qed auto

text \<open>
  C34. The network time never runs backwards: over any sequence of time packets (also with wild
  corrections), drift rounds and requests at any local times, the times handed out since the first
  correction never decrease.
\<close>

theorem network_time_monotone: "sorted (map sint (fst (clock_run es c)))"
  using clock_run_sorted by simp

end
