(* ===== verification/Kcp_Codec.thy ===== *)
theory Kcp_Codec
  imports Prelude
begin

text \<open>
  The wire format of \<open>src/kcp_learn/ikcp.c\<close>: the constants of the protocol, the fixed-width
  little-endian encoders and decoders, the arithmetic helpers \<open>_imin_\<close>, \<open>_imax_\<close>,
  \<open>_ibound_\<close> and \<open>_itimediff\<close>, the segment record of \<open>ikcp.h\<close> and the 24-byte segment
  header. An encoder takes what has been written in front of the cursor and returns it
  extended; a decoder takes the bytes from the cursor on and returns the value with the
  bytes behind it, or \<open>None\<close> where the C code would read past the end.
\<close>

section \<open>Constants\<close>

definition IKCP_RTO_NDL :: u32 where [kcp_defs]: "IKCP_RTO_NDL = 30"
definition IKCP_RTO_MIN :: u32 where [kcp_defs]: "IKCP_RTO_MIN = 100"
definition IKCP_RTO_DEF :: u32 where [kcp_defs]: "IKCP_RTO_DEF = 200"
definition IKCP_RTO_MAX :: u32 where [kcp_defs]: "IKCP_RTO_MAX = 60000"
definition IKCP_CMD_PUSH :: u32 where [kcp_defs]: "IKCP_CMD_PUSH = 81"
definition IKCP_CMD_ACK :: u32 where [kcp_defs]: "IKCP_CMD_ACK = 82"
definition IKCP_CMD_WASK :: u32 where [kcp_defs]: "IKCP_CMD_WASK = 83"
definition IKCP_CMD_WINS :: u32 where [kcp_defs]: "IKCP_CMD_WINS = 84"
definition IKCP_ASK_SEND :: u32 where [kcp_defs]: "IKCP_ASK_SEND = 1"
definition IKCP_ASK_TELL :: u32 where [kcp_defs]: "IKCP_ASK_TELL = 2"
definition IKCP_WND_SND :: u32 where [kcp_defs]: "IKCP_WND_SND = 32"
definition IKCP_WND_RCV :: u32 where [kcp_defs]: "IKCP_WND_RCV = 128"
definition IKCP_MTU_DEF :: u32 where [kcp_defs]: "IKCP_MTU_DEF = 1400"
definition IKCP_INTERVAL :: u32 where [kcp_defs]: "IKCP_INTERVAL = 100"
definition IKCP_OVERHEAD :: u32 where [kcp_defs]: "IKCP_OVERHEAD = 24"
definition IKCP_DEADLINK :: u32 where [kcp_defs]: "IKCP_DEADLINK = 20"
definition IKCP_THRESH_INIT :: u32 where [kcp_defs]: "IKCP_THRESH_INIT = 2"
definition IKCP_THRESH_MIN :: u32 where [kcp_defs]: "IKCP_THRESH_MIN = 2"
definition IKCP_PROBE_INIT :: u32 where [kcp_defs]: "IKCP_PROBE_INIT = 7000"
definition IKCP_PROBE_LIMIT :: u32 where [kcp_defs]: "IKCP_PROBE_LIMIT = 120000"
definition IKCP_FASTACK_LIMIT :: u32 where [kcp_defs]: "IKCP_FASTACK_LIMIT = 5"

section \<open>Encoders and decoders\<close>

definition ikcp_encode8u :: "byte list \<Rightarrow> byte \<Rightarrow> byte list" where
  "ikcp_encode8u p c = p @ [c]"

fun ikcp_decode8u :: "byte list \<Rightarrow> (byte \<times> byte list) option" where
  "ikcp_decode8u (b # p) = Some (b, p)"
| "ikcp_decode8u [] = None"

definition ikcp_encode16u :: "byte list \<Rightarrow> u16 \<Rightarrow> byte list" where
  "ikcp_encode16u p w = p @ [ucast (w AND 255), ucast (drop_bit 8 w)]"

fun ikcp_decode16u :: "byte list \<Rightarrow> (u16 \<times> byte list) option" where
  "ikcp_decode16u (b0 # b1 # p) =
     (let w = ucast b1; w = ucast b0 + push_bit 8 w in Some (w, p))"
| "ikcp_decode16u _ = None"

definition ikcp_encode32u :: "byte list \<Rightarrow> u32 \<Rightarrow> byte list" where
  "ikcp_encode32u p l = p @
     [ucast (drop_bit 0 l AND 0xff), ucast (drop_bit 8 l AND 0xff),
      ucast (drop_bit 16 l AND 0xff), ucast (drop_bit 24 l AND 0xff)]"

fun ikcp_decode32u :: "byte list \<Rightarrow> (u32 \<times> byte list) option" where
  "ikcp_decode32u (b0 # b1 # b2 # b3 # p) =
     (let l = ucast b3;
          l = ucast b2 + push_bit 8 l;
          l = ucast b1 + push_bit 8 l;
          l = ucast b0 + push_bit 8 l
      in Some (l, p))"
| "ikcp_decode32u _ = None"

section \<open>Arithmetic helpers\<close>

definition imin :: "u32 \<Rightarrow> u32 \<Rightarrow> u32" where
  "imin a b = (if a \<le> b then a else b)"

definition imax :: "u32 \<Rightarrow> u32 \<Rightarrow> u32" where
  "imax a b = (if a \<ge> b then a else b)"

definition ibound :: "u32 \<Rightarrow> u32 \<Rightarrow> u32 \<Rightarrow> u32" where
  "ibound lower middle upper = imin (imax lower middle) upper"

definition itimediff :: "u32 \<Rightarrow> u32 \<Rightarrow> int" where
  "itimediff later earlier = sint (later - earlier)"

section \<open>Segments\<close>

record ikcpseg =
  sg_conv :: u32
  sg_cmd :: u32
  sg_frg :: u32
  sg_wnd :: u32
  sg_ts :: u32
  sg_sn :: u32
  sg_una :: u32
  sg_len :: u32
  sg_resendts :: u32
  sg_rto :: u32
  sg_fastack :: u32
  sg_xmit :: u32
  sg_data :: "byte list"

definition ikcp_encode_seg :: "byte list \<Rightarrow> ikcpseg \<Rightarrow> byte list" where
  "ikcp_encode_seg ptr seg =
     (let ptr = ikcp_encode32u ptr (sg_conv seg);
          ptr = ikcp_encode8u ptr (ucast (sg_cmd seg));
          ptr = ikcp_encode8u ptr (ucast (sg_frg seg));
          ptr = ikcp_encode16u ptr (ucast (sg_wnd seg));
          ptr = ikcp_encode32u ptr (sg_ts seg);
          ptr = ikcp_encode32u ptr (sg_sn seg);
          ptr = ikcp_encode32u ptr (sg_una seg);
          ptr = ikcp_encode32u ptr (sg_len seg)
      in ptr)"

text \<open>The header fields \<open>ikcp_input\<close> reads, in the order in which it reads them.\<close>

record seg_header =
  h_conv :: u32
  h_cmd :: byte
  h_frg :: byte
  h_wnd :: u16
  h_ts :: u32
  h_sn :: u32
  h_una :: u32
  h_len :: u32

definition ikcp_decode_header :: "byte list \<Rightarrow> (seg_header \<times> byte list) option" where
  "ikcp_decode_header data =
     Option.bind (ikcp_decode32u data) (\<lambda>(conv, data).
     Option.bind (ikcp_decode8u data) (\<lambda>(cmd, data).
     Option.bind (ikcp_decode8u data) (\<lambda>(frg, data).
     Option.bind (ikcp_decode16u data) (\<lambda>(wnd, data).
     Option.bind (ikcp_decode32u data) (\<lambda>(ts, data).
     Option.bind (ikcp_decode32u data) (\<lambda>(sn, data).
     Option.bind (ikcp_decode32u data) (\<lambda>(una, data).
     Option.bind (ikcp_decode32u data) (\<lambda>(len, data).
       Some (\<lparr>h_conv = conv, h_cmd = cmd, h_frg = frg, h_wnd = wnd, h_ts = ts,
              h_sn = sn, h_una = una, h_len = len\<rparr>, data)))))))))"

definition ikcp_getconv :: "byte list \<Rightarrow> u32 option" where
  "ikcp_getconv ptr = map_option fst (ikcp_decode32u ptr)"

section \<open>The fixed-width codec interface\<close>

text \<open>
  What every field codec promises: the encoder appends exactly \<open>width\<close> bytes, the decoder
  takes them off again and leaves the rest, and it refuses to read past the end.
\<close>

locale field_codec =
  fixes enc :: "byte list \<Rightarrow> 'v \<Rightarrow> byte list"
    and dec :: "byte list \<Rightarrow> ('v \<times> byte list) option"
    and width :: nat
  assumes enc_append: "enc p v = p @ enc [] v"
    and enc_width: "length (enc [] v) = width"
    and dec_enc: "dec (enc [] v @ rest) = Some (v, rest)"
    and dec_width: "dec bs = Some (v, rest) \<Longrightarrow> length bs = width + length rest"
    and dec_total: "width \<le> length bs \<Longrightarrow> dec bs \<noteq> None"
begin

lemma enc_length [simp]: "length (enc p v) = length p + width"
  by (subst enc_append) (simp add: enc_width)

lemma dec_after_enc: "dec (drop (length p) (enc p v @ rest)) = Some (v, rest)"
  by (subst enc_append) (simp add: dec_enc)

lemma enc_inject: "enc p v = enc p w \<Longrightarrow> v = w"
  using dec_after_enc [of p v "[]"] dec_after_enc [of p w "[]"] by simp

lemma dec_None_iff: "dec bs = None \<longleftrightarrow> length bs < width"
  using dec_total [of bs] dec_width [of bs] by (cases "dec bs") fastforce+

end

subsection \<open>Bytes of a word\<close>

lemma and_255: "(x :: 'a::len word) AND 255 = take_bit 8 x"
proof -
  have "take_bit 8 x = x AND mask 8" by (rule take_bit_eq_mask)
  also have "mask 8 = (255 :: 'a word)" by (simp add: mask_eq_exp_minus_1)
  finally show ?thesis by simp
qed

lemma byte_of_take_bit: "(ucast (take_bit 8 x) :: byte) = ucast (x :: 'a::len word)"
  by (rule bit_word_eqI) (auto simp: bit_simps)

lemma u16_of_byte: "(ucast (ucast (x :: u16) :: byte) :: u16) = take_bit 8 x"
  by (rule bit_word_eqI) (auto simp: bit_simps)

lemma u32_of_byte: "(ucast (ucast (x :: u32) :: byte) :: u32) = take_bit 8 x"
  by (rule bit_word_eqI) (auto simp: bit_simps)

lemma top_byte16: "take_bit 8 (drop_bit 8 (w :: u16)) = drop_bit 8 w"
  by (rule bit_word_eqI) (auto simp: bit_simps dest: bit_imp_le_length)

lemma top_byte32: "take_bit 8 (drop_bit 24 (w :: u32)) = drop_bit 24 w"
  by (rule bit_word_eqI) (auto simp: bit_simps dest: bit_imp_le_length)

lemma peel_byte: "take_bit 8 (x :: 'a::len word) + push_bit 8 (drop_bit 8 x) = x"
  by (metis add.commute bits_ident)

lemmas byte_peeling = and_255 byte_of_take_bit u16_of_byte u32_of_byte top_byte16 peel_byte

lemma decode16u_bytes:
  "(ucast (ucast (w AND 255) :: byte) :: u16) +
     push_bit 8 (ucast (ucast (drop_bit 8 w) :: byte)) = (w :: u16)"
  by (simp only: byte_peeling)

lemma decode32u_bytes:
  "(ucast (ucast (l AND 255) :: byte) :: u32) +
   push_bit 8 (ucast (ucast (drop_bit 8 l AND 255) :: byte) +
   push_bit 8 (ucast (ucast (drop_bit 16 l AND 255) :: byte) +
   push_bit 8 (ucast (ucast (drop_bit 24 l AND 255) :: byte)))) = (l :: u32)"
proof -
  have shifts: "drop_bit 24 l = drop_bit 8 (drop_bit 8 (drop_bit 8 l))"
    "drop_bit 16 l = drop_bit 8 (drop_bit 8 l)"
    by (simp_all add: drop_bit_drop_bit)
  have top: "take_bit 8 (drop_bit 8 (drop_bit 8 (drop_bit 8 l))) =
      drop_bit 8 (drop_bit 8 (drop_bit 8 l))"
    using top_byte32 [of l] by (simp only: shifts)
  show ?thesis
    by (simp only: byte_peeling shifts top)
qed

subsection \<open>The three field codecs\<close>

interpretation u8: field_codec ikcp_encode8u ikcp_decode8u 1
proof
  fix bs rest :: "byte list" and v
  show "ikcp_decode8u bs = Some (v, rest) \<Longrightarrow> length bs = 1 + length rest"
    by (cases bs) auto
  show "1 \<le> length bs \<Longrightarrow> ikcp_decode8u bs \<noteq> None"
    by (cases bs) auto
qed (simp_all add: ikcp_encode8u_def)

interpretation u16: field_codec ikcp_encode16u ikcp_decode16u 2
proof
  fix bs rest :: "byte list" and v
  show "ikcp_decode16u bs = Some (v, rest) \<Longrightarrow> length bs = 2 + length rest"
    by (cases bs rule: ikcp_decode16u.cases) (auto simp: Let_def)
  show "2 \<le> length bs \<Longrightarrow> ikcp_decode16u bs \<noteq> None"
    by (cases bs rule: ikcp_decode16u.cases) (auto simp: Let_def)
  show "ikcp_decode16u (ikcp_encode16u [] v @ rest) = Some (v, rest)"
    by (simp only: ikcp_encode16u_def append.simps ikcp_decode16u.simps Let_def decode16u_bytes)
qed (simp_all add: ikcp_encode16u_def)

interpretation u32: field_codec ikcp_encode32u ikcp_decode32u 4
proof
  fix bs rest :: "byte list" and v
  show "ikcp_decode32u bs = Some (v, rest) \<Longrightarrow> length bs = 4 + length rest"
    by (cases bs rule: ikcp_decode32u.cases) (auto simp: Let_def)
  show "4 \<le> length bs \<Longrightarrow> ikcp_decode32u bs \<noteq> None"
    by (cases bs rule: ikcp_decode32u.cases) (auto simp: Let_def)
  show "ikcp_decode32u (ikcp_encode32u [] v @ rest) = Some (v, rest)"
    by (simp only: ikcp_encode32u_def append.simps ikcp_decode32u.simps Let_def drop_bit_0 id_apply
        decode32u_bytes)
qed (simp_all add: ikcp_encode32u_def)

section \<open>The segment header\<close>

text \<open>The header as the concatenation of its fields.\<close>

lemma ikcp_encode_seg_eq:
  "ikcp_encode_seg p s = p @
     ikcp_encode32u [] (sg_conv s) @ ikcp_encode8u [] (ucast (sg_cmd s)) @
     ikcp_encode8u [] (ucast (sg_frg s)) @ ikcp_encode16u [] (ucast (sg_wnd s)) @
     ikcp_encode32u [] (sg_ts s) @ ikcp_encode32u [] (sg_sn s) @
     ikcp_encode32u [] (sg_una s) @ ikcp_encode32u [] (sg_len s)"
  by (simp add: ikcp_encode_seg_def Let_def ikcp_encode32u_def ikcp_encode16u_def ikcp_encode8u_def)

lemma ikcp_encode_seg_append: "ikcp_encode_seg p s = p @ ikcp_encode_seg [] s"
  by (simp only: ikcp_encode_seg_eq append_Nil)

lemma length_ikcp_encode_seg [simp]: "length (ikcp_encode_seg p s) = length p + 24"
  by (simp add: ikcp_encode_seg_eq)

lemma decode_encode:
  "ikcp_decode_header (ikcp_encode_seg [] s @ payload) =
     Some (\<lparr>h_conv = sg_conv s, h_cmd = ucast (sg_cmd s), h_frg = ucast (sg_frg s),
            h_wnd = ucast (sg_wnd s), h_ts = sg_ts s, h_sn = sg_sn s, h_una = sg_una s,
            h_len = sg_len s\<rparr>, payload)"
  by (simp add: ikcp_encode_seg_eq ikcp_decode_header_def u32.dec_enc u16.dec_enc u8.dec_enc)

text \<open>
  Header round trip: for every segment and every payload behind it, decoding the bytes
  that \<open>ikcp_encode_seg\<close> writes gives back every header field (the command, the fragment
  number and the window truncated to their 8, 8 and 16 bits on the wire), consumes exactly
  the 24 bytes of the header and leaves the payload untouched.
\<close>

theorem header_roundtrip:
  "ikcp_decode_header (drop (length p) (ikcp_encode_seg p s) @ payload) =
     Some (\<lparr>h_conv = sg_conv s, h_cmd = ucast (sg_cmd s), h_frg = ucast (sg_frg s),
            h_wnd = ucast (sg_wnd s), h_ts = sg_ts s, h_sn = sg_sn s, h_una = sg_una s,
            h_len = sg_len s\<rparr>, payload)
   \<and> length (ikcp_encode_seg p s) = length p + unat IKCP_OVERHEAD"
  using decode_encode [of s payload] by (subst (1 2) ikcp_encode_seg_append) (simp add: kcp_defs)

lemma decode_header_length:
  "ikcp_decode_header bs = Some (h, rest) \<Longrightarrow> length bs = 24 + length rest"
  by (auto simp: ikcp_decode_header_def bind_eq_Some_conv
      dest!: u32.dec_width u16.dec_width u8.dec_width)

lemma decode_header_None_iff: "ikcp_decode_header bs = None \<longleftrightarrow> length bs < 24"
proof
  assume "ikcp_decode_header bs = None"
  then show "length bs < 24"
    by (auto simp: ikcp_decode_header_def u32.dec_None_iff u16.dec_None_iff u8.dec_None_iff
        split: Option.bind_split_asm dest!: u32.dec_width u16.dec_width u8.dec_width)
next
  assume "length bs < 24"
  then show "ikcp_decode_header bs = None"
    using decode_header_length [of bs] by (cases "ikcp_decode_header bs") auto
qed

section \<open>Bounds and time differences\<close>

lemma ibound_upper: "ibound lo m hi \<le> hi"
  by (simp add: ibound_def imin_def)

lemma ibound_lower: "lo \<le> hi \<Longrightarrow> lo \<le> ibound lo m hi"
  by (auto simp: ibound_def imin_def imax_def)

lemma itimediff_self [simp]: "itimediff t t = 0"
  by (simp add: itimediff_def)

lemma itimediff_range: "- (2 ^ 31) \<le> itimediff a b \<and> itimediff a b < 2 ^ 31"
  using sint_range_size [of "a - b"] by (simp add: itimediff_def word_size)

lemma itimediff_wdist:
  "wdist b x < 2 ^ 31 \<Longrightarrow> wdist b y < 2 ^ 31 \<Longrightarrow>
     itimediff x y = int (wdist b x) - int (wdist b y)"
  by (simp only: itimediff_def sint_diff_wdist)

lemma itimediff_neg_iff: "itimediff x b < 0 \<longleftrightarrow> 2 ^ 31 \<le> wdist b x"
  by (simp only: itimediff_def sint_wdist_neg_iff)

end
