(* ===== verification/Kcp_State.thy ===== *)
theory Kcp_State
  imports Kcp_Codec
begin

text \<open>
  The control block \<open>IKCPCB\<close> of \<open>src/kcp_learn/ikcp.h\<close>, its creation and release, the
  configuration calls, and the well-formedness invariant that every operation of the
  protocol keeps. The four intrusive queues are lists of segments (theory \<open>Kcp_Queue\<close>
  shows that the list operations are what the pointer macros do). The allocator hook is a
  parameter \<open>alloc\<close>, asked with the size in bytes; what C leaves undefined or ends the
  process with is a value of \<open>kcp_fault\<close>. The log hook and the opaque user pointer have no
  effect on the block and are left out.
\<close>

datatype kcp_fault =
    Assertion      \<comment> \<open>a failed \<open>assert\<close>\<close>
  | Abort          \<comment> \<open>a call of \<open>abort()\<close>\<close>
  | Null_deref     \<comment> \<open>a store through a null pointer\<close>
  | Overrun        \<comment> \<open>a store behind the end of \<open>kcp->buffer\<close> or \<open>kcp->acklist\<close>\<close>
  | Diverge        \<comment> \<open>a loop that never ends\<close>

record ikcpcb =
  k_conv :: u32
  k_mtu :: u32
  k_mss :: u32
  k_state :: u32
  k_snd_una :: u32
  k_snd_nxt :: u32
  k_rcv_nxt :: u32
  k_ts_recent :: u32
  k_ts_lastack :: u32
  k_ssthresh :: u32
  k_rx_rttval :: int
  k_rx_srtt :: int
  k_rx_rto :: int
  k_rx_minrto :: int
  k_snd_wnd :: u32
  k_rcv_wnd :: u32
  k_rmt_wnd :: u32
  k_cwnd :: u32
  k_probe :: u32
  k_current :: u32
  k_interval :: u32
  k_ts_flush :: u32
  k_xmit :: u32
  k_nrcv_buf :: u32
  k_nsnd_buf :: u32
  k_nrcv_que :: u32
  k_nsnd_que :: u32
  k_nodelay :: u32
  k_updated :: u32
  k_ts_probe :: u32
  k_probe_wait :: u32
  k_dead_link :: u32
  k_incr :: u32
  k_snd_queue :: "ikcpseg list"
  k_rcv_queue :: "ikcpseg list"
  k_snd_buf :: "ikcpseg list"
  k_rcv_buf :: "ikcpseg list"
  k_acklist :: "u32 list option"
  k_ackcount :: u32
  k_ackblock :: u32
  k_bufcap :: nat            \<comment> \<open>bytes allocated for \<open>buffer\<close>\<close>
  k_fastresend :: int
  k_fastlimit :: int
  k_nocwnd :: int
  k_stream :: int
  k_output :: bool           \<comment> \<open>whether the output callback has been set\<close>

definition SIZEOF_IKCPSEG :: nat where "SIZEOF_IKCPSEG = 72"
definition SIZEOF_IKCPCB :: nat where "SIZEOF_IKCPCB = 272"

text \<open>The size of the output buffer is computed in 32-bit unsigned arithmetic.\<close>

definition buffer_bytes :: "u32 \<Rightarrow> nat" where
  "buffer_bytes mtu = unat ((mtu + IKCP_OVERHEAD) * 3)"

section \<open>Creation and release\<close>

definition ikcp_create :: "(nat \<Rightarrow> bool) \<Rightarrow> u32 \<Rightarrow> ikcpcb option" where
  "ikcp_create alloc conv =
     (if \<not> alloc SIZEOF_IKCPCB then None
      else if \<not> alloc (buffer_bytes IKCP_MTU_DEF) then None
      else Some
       \<lparr>k_conv = conv, k_mtu = IKCP_MTU_DEF, k_mss = IKCP_MTU_DEF - IKCP_OVERHEAD, k_state = 0,
        k_snd_una = 0, k_snd_nxt = 0, k_rcv_nxt = 0, k_ts_recent = 0, k_ts_lastack = 0,
        k_ssthresh = IKCP_THRESH_INIT, k_rx_rttval = 0, k_rx_srtt = 0,
        k_rx_rto = uint IKCP_RTO_DEF, k_rx_minrto = uint IKCP_RTO_MIN,
        k_snd_wnd = IKCP_WND_SND, k_rcv_wnd = IKCP_WND_RCV, k_rmt_wnd = IKCP_WND_RCV,
        k_cwnd = 0, k_probe = 0, k_current = 0, k_interval = IKCP_INTERVAL,
        k_ts_flush = IKCP_INTERVAL, k_xmit = 0, k_nrcv_buf = 0, k_nsnd_buf = 0,
        k_nrcv_que = 0, k_nsnd_que = 0, k_nodelay = 0, k_updated = 0, k_ts_probe = 0,
        k_probe_wait = 0, k_dead_link = IKCP_DEADLINK, k_incr = 0, k_snd_queue = [],
        k_rcv_queue = [], k_snd_buf = [], k_rcv_buf = [], k_acklist = None, k_ackcount = 0,
        k_ackblock = 0, k_bufcap = buffer_bytes IKCP_MTU_DEF, k_fastresend = 0,
        k_fastlimit = uint IKCP_FASTACK_LIMIT, k_nocwnd = 0, k_stream = 0, k_output = False\<rparr>)"

definition ikcp_setoutput :: "ikcpcb \<Rightarrow> bool \<Rightarrow> ikcpcb" where
  "ikcp_setoutput kcp output = kcp\<lparr>k_output := output\<rparr>"

text \<open>One queue of \<open>ikcp_release\<close>: unlink the first node and free it until none is left.\<close>

fun release_queue :: "ikcpseg list \<Rightarrow> nat \<Rightarrow> ikcpseg list \<times> nat" where
  "release_queue [] frees = ([], frees)"
| "release_queue (seg # q) frees = release_queue q (Suc frees)"

text \<open>
  The released block, with the number of blocks handed back to the allocator (the segments,
  the output buffer, the acknowledgement list when there is one, the block itself).
\<close>

definition ikcp_release :: "ikcpcb \<Rightarrow> ikcpcb \<times> nat" where
  "ikcp_release kcp =
     (let (sb, n) = release_queue (k_snd_buf kcp) 0;
          (rb, n) = release_queue (k_rcv_buf kcp) n;
          (sq, n) = release_queue (k_snd_queue kcp) n;
          (rq, n) = release_queue (k_rcv_queue kcp) n;
          n = n + 1;
          n = (if k_acklist kcp \<noteq> None then n + 1 else n)
      in (kcp\<lparr>k_snd_buf := sb, k_rcv_buf := rb, k_snd_queue := sq, k_rcv_queue := rq,
              k_nrcv_buf := 0, k_nsnd_buf := 0, k_nrcv_que := 0, k_nsnd_que := 0,
              k_ackcount := 0, k_bufcap := 0, k_acklist := None\<rparr>, n + 1))"

section \<open>Configuration\<close>

definition ikcp_setmtu :: "(nat \<Rightarrow> bool) \<Rightarrow> ikcpcb \<Rightarrow> int \<Rightarrow> ikcpcb \<times> int" where
  "ikcp_setmtu alloc kcp mtu =
     (if mtu < 50 \<or> mtu < uint IKCP_OVERHEAD then (kcp, -1)
      else if \<not> alloc (buffer_bytes (word_of_int mtu)) then (kcp, -2)
      else (kcp\<lparr>k_mtu := word_of_int mtu, k_mss := word_of_int mtu - IKCP_OVERHEAD,
                k_bufcap := buffer_bytes (word_of_int mtu)\<rparr>, 0))"

definition ikcp_interval :: "ikcpcb \<Rightarrow> int \<Rightarrow> ikcpcb \<times> int" where
  "ikcp_interval kcp interval =
     (let interval = (if interval > 5000 then 5000 else if interval < 10 then 10 else interval)
      in (kcp\<lparr>k_interval := word_of_int interval\<rparr>, 0))"

definition ikcp_nodelay :: "ikcpcb \<Rightarrow> int \<Rightarrow> int \<Rightarrow> int \<Rightarrow> int \<Rightarrow> ikcpcb \<times> int" where
  "ikcp_nodelay kcp nodelay interval resend nc =
     (let kcp = (if nodelay \<ge> 0
                 then kcp\<lparr>k_nodelay := word_of_int nodelay,
                          k_rx_minrto := uint (if nodelay \<noteq> 0 then IKCP_RTO_NDL else IKCP_RTO_MIN)\<rparr>
                 else kcp);
          kcp = (if interval \<ge> 0
                 then let interval = (if interval > 5000 then 5000
                                      else if interval < 10 then 10 else interval)
                      in kcp\<lparr>k_interval := word_of_int interval\<rparr>
                 else kcp);
          kcp = (if resend \<ge> 0 then kcp\<lparr>k_fastresend := resend\<rparr> else kcp);
          kcp = (if nc \<ge> 0 then kcp\<lparr>k_nocwnd := nc\<rparr> else kcp)
      in (kcp, 0))"

definition ikcp_wndsize :: "ikcpcb \<Rightarrow> int \<Rightarrow> int \<Rightarrow> ikcpcb \<times> int" where
  "ikcp_wndsize kcp sndwnd rcvwnd =
     (let kcp = (if sndwnd > 0 then kcp\<lparr>k_snd_wnd := word_of_int sndwnd\<rparr> else kcp);
          kcp = (if rcvwnd > 0
                 then kcp\<lparr>k_rcv_wnd := imax (word_of_int rcvwnd) IKCP_WND_RCV\<rparr> else kcp)
      in (kcp, 0))"

definition ikcp_waitsnd :: "ikcpcb \<Rightarrow> int" where
  "ikcp_waitsnd kcp = sint (k_nsnd_buf kcp + k_nsnd_que kcp)"

definition ikcp_wnd_unused :: "ikcpcb \<Rightarrow> u32" where
  "ikcp_wnd_unused kcp =
     (if k_nrcv_que kcp < k_rcv_wnd kcp then k_rcv_wnd kcp - k_nrcv_que kcp else 0)"

section \<open>The invariant\<close>

text \<open>
  A segment's length field is the length of its data. The payload of a segment waiting to
  be sent fits the maximum segment size.
\<close>

definition seg_ok :: "ikcpseg \<Rightarrow> bool" where
  "seg_ok s \<longleftrightarrow> unat (sg_len s) = length (sg_data s)"

text \<open>
  \<open>serial_sorted base b ss\<close>: the sequence numbers of \<open>ss\<close> lie in strictly increasing
  order in the window of \<open>b\<close> numbers that starts at \<open>base\<close>.
\<close>

definition serial_sorted :: "u32 \<Rightarrow> nat \<Rightarrow> ikcpseg list \<Rightarrow> bool" where
  "serial_sorted base b ss \<longleftrightarrow>
     sorted_wrt (\<lambda>s t. wdist base (sg_sn s) < wdist base (sg_sn t)) ss \<and>
     (\<forall>s \<in> set ss. wdist base (sg_sn s) < b)"

text \<open>
  The receiving side: the counters are the lengths of the queues; the buffered segments are
  ordered ahead of \<open>rcv_nxt\<close>.
\<close>

definition rcv_inv :: "ikcpcb \<Rightarrow> bool" where
  "rcv_inv kcp \<longleftrightarrow>
     k_nrcv_buf kcp = of_nat (length (k_rcv_buf kcp)) \<and>
     k_nrcv_que kcp = of_nat (length (k_rcv_queue kcp)) \<and>
     length (k_rcv_queue kcp) < 2 ^ 31 \<and>
     0 < k_rcv_wnd kcp \<and> unat (k_rcv_wnd kcp) < 2 ^ 31 \<and>
     serial_sorted (k_rcv_nxt kcp) (2 ^ 31) (k_rcv_buf kcp) \<and>
     (\<forall>s \<in> set (k_rcv_buf kcp) \<union> set (k_rcv_queue kcp). seg_ok s)"

text \<open>
  The sending side: what is in flight lies in order between \<open>snd_una\<close> and \<open>snd_nxt\<close>, and
  there are never more numbers in flight than a 16-bit window can announce.
\<close>

definition snd_inv :: "ikcpcb \<Rightarrow> bool" where
  "snd_inv kcp \<longleftrightarrow>
     k_nsnd_buf kcp = of_nat (length (k_snd_buf kcp)) \<and>
     k_nsnd_que kcp = of_nat (length (k_snd_queue kcp)) \<and>
     unat (k_rmt_wnd kcp) < 2 ^ 16 \<and>
     wdist (k_snd_una kcp) (k_snd_nxt kcp) < 2 ^ 16 \<and>
     serial_sorted (k_snd_una kcp) (wdist (k_snd_una kcp) (k_snd_nxt kcp)) (k_snd_buf kcp) \<and>
     (\<forall>s \<in> set (k_snd_buf kcp) \<union> set (k_snd_queue kcp). seg_ok s)"

text \<open>The acknowledgement list: an array of two words per entry.\<close>

fun ack_ok :: "u32 list option \<Rightarrow> u32 \<Rightarrow> u32 \<Rightarrow> bool" where
  "ack_ok None count block \<longleftrightarrow> count = 0 \<and> block = 0"
| "ack_ok (Some a) count block \<longleftrightarrow> length a = 2 * unat block \<and> count \<le> block"

definition ack_inv :: "ikcpcb \<Rightarrow> bool" where
  "ack_inv kcp \<longleftrightarrow> ack_ok (k_acklist kcp) (k_ackcount kcp) (k_ackblock kcp)"

text \<open>The output buffer and the bounds of the retransmission timer.\<close>

definition cfg_inv :: "ikcpcb \<Rightarrow> bool" where
  "cfg_inv kcp \<longleftrightarrow>
     50 \<le> unat (k_mtu kcp) \<and> unat (k_mtu kcp) < 2 ^ 30 \<and>
     k_mss kcp = k_mtu kcp - IKCP_OVERHEAD \<and>
     k_bufcap kcp = buffer_bytes (k_mtu kcp) \<and>
     0 < k_rx_minrto kcp \<and> k_rx_minrto kcp \<le> uint IKCP_RTO_MAX \<and>
     0 < k_rx_rto kcp \<and> k_rx_rto kcp \<le> uint IKCP_RTO_MAX"

definition kcp_inv :: "ikcpcb \<Rightarrow> bool" where
  "kcp_inv kcp \<longleftrightarrow> rcv_inv kcp \<and> snd_inv kcp \<and> ack_inv kcp \<and> cfg_inv kcp"

lemmas kcp_inv_defs = kcp_inv_def rcv_inv_def snd_inv_def ack_inv_def cfg_inv_def

subsection \<open>Sorted windows\<close>

lemma serial_sorted_Nil [simp]: "serial_sorted base b []"
  by (simp add: serial_sorted_def)

lemma serial_sorted_Cons:
  "serial_sorted base b (s # ss) \<longleftrightarrow>
     wdist base (sg_sn s) < b \<and> serial_sorted base b ss \<and>
     (\<forall>t \<in> set ss. wdist base (sg_sn s) < wdist base (sg_sn t))"
  by (auto simp: serial_sorted_def)

lemma serial_sorted_append:
  "serial_sorted base b (xs @ ys) \<longleftrightarrow>
     serial_sorted base b xs \<and> serial_sorted base b ys \<and>
     (\<forall>s \<in> set xs. \<forall>t \<in> set ys. wdist base (sg_sn s) < wdist base (sg_sn t))"
  by (auto simp: serial_sorted_def sorted_wrt_append)

lemma serial_sorted_mono: "serial_sorted base b ss \<Longrightarrow> b \<le> c \<Longrightarrow> serial_sorted base c ss"
  by (auto simp: serial_sorted_def intro: less_le_trans)

lemma serial_sorted_distinct: "serial_sorted base b ss \<Longrightarrow> distinct (map sg_sn ss)"
  by (induction ss) (auto simp: serial_sorted_Cons)

text \<open>Moving the base of the window forward keeps the order.\<close>

lemma serial_sorted_rebase:
  assumes "serial_sorted base b ss" and "\<And>s. s \<in> set ss \<Longrightarrow> n \<le> wdist base (sg_sn s)"
  shows "serial_sorted (base + of_nat n) (b - n) ss"
  using assms
proof (induction ss)
  case Nil
  show ?case by simp
next
  case (Cons s ss)
  then have "serial_sorted (base + of_nat n) (b - n) ss"
    by (simp add: serial_sorted_Cons)
  with Cons.prems show ?case
    by (fastforce simp: serial_sorted_Cons wdist_rebase)
qed

lemma buffer_bytes_eq: "unat mtu < 2 ^ 30 \<Longrightarrow> buffer_bytes mtu = (unat mtu + 24) * 3"
  by (simp add: buffer_bytes_def kcp_defs unat_word_ariths)

section \<open>What creation and configuration establish\<close>

lemma release_queue_eq [simp]: "release_queue q n = ([], n + length q)"
  by (induction q n rule: release_queue.induct) auto

lemma create_inv: "ikcp_create alloc conv = Some kcp \<Longrightarrow> kcp_inv kcp"
  by (auto simp: ikcp_create_def kcp_inv_defs kcp_defs split: if_splits)

lemma setoutput_inv [simp]: "kcp_inv (ikcp_setoutput kcp b) = kcp_inv kcp"
  by (simp add: ikcp_setoutput_def kcp_inv_defs)

lemma setmtu_inv:
  assumes "kcp_inv kcp" and "ikcp_setmtu alloc kcp mtu = (kcp', rc)" and "mtu < 2 ^ 30"
  shows "kcp_inv kcp'"
proof (cases "rc = 0")
  case True
  with assms have "50 \<le> mtu" and "unat (word_of_int mtu :: u32) = nat mtu"
    by (auto simp: ikcp_setmtu_def unat_word_of_int32 split: if_splits)
  then show ?thesis
    using assms True by (auto simp: ikcp_setmtu_def kcp_inv_defs split: if_splits)
next
  case False
  with assms show ?thesis by (auto simp: ikcp_setmtu_def split: if_splits)
qed

lemma interval_inv: "kcp_inv kcp \<Longrightarrow> ikcp_interval kcp i = (kcp', rc) \<Longrightarrow> kcp_inv kcp'"
  by (auto simp: ikcp_interval_def Let_def kcp_inv_defs)

text \<open>The fields the invariant says nothing about.\<close>

lemma kcp_inv_frame [simp]:
  "kcp_inv (kcp\<lparr>k_nodelay := a\<rparr>) = kcp_inv kcp" "kcp_inv (kcp\<lparr>k_interval := a\<rparr>) = kcp_inv kcp"
  "kcp_inv (kcp\<lparr>k_fastresend := i\<rparr>) = kcp_inv kcp" "kcp_inv (kcp\<lparr>k_nocwnd := i\<rparr>) = kcp_inv kcp"
  "kcp_inv (kcp\<lparr>k_probe := a\<rparr>) = kcp_inv kcp" "kcp_inv (kcp\<lparr>k_cwnd := a\<rparr>) = kcp_inv kcp"
  "kcp_inv (kcp\<lparr>k_incr := a\<rparr>) = kcp_inv kcp" "kcp_inv (kcp\<lparr>k_ssthresh := a\<rparr>) = kcp_inv kcp"
  "kcp_inv (kcp\<lparr>k_state := a\<rparr>) = kcp_inv kcp" "kcp_inv (kcp\<lparr>k_xmit := a\<rparr>) = kcp_inv kcp"
  "kcp_inv (kcp\<lparr>k_current := a\<rparr>) = kcp_inv kcp" "kcp_inv (kcp\<lparr>k_updated := a\<rparr>) = kcp_inv kcp"
  "kcp_inv (kcp\<lparr>k_ts_flush := a\<rparr>) = kcp_inv kcp" "kcp_inv (kcp\<lparr>k_ts_probe := a\<rparr>) = kcp_inv kcp"
  "kcp_inv (kcp\<lparr>k_probe_wait := a\<rparr>) = kcp_inv kcp" "kcp_inv (kcp\<lparr>k_snd_wnd := a\<rparr>) = kcp_inv kcp"
  by (simp_all add: kcp_inv_defs)

lemma inv_frames [simp]:
  "rcv_inv (kcp\<lparr>k_snd_buf := q\<rparr>) = rcv_inv kcp" "rcv_inv (kcp\<lparr>k_nsnd_buf := a\<rparr>) = rcv_inv kcp"
  "rcv_inv (kcp\<lparr>k_snd_una := a\<rparr>) = rcv_inv kcp" "rcv_inv (kcp\<lparr>k_rmt_wnd := a\<rparr>) = rcv_inv kcp"
  "rcv_inv (kcp\<lparr>k_snd_queue := q\<rparr>) = rcv_inv kcp" "rcv_inv (kcp\<lparr>k_nsnd_que := a\<rparr>) = rcv_inv kcp"
  "rcv_inv (kcp\<lparr>k_snd_nxt := a\<rparr>) = rcv_inv kcp" "rcv_inv (kcp\<lparr>k_ackcount := a\<rparr>) = rcv_inv kcp"
  "rcv_inv (kcp\<lparr>k_acklist := l\<rparr>) = rcv_inv kcp" "rcv_inv (kcp\<lparr>k_ackblock := a\<rparr>) = rcv_inv kcp"
  "snd_inv (kcp\<lparr>k_rcv_buf := q\<rparr>) = snd_inv kcp" "snd_inv (kcp\<lparr>k_nrcv_buf := a\<rparr>) = snd_inv kcp"
  "snd_inv (kcp\<lparr>k_rcv_queue := q\<rparr>) = snd_inv kcp" "snd_inv (kcp\<lparr>k_nrcv_que := a\<rparr>) = snd_inv kcp"
  "snd_inv (kcp\<lparr>k_rcv_nxt := a\<rparr>) = snd_inv kcp" "snd_inv (kcp\<lparr>k_ackcount := a\<rparr>) = snd_inv kcp"
  "snd_inv (kcp\<lparr>k_acklist := l\<rparr>) = snd_inv kcp" "snd_inv (kcp\<lparr>k_ackblock := a\<rparr>) = snd_inv kcp"
  "ack_inv (kcp\<lparr>k_snd_buf := q\<rparr>) = ack_inv kcp" "ack_inv (kcp\<lparr>k_nsnd_buf := a\<rparr>) = ack_inv kcp"
  "ack_inv (kcp\<lparr>k_snd_una := a\<rparr>) = ack_inv kcp" "ack_inv (kcp\<lparr>k_rmt_wnd := a\<rparr>) = ack_inv kcp"
  "ack_inv (kcp\<lparr>k_snd_queue := q\<rparr>) = ack_inv kcp" "ack_inv (kcp\<lparr>k_nsnd_que := a\<rparr>) = ack_inv kcp"
  "ack_inv (kcp\<lparr>k_snd_nxt := a\<rparr>) = ack_inv kcp" "ack_inv (kcp\<lparr>k_rcv_nxt := a\<rparr>) = ack_inv kcp"
  "ack_inv (kcp\<lparr>k_rcv_buf := q\<rparr>) = ack_inv kcp" "ack_inv (kcp\<lparr>k_nrcv_buf := a\<rparr>) = ack_inv kcp"
  "ack_inv (kcp\<lparr>k_rcv_queue := q\<rparr>) = ack_inv kcp" "ack_inv (kcp\<lparr>k_nrcv_que := a\<rparr>) = ack_inv kcp"
  "cfg_inv (kcp\<lparr>k_snd_buf := q\<rparr>) = cfg_inv kcp" "cfg_inv (kcp\<lparr>k_nsnd_buf := a\<rparr>) = cfg_inv kcp"
  "cfg_inv (kcp\<lparr>k_snd_una := a\<rparr>) = cfg_inv kcp" "cfg_inv (kcp\<lparr>k_rmt_wnd := a\<rparr>) = cfg_inv kcp"
  "cfg_inv (kcp\<lparr>k_snd_queue := q\<rparr>) = cfg_inv kcp" "cfg_inv (kcp\<lparr>k_nsnd_que := a\<rparr>) = cfg_inv kcp"
  "cfg_inv (kcp\<lparr>k_snd_nxt := a\<rparr>) = cfg_inv kcp" "cfg_inv (kcp\<lparr>k_rcv_nxt := a\<rparr>) = cfg_inv kcp"
  "cfg_inv (kcp\<lparr>k_rcv_buf := q\<rparr>) = cfg_inv kcp" "cfg_inv (kcp\<lparr>k_nrcv_buf := a\<rparr>) = cfg_inv kcp"
  "cfg_inv (kcp\<lparr>k_rcv_queue := q\<rparr>) = cfg_inv kcp" "cfg_inv (kcp\<lparr>k_nrcv_que := a\<rparr>) = cfg_inv kcp"
  "cfg_inv (kcp\<lparr>k_ackcount := a\<rparr>) = cfg_inv kcp" "cfg_inv (kcp\<lparr>k_acklist := l\<rparr>) = cfg_inv kcp"
  "cfg_inv (kcp\<lparr>k_ackblock := a\<rparr>) = cfg_inv kcp"
  by (simp_all add: rcv_inv_def snd_inv_def ack_inv_def cfg_inv_def)

lemma kcp_inv_minrto:
  "kcp_inv kcp \<Longrightarrow> 0 < m \<Longrightarrow> m \<le> uint IKCP_RTO_MAX \<Longrightarrow> kcp_inv (kcp\<lparr>k_rx_minrto := m\<rparr>)"
  by (simp add: kcp_inv_defs)

lemma kcp_inv_rcv_wnd:
  "kcp_inv kcp \<Longrightarrow> 0 < w \<Longrightarrow> unat w < 2 ^ 31 \<Longrightarrow> kcp_inv (kcp\<lparr>k_rcv_wnd := w\<rparr>)"
  by (simp add: kcp_inv_defs)

lemma nodelay_inv:
  assumes "kcp_inv kcp" and "ikcp_nodelay kcp nd iv rs nc = (kcp', rc)"
  shows "kcp_inv kcp'"
proof -
  have "kcp_inv (kcp\<lparr>k_nodelay := a, k_rx_minrto := uint (if b then IKCP_RTO_NDL else IKCP_RTO_MIN)\<rparr>)"
    for a b
    using assms(1) by (intro kcp_inv_minrto) (simp_all add: kcp_defs)
  with assms show ?thesis
    by (auto simp: ikcp_nodelay_def Let_def simp del: if_split_asm)
qed

lemma wndsize_inv:
  assumes "kcp_inv kcp" and "ikcp_wndsize kcp sw rw = (kcp', rc)" and "rw < 2 ^ 31"
  shows "kcp_inv kcp'"
proof (cases "rw > 0")
  case True
  with assms(3) have "unat (word_of_int rw :: u32) = nat rw"
    by (simp add: unat_word_of_int32)
  with True assms(3) have "unat (imax (word_of_int rw) IKCP_WND_RCV) < 2 ^ 31"
    and "0 < imax (word_of_int rw) IKCP_WND_RCV"
    by (auto simp: imax_def kcp_defs word_less_nat_alt word_le_nat_alt)
  with True assms(1,2) show ?thesis
    by (auto simp: ikcp_wndsize_def Let_def intro: kcp_inv_rcv_wnd)
next
  case False
  with assms show ?thesis by (auto simp: ikcp_wndsize_def Let_def)
qed

end
