(* ===== verification/Kcp_Recv.thy ===== *)
theory Kcp_Recv
  imports Kcp_State
begin

text \<open>
  The receiving half of \<open>src/kcp_learn/ikcp.c\<close>: \<open>ikcp_peeksize\<close>, \<open>ikcp_recv\<close> and
  \<open>ikcp_parse_data\<close>, with the loop both use to move segments that have become contiguous
  from the receive buffer to the receive queue. The main results are that the loop drains
  exactly the contiguous prefix, that out-of-order arrival, duplication and loss never
  change what the application reads, and that \<open>ikcp_recv\<close> hands out exactly one message.
\<close>

section \<open>Moving contiguous segments\<close>

fun move_rcv_buf :: "ikcpseg list \<Rightarrow> ikcpcb \<Rightarrow> ikcpcb" where
  "move_rcv_buf [] kcp = kcp"
| "move_rcv_buf (seg # rest) kcp =
     (if sg_sn seg = k_rcv_nxt kcp \<and> k_nrcv_que kcp < k_rcv_wnd kcp
      then move_rcv_buf rest
             (kcp\<lparr>k_rcv_buf := rest, k_nrcv_buf := k_nrcv_buf kcp - 1,
                  k_rcv_queue := k_rcv_queue kcp @ [seg], k_nrcv_que := k_nrcv_que kcp + 1,
                  k_rcv_nxt := k_rcv_nxt kcp + 1\<rparr>)
      else kcp)"

section \<open>Inserting an arriving segment\<close>

text \<open>
  The backward search of \<open>ikcp_parse_data\<close>, on the buffer read from its tail: \<open>None\<close> when
  the number is there already, otherwise the buffer with the new node behind the place the
  search stopped at.
\<close>

fun rcv_insert_rev :: "ikcpseg \<Rightarrow> ikcpseg list \<Rightarrow> ikcpseg list option" where
  "rcv_insert_rev new [] = Some [new]"
| "rcv_insert_rev new (seg # before) =
     (if sg_sn seg = sg_sn new then None
      else if itimediff (sg_sn new) (sg_sn seg) > 0 then Some (new # seg # before)
      else map_option (Cons seg) (rcv_insert_rev new before))"

definition rcv_insert :: "ikcpseg \<Rightarrow> ikcpseg list \<Rightarrow> ikcpseg list option" where
  "rcv_insert new buf = map_option rev (rcv_insert_rev new (rev buf))"

definition ikcp_parse_data :: "ikcpcb \<Rightarrow> ikcpseg \<Rightarrow> ikcpcb" where
  "ikcp_parse_data kcp newseg =
     (let sn = sg_sn newseg
      in if itimediff sn (k_rcv_nxt kcp + k_rcv_wnd kcp) \<ge> 0 \<or> itimediff sn (k_rcv_nxt kcp) < 0
         then kcp
         else let kcp = (case rcv_insert newseg (k_rcv_buf kcp) of
                           None \<Rightarrow> kcp
                         | Some buf \<Rightarrow> kcp\<lparr>k_rcv_buf := buf, k_nrcv_buf := k_nrcv_buf kcp + 1\<rparr>)
              in move_rcv_buf (k_rcv_buf kcp) kcp)"

section \<open>Reading a message\<close>

fun peek_loop :: "ikcpseg list \<Rightarrow> int \<Rightarrow> int" where
  "peek_loop [] len = len"
| "peek_loop (seg # q) len =
     (let len = i32 (len + uint (sg_len seg))
      in if sg_frg seg = 0 then len else peek_loop q len)"

definition ikcp_peeksize :: "ikcpcb \<Rightarrow> int" where
  "ikcp_peeksize kcp =
     (case k_rcv_queue kcp of
        [] \<Rightarrow> -1
      | seg # _ \<Rightarrow>
          if sg_frg seg = 0 then sint (sg_len seg)
          else if k_nrcv_que kcp < sg_frg seg + 1 then -1
          else peek_loop (k_rcv_queue kcp) 0)"

text \<open>
  The loop that merges the fragments: the segments still ahead, the length so far, and the
  bytes copied so far. The bytes go to the caller's buffer when it is not null.
\<close>

fun recv_merge :: "bool \<Rightarrow> bool \<Rightarrow> ikcpseg list \<Rightarrow> ikcpcb \<Rightarrow> int \<Rightarrow> byte list
    \<Rightarrow> ikcpcb \<times> int \<times> byte list" where
  "recv_merge ispeek buffer [] kcp len out = (kcp, len, out)"
| "recv_merge ispeek buffer (seg # q) kcp len out =
     (let out = (if buffer then out @ sg_data seg else out);
          len = i32 (len + uint (sg_len seg));
          kcp = (if ispeek then kcp
                 else kcp\<lparr>k_rcv_queue := q, k_nrcv_que := k_nrcv_que kcp - 1\<rparr>)
      in if sg_frg seg = 0 then (kcp, len, out) else recv_merge ispeek buffer q kcp len out)"

definition ikcp_recv :: "ikcpcb \<Rightarrow> bool \<Rightarrow> int \<Rightarrow> kcp_fault + (ikcpcb \<times> int \<times> byte list)" where
  "ikcp_recv kcp buffer len =
     (let ispeek = (len < 0)
      in if k_rcv_queue kcp = [] then Inr (kcp, -1, [])
         else let len = (if len < 0 then i32 (- len) else len);
                  peeksize = ikcp_peeksize kcp
         in if peeksize < 0 then Inr (kcp, -2, [])
         else if peeksize > len then Inr (kcp, -3, [])
         else let recover = (k_nrcv_que kcp \<ge> k_rcv_wnd kcp);
                  (kcp, len, out) = recv_merge ispeek buffer (k_rcv_queue kcp) kcp 0 []
         in if len \<noteq> peeksize then Inl Assertion
         else let kcp = move_rcv_buf (k_rcv_buf kcp) kcp;
                  kcp = (if k_nrcv_que kcp < k_rcv_wnd kcp \<and> recover
                         then kcp\<lparr>k_probe := k_probe kcp OR IKCP_ASK_TELL\<rparr> else kcp)
         in Inr (kcp, len, out))"

section \<open>What the moving loop does\<close>

text \<open>
  The loop takes the longest prefix of the buffer that continues the numbering from
  \<open>rcv_nxt\<close> and still fits the receive window.
\<close>

fun run_length :: "u32 \<Rightarrow> nat \<Rightarrow> ikcpseg list \<Rightarrow> nat" where
  "run_length nxt room [] = 0"
| "run_length nxt room (s # ss) =
     (if sg_sn s = nxt \<and> 0 < room then Suc (run_length (nxt + 1) (room - 1) ss) else 0)"

lemma run_length_le: "run_length nxt room ss \<le> length ss" "run_length nxt room ss \<le> room"
  by (induction nxt room ss rule: run_length.induct) auto

text \<open>The state after \<open>n\<close> segments have moved.\<close>

definition moved :: "nat \<Rightarrow> ikcpcb \<Rightarrow> ikcpcb" where
  "moved n kcp = kcp\<lparr>k_rcv_buf := drop n (k_rcv_buf kcp),
      k_nrcv_buf := k_nrcv_buf kcp - of_nat n,
      k_rcv_queue := k_rcv_queue kcp @ take n (k_rcv_buf kcp),
      k_nrcv_que := k_nrcv_que kcp + of_nat n,
      k_rcv_nxt := k_rcv_nxt kcp + of_nat n\<rparr>"

lemma move_rcv_buf_moved:
  assumes "buf = k_rcv_buf kcp" and "k_nrcv_que kcp = of_nat (length (k_rcv_queue kcp))"
    and "length (k_rcv_queue kcp) < 2 ^ 31" and "unat (k_rcv_wnd kcp) < 2 ^ 31"
  shows "move_rcv_buf buf kcp =
    moved (run_length (k_rcv_nxt kcp) (unat (k_rcv_wnd kcp) - length (k_rcv_queue kcp)) buf) kcp"
  using assms
proof (induction buf kcp rule: move_rcv_buf.induct)
  case (1 kcp)
  then show ?case by (simp add: moved_def)
next
  case (2 seg rest kcp)
  let ?q = "length (k_rcv_queue kcp)"
  have cmp: "k_nrcv_que kcp < k_rcv_wnd kcp \<longleftrightarrow> ?q < unat (k_rcv_wnd kcp)"
    using "2.prems" by (simp add: word_less_nat_alt unat_of_nat take_bit_nat_eq_self)
  show ?case
  proof (cases "sg_sn seg = k_rcv_nxt kcp \<and> ?q < unat (k_rcv_wnd kcp)")
    case True
    define kcp' where "kcp' = kcp\<lparr>k_rcv_buf := rest, k_nrcv_buf := k_nrcv_buf kcp - 1,
      k_rcv_queue := k_rcv_queue kcp @ [seg], k_nrcv_que := k_nrcv_que kcp + 1,
      k_rcv_nxt := k_rcv_nxt kcp + 1\<rparr>"
    let ?n = "run_length (k_rcv_nxt kcp + 1) (unat (k_rcv_wnd kcp) - Suc ?q) rest"
    have "move_rcv_buf rest kcp' = moved ?n kcp'"
      using True "2.prems" cmp "2.IH" by (simp add: kcp'_def)
    also have "\<dots> = moved (Suc ?n) kcp"
      using "2.prems"(1) [symmetric] by (simp add: kcp'_def moved_def add_ac)
    finally show ?thesis
      using True cmp by (simp add: kcp'_def [symmetric])
  next
    case False
    then have "run_length (k_rcv_nxt kcp) (unat (k_rcv_wnd kcp) - ?q) (seg # rest) = 0"
      by auto
    with False cmp show ?thesis
      by (auto simp: moved_def simp del: run_length.simps)
  qed
qed


lemma run_length_sns:
  "i < run_length nxt room ss \<Longrightarrow> sg_sn (ss ! i) = nxt + of_nat i"
proof (induction nxt room ss arbitrary: i rule: run_length.induct)
  case (2 nxt room s ss)
  then show ?case by (cases i) (auto split: if_splits)
qed simp

lemma run_length_stop:
  "n = run_length nxt room ss \<Longrightarrow> n < length ss \<Longrightarrow> n < room \<Longrightarrow> sg_sn (ss ! n) \<noteq> nxt + of_nat n"
proof (induction nxt room ss arbitrary: n rule: run_length.induct)
  case (2 nxt room s ss)
  show ?case
  proof (cases "sg_sn s = nxt \<and> 0 < room")
    case True
    with "2.prems" obtain m where m: "n = Suc m" "m = run_length (nxt + 1) (room - 1) ss" by simp
    with True "2.prems" "2.IH" [of m] show ?thesis by (simp add: add_ac)
  next
    case False
    with "2.prems" show ?thesis by auto
  qed
qed simp

text \<open>The run is the only number with these properties.\<close>

lemma run_length_unique:
  assumes "m \<le> length ss" and "m \<le> room" and "\<forall>i < m. sg_sn (ss ! i) = nxt + of_nat i"
    and "m = length ss \<or> m = room \<or> sg_sn (ss ! m) \<noteq> nxt + of_nat m"
  shows "run_length nxt room ss = m"
proof (rule antisym)
  let ?n = "run_length nxt room ss"
  show "?n \<le> m"
    using assms(4) run_length_le [of nxt room ss] run_length_sns [of m nxt room ss] by (meson linorder_not_less)
  show "m \<le> ?n"
    using assms(1-3) run_length_stop [OF refl, of nxt room ss] by (meson less_le_trans linorder_not_less)
qed

text \<open>
  Afterwards the window has moved past what was delivered and the rest of the buffer still
  lies in order ahead of it.
\<close>

lemma serial_sorted_after_run:
  assumes "serial_sorted nxt b ss" and "n = run_length nxt room ss"
  shows "serial_sorted (nxt + of_nat n) b (drop n ss)"
  using assms
proof (induction nxt room ss arbitrary: n rule: run_length.induct)
  case (2 nxt room s ss)
  show ?case
  proof (cases "sg_sn s = nxt \<and> 0 < room")
    case True
    let ?m = "run_length (nxt + 1) (room - 1) ss"
    from "2.prems"(1) True have ss: "serial_sorted nxt b ss"
      and pos: "\<And>t. t \<in> set ss \<Longrightarrow> 1 \<le> wdist nxt (sg_sn t)"
      by (auto simp: serial_sorted_Cons Suc_le_eq)
    have "serial_sorted (nxt + 1) b ss"
      using serial_sorted_rebase [OF ss pos] by (auto elim: serial_sorted_mono)
    with "2.IH" [OF True _ refl] have "serial_sorted (nxt + 1 + of_nat ?m) b (drop ?m ss)"
      by simp
    with True "2.prems"(2) show ?thesis by (simp add: add_ac)
  next
    case False
    with "2.prems" show ?thesis by auto
  qed
qed simp

lemma rcv_inv_moved:
  assumes "rcv_inv kcp"
  shows "rcv_inv (move_rcv_buf (k_rcv_buf kcp) kcp)"
proof -
  let ?n = "run_length (k_rcv_nxt kcp) (unat (k_rcv_wnd kcp) - length (k_rcv_queue kcp)) (k_rcv_buf kcp)"
  have eq: "move_rcv_buf (k_rcv_buf kcp) kcp = moved ?n kcp"
    using assms by (intro move_rcv_buf_moved) (auto simp: rcv_inv_def)
  have len: "?n \<le> length (k_rcv_buf kcp)" "?n \<le> unat (k_rcv_wnd kcp) - length (k_rcv_queue kcp)"
    by (rule run_length_le)+
  have "serial_sorted (k_rcv_nxt kcp + of_nat ?n) (2 ^ 31) (drop ?n (k_rcv_buf kcp))"
    using assms by (intro serial_sorted_after_run) (auto simp: rcv_inv_def)
  moreover have "length (k_rcv_queue kcp) + ?n < 2 ^ 31"
    using assms len(2) by (auto simp: rcv_inv_def)
  ultimately show ?thesis
    using assms len(1) unfolding eq
    by (auto simp: rcv_inv_def moved_def of_nat_diff dest!: in_set_takeD in_set_dropD)
qed

text \<open>The segment the receiver waits for next is not left in the buffer while the queue has room.\<close>

lemma run_drained:
  assumes "serial_sorted nxt (2 ^ 31) ss" and "n = run_length nxt room ss" and "n < room"
    and "s \<in> set (drop n ss)"
  shows "sg_sn s \<noteq> nxt + of_nat n"
proof
  assume eq: "sg_sn s = nxt + of_nat n"
  have n: "n < length ss" using assms(4) by (cases "n < length ss") simp_all
  then have d: "drop n ss = ss ! n # drop (Suc n) ss" by (simp add: Cons_nth_drop_Suc)
  have first: "sg_sn (ss ! n) \<noteq> nxt + of_nat n" using run_length_stop [OF assms(2) n assms(3)] .
  then have "s \<in> set (drop (Suc n) ss)" using assms(4) eq unfolding d by auto
  moreover have "serial_sorted (nxt + of_nat n) (2 ^ 31) (ss ! n # drop (Suc n) ss)"
    using serial_sorted_after_run [OF assms(1,2)] unfolding d .
  ultimately show False using eq by (auto simp: serial_sorted_Cons)
qed

section \<open>Insertion keeps the buffer sorted\<close>

text \<open>
  On a buffer sorted ahead of \<open>nxt\<close> the insertion finds a duplicate exactly when there is
  one, and otherwise puts the new segment at its place.
\<close>

lemma rcv_insert_rev_spec:
  assumes "serial_sorted nxt (2 ^ 31) (rev before)" and "wdist nxt (sg_sn new) < 2 ^ 31"
  shows "case rcv_insert_rev new before of
      None \<Rightarrow> sg_sn new \<in> sg_sn ` set before
    | Some buf \<Rightarrow> sg_sn new \<notin> sg_sn ` set before \<and> serial_sorted nxt (2 ^ 31) (rev buf) \<and>
        set buf = insert new (set before) \<and> length buf = Suc (length before)"
  using assms
proof (induction new before rule: rcv_insert_rev.induct)
  case (1 new)
  then show ?case by (simp add: serial_sorted_Cons)
next
  case (2 new seg before)
  have bnd: "wdist nxt (sg_sn seg) < 2 ^ 31"
    and before: "serial_sorted nxt (2 ^ 31) (rev before)"
    and last: "\<And>s. s \<in> set before \<Longrightarrow> wdist nxt (sg_sn s) < wdist nxt (sg_sn seg)"
    using "2.prems"(1) by (auto simp: serial_sorted_append serial_sorted_Cons)
  have diff: "itimediff (sg_sn new) (sg_sn seg) > 0 \<longleftrightarrow> wdist nxt (sg_sn seg) < wdist nxt (sg_sn new)"
    using itimediff_wdist [OF "2.prems"(2) bnd] by simp
  consider (dup) "sg_sn seg = sg_sn new"
    | (here) "sg_sn seg \<noteq> sg_sn new" "wdist nxt (sg_sn seg) < wdist nxt (sg_sn new)"
    | (deeper) "sg_sn seg \<noteq> sg_sn new" "\<not> wdist nxt (sg_sn seg) < wdist nxt (sg_sn new)"
    by blast
  then show ?case
  proof cases
    case dup
    then show ?thesis by simp
  next
    case here
    with "2.prems" last show ?thesis
      by (fastforce simp: diff serial_sorted_append serial_sorted_Cons)
  next
    case deeper
    then have lt: "wdist nxt (sg_sn new) < wdist nxt (sg_sn seg)"
      by (metis linorder_neqE_nat wdist_eq_iff)
    with "2.IH" [OF deeper(1) _ before "2.prems"(2)] diff last bnd deeper show ?thesis
      by (fastforce simp: serial_sorted_append serial_sorted_Cons split: option.splits)
  qed
qed

lemma rcv_insert_spec:
  assumes "serial_sorted nxt (2 ^ 31) buf" and "wdist nxt (sg_sn new) < 2 ^ 31"
  shows "rcv_insert new buf = None \<longleftrightarrow> sg_sn new \<in> sg_sn ` set buf"
    and "rcv_insert new buf = Some buf' \<Longrightarrow> serial_sorted nxt (2 ^ 31) buf' \<and>
      set buf' = insert new (set buf) \<and> length buf' = Suc (length buf)"
  using rcv_insert_rev_spec [of nxt "rev buf" new] assms
  by (auto simp: rcv_insert_def split: option.splits)

text \<open>The guard of \<open>ikcp_parse_data\<close>, read as a window.\<close>

lemma in_rcv_window:
  assumes "unat wnd < 2 ^ 31"
  shows "(itimediff sn (nxt + wnd) \<ge> 0 \<or> itimediff sn nxt < 0) \<longleftrightarrow> \<not> wdist nxt sn < unat wnd"
proof (cases "wdist nxt sn < 2 ^ 31")
  case True
  have w: "wdist nxt (nxt + wnd) = unat wnd"
    by (simp add: wdist_def)
  then have "itimediff sn (nxt + wnd) = int (wdist nxt sn) - int (unat wnd)"
    using itimediff_wdist [OF True, of "nxt + wnd"] assms by simp
  then have "itimediff sn (nxt + wnd) \<ge> 0 \<longleftrightarrow> \<not> wdist nxt sn < unat wnd"
    by linarith
  then show ?thesis
    using True by (simp add: itimediff_neg_iff)
next
  case False
  then show ?thesis
    using assms by (auto simp: itimediff_neg_iff)
qed

lemma parse_data_rcv_inv:
  assumes "rcv_inv kcp" and "seg_ok new"
  shows "rcv_inv (ikcp_parse_data kcp new)"
proof (cases "wdist (k_rcv_nxt kcp) (sg_sn new) < unat (k_rcv_wnd kcp)")
  case True
  then have near: "wdist (k_rcv_nxt kcp) (sg_sn new) < 2 ^ 31"
    using assms by (auto simp: rcv_inv_def)
  define kcp1 where "kcp1 = (case rcv_insert new (k_rcv_buf kcp) of
      None \<Rightarrow> kcp | Some buf \<Rightarrow> kcp\<lparr>k_rcv_buf := buf, k_nrcv_buf := k_nrcv_buf kcp + 1\<rparr>)"
  have "rcv_inv kcp1"
    using assms rcv_insert_spec(2) [of "k_rcv_nxt kcp" "k_rcv_buf kcp" new, OF _ near]
    by (auto simp: kcp1_def rcv_inv_def add.commute split: option.splits)
  then have "rcv_inv (move_rcv_buf (k_rcv_buf kcp1) kcp1)"
    by (rule rcv_inv_moved)
  then show ?thesis
    using True assms(1)
    by (simp add: ikcp_parse_data_def Let_def kcp1_def in_rcv_window rcv_inv_def)
next
  case False
  with assms show ?thesis
    by (simp add: ikcp_parse_data_def Let_def in_rcv_window rcv_inv_def)
qed

section \<open>Reading hands out exactly one message\<close>

text \<open>The fragments of the first message: everything up to the first fragment numbered 0.\<close>

fun message :: "ikcpseg list \<Rightarrow> ikcpseg list" where
  "message [] = []"
| "message (s # q) = (if sg_frg s = 0 then [s] else s # message q)"

definition msg_bytes :: "ikcpseg list \<Rightarrow> byte list" where
  "msg_bytes q = concat (map sg_data (message q))"

lemma message_prefix: "message q @ drop (length (message q)) q = q"
  by (induction q) auto

lemma message_length_le: "length (message q) \<le> length q"
  by (induction q) auto

lemma message_take: "message q = take (length (message q)) q"
  by (metis append_eq_conv_conj message_prefix)

lemma recv_merge_eq:
  assumes "q = k_rcv_queue kcp"
  shows "recv_merge ispeek buffer q kcp len out =
    ((if ispeek then kcp
      else kcp\<lparr>k_rcv_queue := drop (length (message q)) q,
               k_nrcv_que := k_nrcv_que kcp - of_nat (length (message q))\<rparr>),
     peek_loop q len, (if buffer then out @ msg_bytes q else out))"
proof -
  have "recv_merge ispeek buffer q kcp len out =
    ((if ispeek then kcp
      else kcp\<lparr>k_rcv_queue := drop (length (message q)) q,
               k_nrcv_que := k_nrcv_que kcp - of_nat (length (message q))\<rparr>),
     peek_loop q len, (if buffer then out @ msg_bytes q else out))"
    if "ispeek \<or> q = k_rcv_queue kcp"
    using that
    by (induction ispeek buffer q kcp len out rule: recv_merge.induct)
      (auto simp: msg_bytes_def Let_def algebra_simps)
  with assms show ?thesis by simp
qed

lemma peek_loop_message:
  assumes "\<forall>s \<in> set q. seg_ok s" and "0 \<le> len" and "len + int (length (msg_bytes q)) < 2 ^ 31"
  shows "peek_loop q len = len + int (length (msg_bytes q))"
  using assms
proof (induction q len rule: peek_loop.induct)
  case (2 seg q len)
  have seg: "uint (sg_len seg) = int (length (sg_data seg))"
    using "2.prems"(1) by (simp add: seg_ok_def uint_nat)
  have "len + uint (sg_len seg) < 2 ^ 31"
    using "2.prems"(3) seg by (auto simp: msg_bytes_def split: if_splits)
  then have "i32 (len + uint (sg_len seg)) = len + int (length (sg_data seg))"
    using "2.prems"(2) seg by simp
  with "2" show ?case
    by (auto simp: msg_bytes_def Let_def)
qed (simp add: msg_bytes_def)

text \<open>The assertion at the end of the merging loop never fails.\<close>

lemma peeksize_peek_loop:
  "ikcp_peeksize kcp \<ge> 0 \<Longrightarrow> k_rcv_queue kcp \<noteq> [] \<Longrightarrow>
     ikcp_peeksize kcp = peek_loop (k_rcv_queue kcp) 0"
  by (auto simp: ikcp_peeksize_def Let_def i32_def split: list.splits if_splits)

text \<open>The state \<open>ikcp_recv\<close> leaves behind, in one equation.\<close>

definition after_recv :: "ikcpcb \<Rightarrow> ikcpcb" where
  "after_recv kcp =
     (let q = k_rcv_queue kcp; n = length (message q);
          kcp1 = kcp\<lparr>k_rcv_queue := drop n q, k_nrcv_que := k_nrcv_que kcp - of_nat n\<rparr>;
          kcp2 = move_rcv_buf (k_rcv_buf kcp1) kcp1
      in if k_nrcv_que kcp2 < k_rcv_wnd kcp2 \<and> k_rcv_wnd kcp \<le> k_nrcv_que kcp
         then kcp2\<lparr>k_probe := k_probe kcp2 OR IKCP_ASK_TELL\<rparr> else kcp2)"

lemma recv_eq:
  assumes "0 \<le> len" and "k_rcv_queue kcp \<noteq> []" and "0 \<le> ikcp_peeksize kcp"
    and "ikcp_peeksize kcp \<le> len"
  shows "ikcp_recv kcp buffer len =
    Inr (after_recv kcp, ikcp_peeksize kcp, if buffer then msg_bytes (k_rcv_queue kcp) else [])"
  using assms peeksize_peek_loop [of kcp]
  by (simp add: ikcp_recv_def after_recv_def recv_merge_eq Let_def)

lemma recv_cases:
  assumes "ikcp_recv kcp buffer len = Inr (kcp', rc, out)" and "0 \<le> len"
  obtains (fail) "rc < 0" "kcp' = kcp" "out = []"
  | (msg) "0 \<le> rc" "rc \<le> len" "rc = ikcp_peeksize kcp" "k_rcv_queue kcp \<noteq> []" "kcp' = after_recv kcp"
      "out = (if buffer then msg_bytes (k_rcv_queue kcp) else [])"
proof (cases "k_rcv_queue kcp = [] \<or> ikcp_peeksize kcp < 0 \<or> ikcp_peeksize kcp > len")
  case True
  with assms show ?thesis
    by (intro fail) (auto simp: ikcp_recv_def Let_def split: if_splits prod.splits)
next
  case False
  with assms recv_eq [of len kcp buffer] show ?thesis
    by (intro msg) auto
qed

lemma rcv_inv_after_recv:
  assumes "rcv_inv kcp"
  shows "rcv_inv (after_recv kcp)"
proof -
  let ?q = "k_rcv_queue kcp" and ?n = "length (message (k_rcv_queue kcp))"
  let ?k = "kcp\<lparr>k_rcv_queue := drop ?n ?q, k_nrcv_que := k_nrcv_que kcp - of_nat ?n\<rparr>"
  have "rcv_inv ?k"
    using assms message_length_le [of ?q]
    by (auto simp: rcv_inv_def of_nat_diff dest: in_set_dropD)
  from rcv_inv_moved [OF this] show ?thesis
    by (simp add: after_recv_def Let_def rcv_inv_def)
qed

section \<open>In-order delivery\<close>

text \<open>What a segment carries for the application: its fragment number and its bytes.\<close>

definition core :: "ikcpseg \<Rightarrow> u32 \<times> byte list" where
  "core s = (sg_frg s, sg_data s)"

text \<open>
  \<open>tracks S n kcp\<close>: the receiver has handed \<open>n\<close> segments of the sender's stream \<open>S\<close> to the
  application; its queue holds the segments that follow, up to the one numbered \<open>rcv_nxt\<close>,
  and every buffered segment is the one of the stream that its number stands for.
\<close>

definition tracks :: "(nat \<Rightarrow> u32 \<times> byte list) \<Rightarrow> nat \<Rightarrow> ikcpcb \<Rightarrow> bool" where
  "tracks S n kcp \<longleftrightarrow>
     (let N = n + length (k_rcv_queue kcp)
      in k_rcv_nxt kcp = of_nat N \<and> map core (k_rcv_queue kcp) = map S [n..<N] \<and>
         (\<forall>s \<in> set (k_rcv_buf kcp). core s = S (N + wdist (k_rcv_nxt kcp) (sg_sn s))))"

lemma serial_sorted_length:
  assumes "serial_sorted nxt b ss"
  shows "length ss \<le> b"
proof -
  have "length ss = card (set (map sg_sn ss))"
    using distinct_card [OF serial_sorted_distinct [OF assms]] by simp
  also have "\<dots> = card (wdist nxt ` sg_sn ` set ss)"
    by (subst card_image) (auto simp: inj_on_def)
  also have "\<dots> \<le> card {..<b}"
    using assms by (intro card_mono) (auto simp: serial_sorted_def)
  finally show ?thesis by simp
qed

lemma run_wdist:
  assumes "serial_sorted nxt (2 ^ 31) ss" and "i < run_length nxt room ss"
  shows "wdist nxt (sg_sn (ss ! i)) = i"
proof -
  have "i < 2 ^ 32"
    using serial_sorted_length [OF assms(1)] assms(2) run_length_le(1) [of nxt room ss] by simp
  then show ?thesis
    using run_length_sns [OF assms(2)] wdist_add [of i nxt] by simp
qed

lemma sorted_run_below:
  assumes "serial_sorted nxt (2 ^ 31) ss" and "n = run_length nxt room ss"
    and "s \<in> set (drop n ss)"
  shows "n \<le> wdist nxt (sg_sn s)"
proof (cases n)
  case (Suc m)
  have m: "m < length ss" "m < run_length nxt room ss"
    using assms(2) Suc run_length_le(1) [of nxt room ss] by auto
  have "ss = take n ss @ drop n ss" by simp
  moreover have "ss ! m \<in> set (take n ss)"
    using m Suc by (auto simp: in_set_conv_nth intro!: exI [of _ m])
  ultimately have "wdist nxt (sg_sn (ss ! m)) < wdist nxt (sg_sn s)"
    using assms(1,3) by (metis serial_sorted_append)
  then show ?thesis
    using run_wdist [OF assms(1) m(2)] Suc by simp
qed simp

lemma tracks_moved:
  assumes "tracks S n kcp" and "rcv_inv kcp"
  shows "tracks S n (move_rcv_buf (k_rcv_buf kcp) kcp)"
proof -
  let ?buf = "k_rcv_buf kcp" and ?nxt = "k_rcv_nxt kcp" and ?q = "k_rcv_queue kcp"
  define m where "m = run_length ?nxt (unat (k_rcv_wnd kcp) - length ?q) ?buf"
  define N where "N = n + length ?q"
  have nxt: "?nxt = of_nat N" and q: "map core ?q = map S [n..<N]"
    and tr: "\<And>s. s \<in> set ?buf \<Longrightarrow> core s = S (N + wdist ?nxt (sg_sn s))"
    using assms(1) by (auto simp: tracks_def Let_def N_def)
  have sorted: "serial_sorted ?nxt (2 ^ 31) ?buf"
    using assms(2) by (simp add: rcv_inv_def)
  have eq: "move_rcv_buf ?buf kcp = moved m kcp"
    using assms(2) unfolding m_def by (intro move_rcv_buf_moved) (auto simp: rcv_inv_def)
  have m: "m \<le> length ?buf" unfolding m_def by (rule run_length_le)
  have "core s = S (N + m + wdist (?nxt + of_nat m) (sg_sn s))" if "s \<in> set (drop m ?buf)" for s
    using tr [OF in_set_dropD [OF that]] sorted_run_below [OF sorted m_def that]
    by (simp add: wdist_rebase add.assoc)
  moreover have "map core (take m ?buf) = map S [N..<N + m]"
    using tr run_wdist [OF sorted] m by (intro nth_equalityI) (auto simp: m_def)
  moreover have "n + length (?q @ take m ?buf) = N + m"
    using m by (simp add: N_def)
  moreover have "map S [n..<N] @ map S [N..<N + m] = map S [n..<N + m]"
    by (metis N_def le_add1 map_append upt_add_eq_append)
  ultimately show ?thesis
    unfolding eq tracks_def Let_def by (simp add: moved_def nxt q)
qed

text \<open>An arriving segment of the stream, at most \<open>2 ^ 31\<close> numbers away from the receiver.\<close>

definition genuine :: "(nat \<Rightarrow> u32 \<times> byte list) \<Rightarrow> nat \<Rightarrow> ikcpseg \<Rightarrow> nat \<Rightarrow> bool" where
  "genuine S N seg i \<longleftrightarrow> seg_ok seg \<and> core seg = S i \<and> sg_sn seg = of_nat i \<and>
     i < N + 2 ^ 31 \<and> N < i + 2 ^ 31"

lemma genuine_index:
  assumes "genuine S N seg i" and "wdist (of_nat N) (sg_sn seg) < 2 ^ 31"
  shows "i = N + wdist (of_nat N) (sg_sn seg)"
proof (cases "N \<le> i")
  case True
  then have "sg_sn seg = of_nat N + of_nat (i - N)"
    using assms(1) by (simp add: genuine_def of_nat_diff)
  moreover have "i - N < 2 ^ 32"
    using assms(1) by (auto simp: genuine_def)
  ultimately show ?thesis
    using True wdist_add [of "i - N" "of_nat N"] by simp
next
  case False
  let ?d = "2 ^ 32 - (N - i)"
  have "of_nat N + of_nat ?d = (of_nat (N + ?d) :: u32)"
    by simp
  also have "N + ?d = i + 2 ^ 32"
    using False assms(1) by (auto simp: genuine_def)
  finally have "sg_sn seg = of_nat N + of_nat ?d"
    using assms(1) by (simp add: genuine_def)
  then have "wdist (of_nat N) (sg_sn seg) = ?d"
    using wdist_add [of ?d "of_nat N"] False by simp
  with assms False show ?thesis by (auto simp: genuine_def)
qed

lemma tracks_parse_data:
  assumes "tracks S n kcp" and "rcv_inv kcp" and "genuine S (n + length (k_rcv_queue kcp)) seg i"
  shows "tracks S n (ikcp_parse_data kcp seg)"
proof (cases "wdist (k_rcv_nxt kcp) (sg_sn seg) < unat (k_rcv_wnd kcp)")
  case True
  then have near: "wdist (k_rcv_nxt kcp) (sg_sn seg) < 2 ^ 31"
    using assms(2) by (auto simp: rcv_inv_def)
  define kcp1 where "kcp1 = (case rcv_insert seg (k_rcv_buf kcp) of
      None \<Rightarrow> kcp | Some buf \<Rightarrow> kcp\<lparr>k_rcv_buf := buf, k_nrcv_buf := k_nrcv_buf kcp + 1\<rparr>)"
  note ins = rcv_insert_spec(2) [of "k_rcv_nxt kcp" "k_rcv_buf kcp" seg, OF _ near]
  have "rcv_inv kcp1"
    using assms(2,3) ins
    by (auto simp: kcp1_def rcv_inv_def genuine_def add.commute split: option.splits)
  moreover have "tracks S n kcp1"
    using assms ins near genuine_index [OF assms(3)]
    by (auto simp: kcp1_def tracks_def rcv_inv_def genuine_def Let_def split: option.splits)
  ultimately have "tracks S n (move_rcv_buf (k_rcv_buf kcp1) kcp1)"
    by (intro tracks_moved)
  then show ?thesis
    using True assms(2)
    by (simp add: ikcp_parse_data_def Let_def kcp1_def in_rcv_window rcv_inv_def)
next
  case False
  with assms show ?thesis
    by (simp add: ikcp_parse_data_def Let_def in_rcv_window rcv_inv_def)
qed

lemma tracks_after_recv:
  assumes "tracks S n kcp" and "rcv_inv kcp"
  shows "tracks S (n + length (message (k_rcv_queue kcp))) (after_recv kcp)"
    and "map core (message (k_rcv_queue kcp)) = map S [n..<n + length (message (k_rcv_queue kcp))]"
proof -
  let ?q = "k_rcv_queue kcp" and ?k = "length (message (k_rcv_queue kcp))"
  let ?kcp = "kcp\<lparr>k_rcv_queue := drop ?k ?q, k_nrcv_que := k_nrcv_que kcp - of_nat ?k\<rparr>"
  have k: "?k \<le> length ?q" by (rule message_length_le)
  have q: "map core ?q = map S [n..<n + length ?q]"
    using assms(1) by (simp add: tracks_def Let_def)
  then have "map core (drop ?k ?q) = map S [n + ?k..<n + length ?q]"
    by (metis drop_map drop_upt)
  then have "tracks S (n + ?k) ?kcp"
    using assms(1) k by (simp add: tracks_def Let_def)
  moreover have "rcv_inv ?kcp"
    using assms(2) k by (auto simp: rcv_inv_def of_nat_diff dest: in_set_dropD)
  ultimately have "tracks S (n + ?k) (move_rcv_buf (k_rcv_buf ?kcp) ?kcp)"
    by (rule tracks_moved)
  then show "tracks S (n + ?k) (after_recv kcp)"
    by (simp add: after_recv_def Let_def tracks_def)
  show "map core (message ?q) = map S [n..<n + ?k]"
    using q k by (metis add_le_cancel_left message_take take_map take_upt)
qed

text \<open>
  Runs of the receiver: a fresh control block, segments of the stream arriving in any
  order, any number of times or not at all, and the application reading between arrivals.
  \<open>B\<close> is everything the application has read, \<open>n\<close> the number of segments it came from.
\<close>

inductive rcv_run :: "(nat \<Rightarrow> u32 \<times> byte list) \<Rightarrow> ikcpcb \<Rightarrow> byte list \<Rightarrow> nat \<Rightarrow> bool"
  for S :: "nat \<Rightarrow> u32 \<times> byte list" where
  start: "ikcp_create alloc conv = Some kcp \<Longrightarrow> rcv_run S kcp [] 0"
| arrive: "rcv_run S kcp B n \<Longrightarrow> genuine S (n + length (k_rcv_queue kcp)) seg i \<Longrightarrow>
     rcv_run S (ikcp_parse_data kcp seg) B n"
| read: "rcv_run S kcp B n \<Longrightarrow> 0 \<le> len \<Longrightarrow> ikcp_recv kcp True len = Inr (kcp', rc, out) \<Longrightarrow>
     rcv_run S kcp' (B @ out) (if rc < 0 then n else n + length (message (k_rcv_queue kcp)))"

lemma rcv_run_tracks:
  "rcv_run S kcp B n \<Longrightarrow>
     rcv_inv kcp \<and> tracks S n kcp \<and> B = concat (map (\<lambda>i. snd (S i)) [0..<n])"
proof (induction rule: rcv_run.induct)
  case (start alloc conv kcp)
  then show ?case
    using create_inv [OF start]
    by (auto simp: kcp_inv_def tracks_def ikcp_create_def split: if_splits)
next
  case (arrive kcp B n seg i)
  then show ?case
    by (auto intro: parse_data_rcv_inv tracks_parse_data simp: genuine_def)
next
  case (read kcp B n len kcp' rc out)
  from read.hyps(3) read.hyps(2) show ?case
  proof (cases rule: recv_cases)
    case fail
    with read show ?thesis by simp
  next
    case msg
    let ?k = "length (message (k_rcv_queue kcp))"
    have "map core (message (k_rcv_queue kcp)) = map S [n..<n + ?k]"
      using read.IH tracks_after_recv(2) by blast
    then have "map snd (map core (message (k_rcv_queue kcp))) = map snd (map S [n..<n + ?k])"
      by (simp only:)
    then have "out = concat (map (\<lambda>i. snd (S i)) [n..<n + ?k])"
      using msg by (simp add: msg_bytes_def core_def comp_def)
    then have "B @ out = concat (map (\<lambda>i. snd (S i)) [0..<n + ?k])"
      using read.IH by (simp flip: concat_append map_append upt_add_eq_append)
    then show ?thesis
      using read.IH msg by (simp add: rcv_inv_after_recv tracks_after_recv(1))
  qed
qed

section \<open>Properties of the receiving side\<close>

text \<open>
  C15. Exactly-once, in-order delivery: however the network delays, reorders, duplicates or
  drops the segments of the sender's stream, at any point of any run what the application has
  read through \<open>ikcp_recv\<close> is the concatenation of the payloads of the first \<open>n\<close> segments of
  the stream, in order and without gaps, and the receive queue holds exactly the segments
  that follow them, up to the one the receiver waits for next; also when the 32-bit sequence
  numbers have wrapped around.
\<close>

theorem delivery_in_order:
  "rcv_run S kcp B n \<Longrightarrow>
     B = concat (map (\<lambda>i. snd (S i)) [0..<n]) \<and>
     map (\<lambda>s. (sg_frg s, sg_data s)) (k_rcv_queue kcp) = map S [n..<n + length (k_rcv_queue kcp)] \<and>
     k_rcv_nxt kcp = of_nat (n + length (k_rcv_queue kcp))"
  using rcv_run_tracks [of S kcp B n] by (simp add: tracks_def Let_def core_def [abs_def])

definition demo_stream :: "nat \<Rightarrow> u32 \<times> byte list" where
  "demo_stream i = (0, [of_nat i, 7])"

definition demo_seg :: "nat \<Rightarrow> ikcpseg" where
  "demo_seg i = \<lparr>sg_conv = 1, sg_cmd = 81, sg_frg = 0, sg_wnd = 0, sg_ts = 0, sg_sn = of_nat i,
     sg_una = 0, sg_len = 2, sg_resendts = 0, sg_rto = 0, sg_fastack = 0, sg_xmit = 0,
     sg_data = [of_nat i, 7]\<rparr>"

definition demo_kcp :: ikcpcb where
  "demo_kcp = the (ikcp_create (\<lambda>_. True) 1)"

definition demo_kcp2 :: ikcpcb where
  "demo_kcp2 = ikcp_parse_data (ikcp_parse_data demo_kcp (demo_seg 1)) (demo_seg 0)"

lemma demo_run2: "rcv_run demo_stream demo_kcp2 [] 0"
proof -
  have 0: "rcv_run demo_stream demo_kcp [] 0"
    by (rule rcv_run.start [where alloc = "\<lambda>_. True" and conv = 1])
      (simp add: demo_kcp_def ikcp_create_def)
  have g: "genuine demo_stream 0 (demo_seg i) i" if "i < 2" for i
    using that by (simp add: genuine_def demo_seg_def demo_stream_def core_def seg_ok_def)
  have q: "k_rcv_queue demo_kcp = []" "k_rcv_queue (ikcp_parse_data demo_kcp (demo_seg 1)) = []"
    by code_simp+
  have 1: "rcv_run demo_stream (ikcp_parse_data demo_kcp (demo_seg 1)) [] 0"
    by (rule rcv_run.arrive [OF 0, where i = 1]) (simp add: q g)
  show ?thesis
    unfolding demo_kcp2_def by (rule rcv_run.arrive [OF 1, where i = 0], subst q(2)) (simp add: g)
qed

text \<open>Segment 1 arrives before segment 0; the application reads segment 0 first.\<close>

theorem delivery_in_order_witness:
  "rcv_run demo_stream (after_recv demo_kcp2) ([] @ [0, 7]) 1 \<and>
   [] @ [0, 7] = concat (map (\<lambda>i. snd (demo_stream i)) [0..<1]) \<and>
   map (\<lambda>s. (sg_frg s, sg_data s)) (k_rcv_queue (after_recv demo_kcp2)) = [demo_stream 1]"
proof -
  have "ikcp_recv demo_kcp2 True 100 = Inr (after_recv demo_kcp2, 2, [0, 7])"
    by code_simp
  from rcv_run.read [OF demo_run2 _ this]
  have "rcv_run demo_stream (after_recv demo_kcp2) ([] @ [0, 7])
      (0 + length (message (k_rcv_queue demo_kcp2)))"
    by simp
  moreover have "0 + length (message (k_rcv_queue demo_kcp2)) = 1"
    by code_simp
  ultimately have "rcv_run demo_stream (after_recv demo_kcp2) ([] @ [0, 7]) 1"
    by simp
  moreover have "length (k_rcv_queue (after_recv demo_kcp2)) = 1" by code_simp
  ultimately show ?thesis
    using delivery_in_order [of demo_stream "after_recv demo_kcp2" "[] @ [0, 7]" 1] by simp
qed

text \<open>What \<open>ikcp_parse_data\<close> does to a segment in the window: insertion, then the moving loop.\<close>

lemma parse_data_moved:
  assumes "rcv_inv kcp" and "seg_ok seg" and "wdist (k_rcv_nxt kcp) (sg_sn seg) < unat (k_rcv_wnd kcp)"
  obtains buf where "serial_sorted (k_rcv_nxt kcp) (2 ^ 31) buf"
    "sg_sn ` set buf = insert (sg_sn seg) (sg_sn ` set (k_rcv_buf kcp))" "set buf \<subseteq> insert seg (set (k_rcv_buf kcp))"
    "\<exists>n. ikcp_parse_data kcp seg =
      moved (run_length (k_rcv_nxt kcp) (unat (k_rcv_wnd kcp) - length (k_rcv_queue kcp)) buf) (kcp\<lparr>k_rcv_buf := buf, k_nrcv_buf := n\<rparr>)"
proof -
  let ?nxt = "k_rcv_nxt kcp"
  have near: "wdist ?nxt (sg_sn seg) < 2 ^ 31" and sorted: "serial_sorted ?nxt (2 ^ 31) (k_rcv_buf kcp)"
    using assms by (auto simp: rcv_inv_def)
  note ins = rcv_insert_spec [of ?nxt "k_rcv_buf kcp" seg, OF sorted near]
  obtain buf n where kcp1: "(case rcv_insert seg (k_rcv_buf kcp) of
      None \<Rightarrow> kcp | Some buf \<Rightarrow> kcp\<lparr>k_rcv_buf := buf, k_nrcv_buf := k_nrcv_buf kcp + 1\<rparr>) = kcp\<lparr>k_rcv_buf := buf, k_nrcv_buf := n\<rparr>"
    and buf: "serial_sorted ?nxt (2 ^ 31) buf" "sg_sn ` set buf = insert (sg_sn seg) (sg_sn ` set (k_rcv_buf kcp))"
    "set buf \<subseteq> insert seg (set (k_rcv_buf kcp))"
  proof (cases "rcv_insert seg (k_rcv_buf kcp)")
    case None
    then show ?thesis using that [where buf = "k_rcv_buf kcp" and n = "k_nrcv_buf kcp"] sorted ins(1) by auto
  next
    case (Some buf)
    then show ?thesis using that [where buf = buf and n = "k_nrcv_buf kcp + 1"] ins(2) [OF Some] by auto
  qed
  have "ikcp_parse_data kcp seg = move_rcv_buf buf (kcp\<lparr>k_rcv_buf := buf, k_nrcv_buf := n\<rparr>)"
    using assms(1,3) kcp1 by (simp add: ikcp_parse_data_def Let_def in_rcv_window rcv_inv_def)
  also have "\<dots> = moved (run_length ?nxt (unat (k_rcv_wnd kcp) - length (k_rcv_queue kcp)) buf) (kcp\<lparr>k_rcv_buf := buf, k_nrcv_buf := n\<rparr>)"
    using assms(1) move_rcv_buf_moved [of buf "kcp\<lparr>k_rcv_buf := buf, k_nrcv_buf := n\<rparr>"] by (simp add: rcv_inv_def)
  finally show ?thesis using that buf by blast
qed

text \<open>
  C29. Progress of the receiver: when the segment it waits for arrives and the receive queue
  has room, \<open>ikcp_parse_data\<close> appends a run of consecutively numbered segments, starting
  with this one, to the receive queue, moves \<open>rcv_nxt\<close> behind them and leaves all other
  buffered segments in the buffer; the run is as long as can be: afterwards the queue is full
  or the segment now waited for is not in the buffer.
\<close>

theorem parse_data_progress:
  assumes "rcv_inv kcp" and "seg_ok seg" and "sg_sn seg = k_rcv_nxt kcp"
    and "k_nrcv_que kcp < k_rcv_wnd kcp" and "kcp' = ikcp_parse_data kcp seg"
  shows "\<exists>more. more \<noteq> [] \<and> (\<forall>i < length more. sg_sn (more ! i) = k_rcv_nxt kcp + of_nat i) \<and>
    k_rcv_queue kcp' = k_rcv_queue kcp @ more \<and> k_rcv_nxt kcp' = k_rcv_nxt kcp + of_nat (length more) \<and>
    set (more @ k_rcv_buf kcp') \<subseteq> insert seg (set (k_rcv_buf kcp)) \<and>
    sg_sn ` set (more @ k_rcv_buf kcp') = insert (sg_sn seg) (sg_sn ` set (k_rcv_buf kcp)) \<and>
    (length (k_rcv_queue kcp') = unat (k_rcv_wnd kcp) \<or> (\<forall>s \<in> set (k_rcv_buf kcp'). sg_sn s \<noteq> k_rcv_nxt kcp'))"
proof -
  let ?nxt = "k_rcv_nxt kcp"
  define room where "room = unat (k_rcv_wnd kcp) - length (k_rcv_queue kcp)"
  have room: "0 < room" "length (k_rcv_queue kcp) + room = unat (k_rcv_wnd kcp)"
    using assms(1,4) by (simp_all add: rcv_inv_def word_less_nat_alt room_def)
  then have w: "wdist ?nxt (sg_sn seg) < unat (k_rcv_wnd kcp)" by (simp add: assms(3))
  obtain buf where buf: "serial_sorted ?nxt (2 ^ 31) buf"
      "sg_sn ` set buf = insert (sg_sn seg) (sg_sn ` set (k_rcv_buf kcp))" "set buf \<subseteq> insert seg (set (k_rcv_buf kcp))"
    and "\<exists>k. kcp' = moved (run_length ?nxt room buf) (kcp\<lparr>k_rcv_buf := buf, k_nrcv_buf := k\<rparr>)"
    using parse_data_moved [OF assms(1,2) w] assms(5) unfolding room_def by metis
  then obtain k where kcp': "kcp' = moved (run_length ?nxt room buf) (kcp\<lparr>k_rcv_buf := buf, k_nrcv_buf := k\<rparr>)" by blast
  define n where "n = run_length ?nxt room buf"
  have "?nxt \<in> sg_sn ` set buf" using buf(2) assms(3) by simp
  then have "run_length ?nxt room buf \<noteq> 0"
    using buf(1) room(1) by (cases buf) (auto simp: serial_sorted_Cons)
  then have n: "0 < n" "n \<le> length buf" "n \<le> room" using run_length_le n_def by auto
  have set: "set (take n buf @ drop n buf) = set buf" by simp
  have "length (k_rcv_queue kcp') = unat (k_rcv_wnd kcp) \<or> (\<forall>s \<in> set (k_rcv_buf kcp'). sg_sn s \<noteq> k_rcv_nxt kcp')"
  proof (cases "n = room")
    case False
    with n(3) run_drained [OF buf(1) n_def] show ?thesis unfolding kcp' n_def [symmetric] by (simp add: moved_def)
  qed (use n(2) room(2) in \<open>simp add: kcp' moved_def flip: n_def\<close>)
  moreover have "\<forall>i < length (take n buf). sg_sn (take n buf ! i) = ?nxt + of_nat i"
    using run_length_sns [of _ ?nxt room buf] by (simp add: n_def)
  ultimately show ?thesis
    using n(1,2) buf(2,3) set unfolding kcp' n_def [symmetric]
    by (intro exI [of _ "take n buf"]) (auto simp: moved_def simp del: set_append)
qed

text \<open>Segment 1 is in the buffer when segment 0 arrives: both move.\<close>

theorem parse_data_progress_witness:
  "\<exists>more. more \<noteq> [] \<and> (\<forall>i < length more. sg_sn (more ! i) = of_nat i) \<and>
    k_rcv_queue demo_kcp2 = more \<and> k_rcv_nxt demo_kcp2 = 2 \<and>
    sg_sn ` set (more @ k_rcv_buf demo_kcp2) = {0, 1} \<and> (\<forall>s \<in> set (k_rcv_buf demo_kcp2). sg_sn s \<noteq> 2)"
proof -
  let ?k = "ikcp_parse_data demo_kcp (demo_seg 1)"
  have "rcv_inv demo_kcp"
    using create_inv [of "\<lambda>_. True" 1 demo_kcp] by (simp add: demo_kcp_def ikcp_create_def kcp_inv_def)
  moreover have ok: "seg_ok (demo_seg 1)" "seg_ok (demo_seg 0)" by code_simp+
  ultimately have "rcv_inv ?k" by (intro parse_data_rcv_inv)
  moreover have k: "sg_sn (demo_seg 0) = k_rcv_nxt ?k" "k_nrcv_que ?k < k_rcv_wnd ?k" "k_rcv_nxt ?k = 0" "k_rcv_queue ?k = []"
    "k_rcv_buf ?k = [demo_seg 1]" "k_rcv_nxt demo_kcp2 = 2" "length (k_rcv_queue demo_kcp2) \<noteq> unat (k_rcv_wnd ?k)"
    by code_simp+
  moreover have "sg_sn (demo_seg 0) = 0" "sg_sn (demo_seg 1) = 1" by (simp_all add: demo_seg_def)
  ultimately show ?thesis
    using parse_data_progress [of ?k "demo_seg 0" demo_kcp2] ok(2) by (auto simp: demo_kcp2_def)
qed

section \<open>Reading, in full\<close>

lemma recv_result:
  assumes "k_rcv_queue kcp \<noteq> []" and "0 \<le> ikcp_peeksize kcp" and "ikcp_peeksize kcp \<le> (if len < 0 then i32 (- len) else len)"
    and "k = (if len < 0 then 0 else length (message (k_rcv_queue kcp)))"
    and "kcp1 = kcp\<lparr>k_rcv_queue := drop k (k_rcv_queue kcp), k_nrcv_que := k_nrcv_que kcp - of_nat k\<rparr>"
    and "kcp2 = move_rcv_buf (k_rcv_buf kcp1) kcp1"
  shows "ikcp_recv kcp buffer len =
    Inr (if k_nrcv_que kcp2 < k_rcv_wnd kcp2 \<and> k_rcv_wnd kcp \<le> k_nrcv_que kcp
         then kcp2\<lparr>k_probe := k_probe kcp2 OR IKCP_ASK_TELL\<rparr> else kcp2,
      ikcp_peeksize kcp, if buffer then msg_bytes (k_rcv_queue kcp) else [])"
proof -
  have "recv_merge (len < 0) buffer (k_rcv_queue kcp) kcp 0 [] =
      (kcp1, ikcp_peeksize kcp, if buffer then msg_bytes (k_rcv_queue kcp) else [])"
    using assms(1,2,4,5) peeksize_peek_loop [of kcp] by (simp add: recv_merge_eq)
  then show ?thesis
    using assms(1-3,6) by (simp add: ikcp_recv_def Let_def)
qed

lemma move_after_read:
  assumes "rcv_inv kcp" and "k \<le> length (k_rcv_queue kcp)" and "q' = drop k (k_rcv_queue kcp)"
    and "m = run_length (k_rcv_nxt kcp) (unat (k_rcv_wnd kcp) - length q') (k_rcv_buf kcp)"
    and "kcp1 = kcp\<lparr>k_rcv_queue := q', k_nrcv_que := k_nrcv_que kcp - of_nat k\<rparr>"
  shows "move_rcv_buf (k_rcv_buf kcp1) kcp1 =
    kcp\<lparr>k_rcv_queue := q' @ take m (k_rcv_buf kcp), k_nrcv_que := of_nat (length q' + m),
        k_rcv_buf := drop m (k_rcv_buf kcp), k_nrcv_buf := of_nat (length (k_rcv_buf kcp) - m),
        k_rcv_nxt := k_rcv_nxt kcp + of_nat m\<rparr>" and "length q' + m < 2 ^ 31"
proof -
  have "m \<le> unat (k_rcv_wnd kcp) - length q'" "m \<le> length (k_rcv_buf kcp)" using run_length_le assms(4) by blast+
  with assms(1,3) show "length q' + m < 2 ^ 31" by (auto simp: rcv_inv_def)
  have c: "k_nrcv_que kcp1 = of_nat (length q')" using assms(1-3,5) by (simp add: rcv_inv_def of_nat_diff)
  then have "move_rcv_buf (k_rcv_buf kcp1) kcp1 = moved m kcp1"
    using assms(1,3-5) by (subst move_rcv_buf_moved) (auto simp: rcv_inv_def)
  then show "move_rcv_buf (k_rcv_buf kcp1) kcp1 =
    kcp\<lparr>k_rcv_queue := q' @ take m (k_rcv_buf kcp), k_nrcv_que := of_nat (length q' + m),
        k_rcv_buf := drop m (k_rcv_buf kcp), k_nrcv_buf := of_nat (length (k_rcv_buf kcp) - m),
        k_rcv_nxt := k_rcv_nxt kcp + of_nat m\<rparr>"
    using c assms(1,5) \<open>m \<le> length (k_rcv_buf kcp)\<close> by (simp add: moved_def rcv_inv_def of_nat_diff)
qed

text \<open>The size \<open>ikcp_recv\<close> goes by.\<close>

lemma peeksize_message:
  assumes "rcv_inv kcp" and "k_rcv_queue kcp \<noteq> []" and "length (msg_bytes (k_rcv_queue kcp)) < 2 ^ 31"
    and "seg = hd (k_rcv_queue kcp)" and "sg_frg seg < 256"
  shows "ikcp_peeksize kcp = (if sg_frg seg \<noteq> 0 \<and> length (k_rcv_queue kcp) < unat (sg_frg seg) + 1 then -1
      else int (length (msg_bytes (k_rcv_queue kcp))))"
proof -
  have "unat (sg_frg seg) < 256" using assms(5) by (simp add: word_less_nat_alt)
  then have "unat (sg_frg seg + 1) = unat (sg_frg seg) + 1" by (simp add: unat_word_ariths)
  then have "k_nrcv_que kcp < sg_frg seg + 1 \<longleftrightarrow> length (k_rcv_queue kcp) < unat (sg_frg seg) + 1"
    using assms(1) by (simp add: rcv_inv_def word_less_nat_alt)
  moreover have "peek_loop (k_rcv_queue kcp) 0 = int (length (msg_bytes (k_rcv_queue kcp)))"
    using assms(1,3) by (subst peek_loop_message) (auto simp: rcv_inv_def)
  ultimately show ?thesis using assms(2,4) by (cases "k_rcv_queue kcp") (auto simp: ikcp_peeksize_def Let_def i32_def)
qed

text \<open>
  C31. \<open>ikcp_recv\<close> on every branch, for a buffer or a null pointer and any length; a negative
  length peeks, with its absolute value as the size of the buffer. Without data it returns -1,
  for a message whose fragments have not all arrived -2, for a message longer than the
  caller's buffer -3, all three without touching the control block. Otherwise it returns the
  length of the first message, having copied exactly its bytes if there is a buffer. The
  fragments of the message leave the queue unless this is a peek; then, in either case, the
  consecutive segments at the front of the receive buffer that fit the window move to the
  queue, and the peer is to be told the window when the queue was full and is not any more.
  Nothing else changes. The assertion in the function never fails.
\<close>

theorem recv_functional:
  assumes "rcv_inv kcp" and "- (2 ^ 31) < len" and "len < 2 ^ 31"
    and "q = k_rcv_queue kcp" and "length (msg_bytes q) < 2 ^ 31" and "\<forall>s \<in> set q. sg_frg s < 256"
    and "q' = (if len < 0 then q else drop (length (message q)) q)" and "room = unat (k_rcv_wnd kcp) - length q'"
    and "m \<le> length (k_rcv_buf kcp)" and "m \<le> room" and "\<forall>i < m. sg_sn (k_rcv_buf kcp ! i) = k_rcv_nxt kcp + of_nat i"
    and "m = length (k_rcv_buf kcp) \<or> m = room \<or> sg_sn (k_rcv_buf kcp ! m) \<noteq> k_rcv_nxt kcp + of_nat m"
  shows "ikcp_recv kcp buffer len =
    (if q = [] then Inr (kcp, -1, [])
     else if sg_frg (hd q) \<noteq> 0 \<and> length q < unat (sg_frg (hd q)) + 1 then Inr (kcp, -2, [])
     else if int (length (msg_bytes q)) > abs len then Inr (kcp, -3, [])
     else Inr (kcp\<lparr>k_rcv_queue := q' @ take m (k_rcv_buf kcp), k_nrcv_que := of_nat (length q' + m),
                   k_rcv_buf := drop m (k_rcv_buf kcp), k_nrcv_buf := of_nat (length (k_rcv_buf kcp) - m),
                   k_rcv_nxt := k_rcv_nxt kcp + of_nat m,
                   k_probe := (if unat (k_rcv_wnd kcp) \<le> length q \<and> length q' + m < unat (k_rcv_wnd kcp)
                               then k_probe kcp OR IKCP_ASK_TELL else k_probe kcp)\<rparr>,
               int (length (msg_bytes q)), if buffer then msg_bytes q else []))"
proof (cases "q = []")
  case True
  with assms(4) show ?thesis by (simp add: ikcp_recv_def)
next
  case False
  note ne = False [unfolded assms(4)]
  have peek: "ikcp_peeksize kcp = (if sg_frg (hd q) \<noteq> 0 \<and> length q < unat (sg_frg (hd q)) + 1 then -1 else int (length (msg_bytes q)))"
    using peeksize_message [OF assms(1) ne _ refl] assms(4-6) False by simp
  have cap: "(if len < 0 then i32 (- len) else len) = abs len" using assms(2,3) by simp
  consider (missing) "ikcp_peeksize kcp < 0" | (long) "0 \<le> ikcp_peeksize kcp" "abs len < ikcp_peeksize kcp"
    | (ok) "0 \<le> ikcp_peeksize kcp" "ikcp_peeksize kcp \<le> abs len"
    by linarith
  then show ?thesis
  proof cases
    case missing
    moreover from this peek have "sg_frg (hd q) \<noteq> 0 \<and> length q < unat (sg_frg (hd q)) + 1" by (auto split: if_splits)
    ultimately show ?thesis using ne False by (simp add: ikcp_recv_def)
  next
    case long
    moreover from this peek have "ikcp_peeksize kcp = int (length (msg_bytes q))" "\<not> (sg_frg (hd q) \<noteq> 0 \<and> length q < unat (sg_frg (hd q)) + 1)"
      by (auto split: if_splits)
    ultimately show ?thesis using ne False cap by (simp add: ikcp_recv_def)
  next
    case ok
    define k where "k = (if len < 0 then 0 else length (message (k_rcv_queue kcp)))"
    have q': "q' = drop k (k_rcv_queue kcp)" "k \<le> length (k_rcv_queue kcp)"
      using assms(4,7) message_length_le by (auto simp: k_def)
    have m: "m = run_length (k_rcv_nxt kcp) (unat (k_rcv_wnd kcp) - length q') (k_rcv_buf kcp)"
      using run_length_unique [of m "k_rcv_buf kcp" room "k_rcv_nxt kcp"] assms(8-12) by simp
    note mv = move_after_read [OF assms(1) q'(2,1) m refl]
    have "ikcp_peeksize kcp = int (length (msg_bytes q))" using ok(1) peek by (auto split: if_splits)
    moreover have "\<not> (sg_frg (hd q) \<noteq> 0 \<and> length q < unat (sg_frg (hd q)) + 1)" using ok(1) peek by (auto split: if_splits)
    moreover have "of_nat (length q' + m) < k_rcv_wnd kcp \<longleftrightarrow> length q' + m < unat (k_rcv_wnd kcp)"
      using mv(2) by (simp add: word_less_nat_alt unat_of_nat take_bit_nat_eq_self flip: of_nat_add)
    moreover have "k_rcv_wnd kcp \<le> k_nrcv_que kcp \<longleftrightarrow> unat (k_rcv_wnd kcp) \<le> length q"
      using assms(1,4) by (simp add: rcv_inv_def word_le_nat_alt)
    ultimately show ?thesis
      using recv_result [OF ne ok(1) _ k_def refl refl, of buffer] mv(1) ok(2) assms(4) False cap
      by (simp add: q'(1) [symmetric])
  qed
qed

text \<open>A peek and then a read into a buffer, with two messages in the queue.\<close>

theorem recv_functional_witness:
  "(\<exists>kcp'. ikcp_recv demo_kcp2 False (-2) = Inr (kcp', 2, []) \<and> k_rcv_queue kcp' = k_rcv_queue demo_kcp2) \<and>
   (\<exists>kcp'. ikcp_recv demo_kcp2 True 100 = Inr (kcp', 2, [0, 7]) \<and> k_rcv_queue kcp' = [demo_seg 1])"
proof -
  have "rcv_inv demo_kcp2"
    using rcv_run_tracks [OF demo_run2] by blast
  moreover have q: "k_rcv_queue demo_kcp2 = [demo_seg 0, demo_seg 1]" "k_rcv_buf demo_kcp2 = []"
    by code_simp+
  moreover have m: "msg_bytes [demo_seg 0, demo_seg 1] = [0, 7]" "message [demo_seg 0, demo_seg 1] = [demo_seg 0]"
    by code_simp+
  moreover have "\<forall>s \<in> set [demo_seg 0, demo_seg 1]. sg_frg s < 256" "sg_frg (demo_seg 0) = 0" by (simp_all add: demo_seg_def)
  ultimately show ?thesis
    using recv_functional [of demo_kcp2 "-2" "[demo_seg 0, demo_seg 1]" "[demo_seg 0, demo_seg 1]" _ 0 False]
      recv_functional [of demo_kcp2 100 "[demo_seg 0, demo_seg 1]" "[demo_seg 1]" _ 0 True]
    by simp
qed

end
