(* ===== verification/Kcp_Send.thy ===== *)
theory Kcp_Send
  imports Kcp_Recv
begin

text \<open>
  The application side of sending in \<open>src/kcp_learn/ikcp.c\<close>: \<open>ikcp_send\<close> cuts a message
  into numbered fragments (message mode) or fills up the last queued segment first (stream
  mode). The fragments are exactly what \<open>ikcp_recv\<close> of the peer puts together again.
\<close>

section \<open>Definitions\<close>

text \<open>
  A segment as \<open>ikcp_send\<close> leaves it: length, fragment number and data are set; the other
  fields are uninitialised memory in C, zero here, and are all written by \<open>ikcp_flush\<close>
  before they are read.
\<close>

definition seg_new :: "byte list \<Rightarrow> u32 \<Rightarrow> u32 \<Rightarrow> ikcpseg" where
  "seg_new data len frg =
     \<lparr>sg_conv = 0, sg_cmd = 0, sg_frg = frg, sg_wnd = 0, sg_ts = 0, sg_sn = 0, sg_una = 0,
      sg_len = len, sg_resendts = 0, sg_rto = 0, sg_fastack = 0, sg_xmit = 0, sg_data = data\<rparr>"

text \<open>Stream mode: the last queued segment is replaced by one with more data in it.\<close>

definition send_extend :: "(nat \<Rightarrow> bool) \<Rightarrow> ikcpcb \<Rightarrow> byte list \<Rightarrow> int
    \<Rightarrow> kcp_fault + (ikcpcb \<times> byte list \<times> int)" where
  "send_extend alloc kcp buffer len =
     (if k_snd_queue kcp = [] then Inr (kcp, buffer, len)
      else let old = last (k_snd_queue kcp)
           in if sg_len old < k_mss kcp
              then let capacity = sint (k_mss kcp - sg_len old);
                       extend = (if len < capacity then len else capacity)
                   in if \<not> alloc (SIZEOF_IKCPSEG + nat (uint (sg_len old) + extend)) then Inl Assertion
                      else let seg = seg_new (sg_data old @ take (nat extend) buffer)
                                       (sg_len old + word_of_int extend) 0
                           in Inr (kcp\<lparr>k_snd_queue := butlast (k_snd_queue kcp) @ [seg]\<rparr>,
                                   drop (nat extend) buffer, len - extend)
              else Inr (kcp, buffer, len))"

text \<open>The fragment loop; \<open>rest\<close> is \<open>count - i\<close>, the fragments still to be made.\<close>

fun send_loop :: "(nat \<Rightarrow> bool) \<Rightarrow> nat \<Rightarrow> ikcpcb \<Rightarrow> byte list \<Rightarrow> int \<Rightarrow> kcp_fault + ikcpcb" where
  "send_loop alloc 0 kcp buffer len = Inr kcp"
| "send_loop alloc (Suc rest) kcp buffer len =
     (let size = (if len > sint (k_mss kcp) then sint (k_mss kcp) else len)
      in if \<not> alloc (SIZEOF_IKCPSEG + nat size) then Inl Assertion
         else let seg = seg_new (if len > 0 then take (nat size) buffer else [])
                          (word_of_int size) (if k_stream kcp = 0 then of_nat rest else 0)
              in send_loop alloc rest
                   (kcp\<lparr>k_snd_queue := k_snd_queue kcp @ [seg], k_nsnd_que := k_nsnd_que kcp + 1\<rparr>)
                   (drop (nat size) buffer) (len - size))"

text \<open>What follows the stream part: counting the fragments and queueing them.\<close>

definition send_rest :: "(nat \<Rightarrow> bool) \<Rightarrow> ikcpcb \<Rightarrow> byte list \<Rightarrow> int
    \<Rightarrow> kcp_fault + (ikcpcb \<times> int)" where
  "send_rest alloc kcp buffer len =
     (let count = (if len \<le> sint (k_mss kcp) then 1
                   else sint ((word_of_int len + k_mss kcp - 1) div k_mss kcp))
      in if count \<ge> sint IKCP_WND_RCV then Inr (kcp, -2)
         else let count = (if count = 0 then 1 else count)
              in case send_loop alloc (nat count) kcp buffer len of
                   Inl f \<Rightarrow> Inl f
                 | Inr kcp \<Rightarrow> Inr (kcp, 0))"

definition ikcp_send :: "(nat \<Rightarrow> bool) \<Rightarrow> ikcpcb \<Rightarrow> byte list \<Rightarrow> int
    \<Rightarrow> kcp_fault + (ikcpcb \<times> int)" where
  "ikcp_send alloc kcp buffer len =
     (if \<not> k_mss kcp > 0 then Inl Assertion
      else if len < 0 then Inr (kcp, -1)
      else if k_stream kcp \<noteq> 0
      then case send_extend alloc kcp buffer len of
             Inl f \<Rightarrow> Inl f
           | Inr (kcp, buffer, len) \<Rightarrow>
               if len \<le> 0 then Inr (kcp, 0) else send_rest alloc kcp buffer len
      else send_rest alloc kcp buffer len)"

section \<open>Fragments\<close>

text \<open>What the loop makes of a message of \<open>b\<close> bytes: \<open>n\<close> pieces, numbered downwards.\<close>

fun frags :: "nat \<Rightarrow> nat \<Rightarrow> bool \<Rightarrow> byte list \<Rightarrow> ikcpseg list" where
  "frags mss 0 stream b = []"
| "frags mss (Suc r) stream b =
     seg_new (take mss b) (of_nat (length (take mss b))) (if stream then 0 else of_nat r)
       # frags mss r stream (drop mss b)"

lemma length_frags [simp]: "length (frags mss n st b) = n"
  by (induction mss n st b rule: frags.induct) auto

lemma frags_data: "length b \<le> n * mss \<Longrightarrow> concat (map sg_data (frags mss n st b)) = b"
  by (induction mss n st b rule: frags.induct) (auto simp: seg_new_def)

lemma frags_ok:
  "mss < 2 ^ 32 \<Longrightarrow> s \<in> set (frags mss n st b) \<Longrightarrow>
     seg_ok s \<and> length (sg_data s) \<le> mss"
proof (induction mss n st b rule: frags.induct)
  case (2 mss r st b)
  have "length (take mss b) < 2 ^ 32" using "2.prems"(1) by simp
  then have "unat (of_nat (length (take mss b)) :: u32) = length (take mss b)"
    by (rule unat_of_nat32)
  with "2" show ?case by (auto simp: seg_new_def seg_ok_def)
qed simp

text \<open>In message mode the fragments form exactly one message for the reader.\<close>

lemma message_frags:
  "0 < n \<Longrightarrow> n < 2 ^ 32 \<Longrightarrow> message (frags mss n False b @ q) = frags mss n False b"
proof (induction mss n False b rule: frags.induct)
  case (2 mss r b)
  show ?case
  proof (cases r)
    case 0
    then show ?thesis by (simp add: seg_new_def)
  next
    case (Suc r')
    have "unat (of_nat r :: u32) = r" using "2.prems"(2) by (intro unat_of_nat32) simp
    then have "(of_nat r :: u32) \<noteq> 0" using Suc by (metis unat_0 nat.distinct(1))
    with "2" Suc show ?thesis by (simp add: seg_new_def)
  qed
qed simp

lemma send_loop_frags:
  assumes "\<forall>n. alloc n" and "0 \<le> len" and "len = int (length b)"
    and "unat (k_mss kcp) < 2 ^ 31" and "0 < k_mss kcp"
  shows "send_loop alloc n kcp b len =
    Inr (kcp\<lparr>k_snd_queue := k_snd_queue kcp @ frags (unat (k_mss kcp)) n (k_stream kcp \<noteq> 0) b,
             k_nsnd_que := k_nsnd_que kcp + of_nat n\<rparr>)"
  using assms
proof (induction n arbitrary: kcp b len)
  case (Suc r)
  note prems = Suc.prems
  define m where "m = unat (k_mss kcp)"
  have mss: "sint (k_mss kcp) = int m"
    using sint_wdist [of 0 "k_mss kcp"] prems(4) by (simp add: wdist_def m_def)
  define size where "size = (if len > sint (k_mss kcp) then sint (k_mss kcp) else len)"
  have size: "size = int (length (take m b))"
    using prems(3) mss by (simp add: size_def)
  then have piece: "take (nat size) b = take m b" "drop (nat size) b = drop m b"
    by (auto simp: min_def)
  have rest: "len - size = int (length (drop m b))"
    using size prems(3) by (simp add: min_def)
  have word: "(word_of_int size :: u32) = of_nat (length (take m b))"
    by (simp add: size)
  have nil: "(if 0 < len then take m b else []) = take m b"
    using prems(3) by auto
  define seg where "seg = seg_new (take m b) (of_nat (length (take m b)))
    (if k_stream kcp = 0 then of_nat r else 0)"
  define kcp1 where "kcp1 = kcp\<lparr>k_snd_queue := k_snd_queue kcp @ [seg], k_nsnd_que := k_nsnd_que kcp + 1\<rparr>"
  have "send_loop alloc (Suc r) kcp b len = send_loop alloc r kcp1 (drop m b) (len - size)"
    using prems(1)
    unfolding send_loop.simps Let_def size_def [symmetric] word nil piece kcp1_def seg_def by simp
  also have "\<dots> = Inr (kcp1\<lparr>k_snd_queue := k_snd_queue kcp1 @
        frags (unat (k_mss kcp1)) r (k_stream kcp1 \<noteq> 0) (drop m b),
      k_nsnd_que := k_nsnd_que kcp1 + of_nat r\<rparr>)"
    using prems rest by (intro Suc.IH) (auto simp: kcp1_def)
  finally show ?case
    by (simp add: kcp1_def seg_def m_def add_ac)
qed simp

section \<open>Sending a message\<close>

text \<open>The number of fragments, as a natural number.\<close>

definition frag_count :: "nat \<Rightarrow> nat \<Rightarrow> nat" where
  "frag_count mss len = (if len \<le> mss then 1 else (len + mss - 1) div mss)"

lemma frag_count_enough: "0 < mss \<Longrightarrow> len \<le> frag_count mss len * mss"
proof -
  assume "0 < mss"
  have "len \<le> (len + mss - 1) div mss * mss"
  proof -
    have "(len + mss - 1) mod mss < mss" using \<open>0 < mss\<close> by simp
    then have "len + mss - 1 < (len + mss - 1) div mss * mss + mss"
      using div_mult_mod_eq [of "len + mss - 1" mss] by linarith
    then show ?thesis by linarith
  qed
  then show ?thesis by (simp add: frag_count_def)
qed

lemma frag_count_pos: "0 < mss \<Longrightarrow> 0 < frag_count mss len"
  by (auto simp: frag_count_def div_greater_zero_iff)

lemma ceil_div_le: "0 < m \<Longrightarrow> (len + m - 1) div m \<le> (len :: nat)"
proof -
  assume m: "0 < m"
  then have "len + m - 1 < Suc len * m"
    by (cases m) auto
  then have "(len + m - 1) div m < Suc len"
    by (rule less_mult_imp_div_less)
  then show ?thesis by simp
qed

lemma word_frag_count:
  assumes "0 < m" and "m < 2 ^ 30" and "len < 2 ^ 31"
  shows "sint ((word_of_int (int len) + of_nat m - 1 :: u32) div of_nat m) =
    int ((len + m - 1) div m)"
proof -
  define x where "x = len + m - 1"
  have x: "x < 2 ^ 32" and q: "x div m < 2 ^ 31"
    using assms ceil_div_le [OF assms(1), of len] by (auto simp: x_def)
  have "word_of_int (int len) + of_nat m - 1 = (of_nat x :: u32)"
    using assms(1) by (simp add: x_def of_nat_diff)
  moreover have "unat ((of_nat x :: u32) div of_nat m) = x div m"
    using assms x by (simp add: unat_div_distrib)
  ultimately have "unat ((word_of_int (int len) + of_nat m - 1 :: u32) div of_nat m) = x div m"
    by simp
  then show ?thesis
    using sint_wdist [of 0 "(word_of_int (int len) + of_nat m - 1 :: u32) div of_nat m"] q
    by (simp add: wdist_def x_def flip: int_ops)
qed

lemma send_message_eq:
  assumes "cfg_inv kcp" and "\<forall>n. alloc n" and "k_stream kcp = 0" and "length b < 2 ^ 31"
  defines "m \<equiv> unat (k_mss kcp)"
  shows "ikcp_send alloc kcp b (int (length b)) =
    (if frag_count m (length b) \<ge> 128 then Inr (kcp, -2)
     else Inr (kcp\<lparr>k_snd_queue := k_snd_queue kcp @ frags m (frag_count m (length b)) False b,
                   k_nsnd_que := k_nsnd_que kcp + of_nat (frag_count m (length b))\<rparr>, 0))"
proof -
  have "k_mss kcp = k_mtu kcp - 24" "50 \<le> unat (k_mtu kcp)" "unat (k_mtu kcp) < 2 ^ 30"
    using assms(1) by (auto simp: cfg_inv_def kcp_defs)
  then have "m = unat (k_mtu kcp) - 24"
    by (simp add: m_def unat_sub word_le_nat_alt)
  with \<open>50 \<le> unat (k_mtu kcp)\<close> \<open>unat (k_mtu kcp) < 2 ^ 30\<close> have m: "0 < m" "m < 2 ^ 30"
    by auto
  have mss: "k_mss kcp = of_nat m" "sint (k_mss kcp) = int m" "0 < k_mss kcp"
    using m sint_wdist [of 0 "k_mss kcp"]
    by (simp_all add: m_def wdist_def word_less_nat_alt)
  have count: "(if int (length b) \<le> sint (k_mss kcp) then 1
      else sint ((word_of_int (int (length b)) + k_mss kcp - 1) div k_mss kcp)) =
      int (frag_count m (length b))"
    using word_frag_count [OF m assms(4)] by (simp add: mss(2) frag_count_def) (simp add: mss(1))
  have loop: "send_loop alloc n kcp b (int (length b)) =
      Inr (kcp\<lparr>k_snd_queue := k_snd_queue kcp @ frags m n False b,
               k_nsnd_que := k_nsnd_que kcp + of_nat n\<rparr>)" for n
    using send_loop_frags [OF assms(2), of "int (length b)" b kcp n] m mss(3) assms(3)
    by (simp add: m_def)
  show ?thesis
    using mss(3) assms(3) frag_count_pos [OF m(1), of "length b"]
    unfolding ikcp_send_def send_rest_def Let_def
    by (simp add: count loop kcp_defs)
qed

lemma mss_bounds:
  assumes "cfg_inv kcp"
  shows "unat (k_mss kcp) = unat (k_mtu kcp) - 24" "26 \<le> unat (k_mss kcp)"
    "unat (k_mss kcp) < 2 ^ 30" "0 < k_mss kcp" "sint (k_mss kcp) = int (unat (k_mss kcp))"
proof -
  have "k_mss kcp = k_mtu kcp - 24" and mtu: "50 \<le> unat (k_mtu kcp)" "unat (k_mtu kcp) < 2 ^ 30"
    using assms by (auto simp: cfg_inv_def kcp_defs)
  then show eq: "unat (k_mss kcp) = unat (k_mtu kcp) - 24"
    by (simp add: unat_sub word_le_nat_alt)
  then show "26 \<le> unat (k_mss kcp)" "unat (k_mss kcp) < 2 ^ 30"
    using mtu by auto
  then show "0 < k_mss kcp" "sint (k_mss kcp) = int (unat (k_mss kcp))"
    using sint_wdist [of 0 "k_mss kcp"] by (auto simp: wdist_def word_less_nat_alt)
qed

section \<open>Message boundaries\<close>

text \<open>
  What the sender's framing promises to the reader of the queue: the first message of a
  queue that starts with a framed message is that message, and the rest is left.
\<close>

primrec read_msgs :: "('f list \<Rightarrow> 'm) \<Rightarrow> ('f list \<Rightarrow> 'f list) \<Rightarrow> nat \<Rightarrow> 'f list \<Rightarrow> 'm list" where
  "read_msgs first rest 0 q = []"
| "read_msgs first rest (Suc n) q = first q # read_msgs first rest n (rest q)"

locale framing =
  fixes valid :: "'m \<Rightarrow> bool"
    and frame :: "'m \<Rightarrow> 'f list"
    and first :: "'f list \<Rightarrow> 'm"
    and rest :: "'f list \<Rightarrow> 'f list"
  assumes first_frame: "valid m \<Longrightarrow> first (frame m @ q) = m"
    and rest_frame: "valid m \<Longrightarrow> rest (frame m @ q) = q"
    and frame_nonempty: "valid m \<Longrightarrow> frame m \<noteq> []"
begin

lemma read_back:
  "\<forall>m \<in> set ms. valid m \<Longrightarrow> read_msgs first rest (length ms) (concat (map frame ms) @ q) = ms"
  by (induction ms) (simp_all add: first_frame rest_frame)

lemma frame_inject: "valid m \<Longrightarrow> valid m' \<Longrightarrow> frame m = frame m' \<Longrightarrow> m = m'"
  using first_frame [of m "[]"] first_frame [of m' "[]"] by simp

end

definition kcp_frame :: "nat \<Rightarrow> byte list \<Rightarrow> ikcpseg list" where
  "kcp_frame mss b = frags mss (frag_count mss (length b)) False b"

definition next_msgs :: "ikcpseg list \<Rightarrow> ikcpseg list" where
  "next_msgs q = drop (length (message q)) q"

interpretation kcp_framing: framing
  "\<lambda>b. frag_count (Suc k) (length b) < 2 ^ 32" "kcp_frame (Suc k)" msg_bytes next_msgs for k
proof
  fix b :: "byte list" and q
  assume n: "frag_count (Suc k) (length b) < 2 ^ 32"
  have pos: "0 < frag_count (Suc k) (length b)" by (rule frag_count_pos) simp
  note msg = message_frags [OF pos n]
  show "msg_bytes (kcp_frame (Suc k) b @ q) = b"
    using frags_data [OF frag_count_enough, of "Suc k"] by (simp add: msg_bytes_def kcp_frame_def msg)
  show "next_msgs (kcp_frame (Suc k) b @ q) = q"
    by (simp add: next_msgs_def kcp_frame_def msg)
  show "kcp_frame (Suc k) b \<noteq> []"
    using pos by (auto simp: kcp_frame_def simp flip: length_greater_0_conv)
qed

text \<open>Sending a list of messages, each accepted.\<close>

fun send_all :: "(nat \<Rightarrow> bool) \<Rightarrow> ikcpcb \<Rightarrow> byte list list \<Rightarrow> ikcpcb option" where
  "send_all alloc kcp [] = Some kcp"
| "send_all alloc kcp (b # bs) =
     (case ikcp_send alloc kcp b (int (length b)) of
        Inr (kcp, rc) \<Rightarrow> if rc = 0 then send_all alloc kcp bs else None
      | Inl _ \<Rightarrow> None)"

lemma send_all_queue:
  assumes "cfg_inv kcp" and "\<forall>n. alloc n" and "k_stream kcp = 0"
    and "\<forall>b \<in> set bs. length b < 2 ^ 31 \<and> frag_count (unat (k_mss kcp)) (length b) < 128"
  shows "\<exists>kcp'. send_all alloc kcp bs = Some kcp' \<and>
    k_snd_queue kcp' = k_snd_queue kcp @ concat (map (kcp_frame (unat (k_mss kcp))) bs)"
  using assms
proof (induction bs arbitrary: kcp)
  case (Cons b bs)
  let ?m = "unat (k_mss kcp)"
  let ?k = "kcp\<lparr>k_snd_queue := k_snd_queue kcp @ kcp_frame ?m b,
    k_nsnd_que := k_nsnd_que kcp + of_nat (frag_count ?m (length b))\<rparr>"
  have "ikcp_send alloc kcp b (int (length b)) = Inr (?k, 0)"
    using send_message_eq [OF Cons.prems(1-3), of b] Cons.prems(4) by (auto simp: kcp_frame_def)
  moreover have "\<exists>kcp'. send_all alloc ?k bs = Some kcp' \<and>
      k_snd_queue kcp' = k_snd_queue ?k @ concat (map (kcp_frame (unat (k_mss ?k))) bs)"
    using Cons.prems by (intro Cons.IH) (auto simp: cfg_inv_def)
  ultimately show ?case by auto
qed simp

section \<open>The receiving end\<close>

text \<open>Segments that arrive in order, numbered from \<open>n\<close> on as \<open>ikcp_flush\<close> does, and \<open>n\<close> calls of \<open>ikcp_recv\<close>.\<close>

fun arrive_all :: "ikcpcb \<Rightarrow> u32 \<Rightarrow> ikcpseg list \<Rightarrow> ikcpcb" where
  "arrive_all kcp n [] = kcp"
| "arrive_all kcp n (s # ss) = arrive_all (ikcp_parse_data kcp (s\<lparr>sg_sn := n\<rparr>)) (n + 1) ss"

fun recv_all :: "nat \<Rightarrow> ikcpcb \<Rightarrow> int \<Rightarrow> kcp_fault + ikcpcb \<times> (int \<times> byte list) list" where
  "recv_all 0 kcp len = Inr (kcp, [])"
| "recv_all (Suc n) kcp len =
     (case ikcp_recv kcp True len of
        Inl f \<Rightarrow> Inl f
      | Inr (kcp, rc, out) \<Rightarrow>
          (case recv_all n kcp len of Inl f \<Rightarrow> Inl f | Inr (kcp, outs) \<Rightarrow> Inr (kcp, (rc, out) # outs)))"

lemma parse_in_order:
  assumes "rcv_inv kcp" and "k_rcv_buf kcp = []" and "seg_ok s" and "sg_sn s = k_rcv_nxt kcp"
    and "length (k_rcv_queue kcp) < unat (k_rcv_wnd kcp)"
  shows "k_rcv_queue (ikcp_parse_data kcp s) = k_rcv_queue kcp @ [s]" "k_rcv_buf (ikcp_parse_data kcp s) = []"
    "k_rcv_nxt (ikcp_parse_data kcp s) = k_rcv_nxt kcp + 1" "k_rcv_wnd (ikcp_parse_data kcp s) = k_rcv_wnd kcp"
proof -
  have "k_nrcv_que kcp < k_rcv_wnd kcp" using assms(1,5) by (simp add: rcv_inv_def word_less_nat_alt)
  moreover have "\<not> (0 \<le> itimediff (sg_sn s) (k_rcv_nxt kcp + k_rcv_wnd kcp) \<or> itimediff (sg_sn s) (k_rcv_nxt kcp) < 0)"
    using assms(1,4,5) in_rcv_window [of "k_rcv_wnd kcp" "sg_sn s" "k_rcv_nxt kcp"] by (simp add: rcv_inv_def)
  ultimately show "k_rcv_queue (ikcp_parse_data kcp s) = k_rcv_queue kcp @ [s]" "k_rcv_buf (ikcp_parse_data kcp s) = []"
    "k_rcv_nxt (ikcp_parse_data kcp s) = k_rcv_nxt kcp + 1" "k_rcv_wnd (ikcp_parse_data kcp s) = k_rcv_wnd kcp"
    using assms(2,4) by (simp_all add: ikcp_parse_data_def rcv_insert_def Let_def)
qed

lemma arrive_all_queue:
  assumes "rcv_inv kcp" and "k_rcv_buf kcp = []" and "n = k_rcv_nxt kcp" and "\<forall>s \<in> set ss. seg_ok s"
    and "length (k_rcv_queue kcp) + length ss \<le> unat (k_rcv_wnd kcp)"
  shows "rcv_inv (arrive_all kcp n ss) \<and> k_rcv_buf (arrive_all kcp n ss) = [] \<and>
    map core (k_rcv_queue (arrive_all kcp n ss)) = map core (k_rcv_queue kcp) @ map core ss"
  using assms
proof (induction kcp n ss rule: arrive_all.induct)
  case (2 kcp n s ss)
  let ?s = "s\<lparr>sg_sn := n\<rparr>"
  have ok: "seg_ok ?s" "core ?s = core s" using "2.prems"(4) by (simp_all add: seg_ok_def core_def)
  note p = parse_in_order [OF "2.prems"(1,2) ok(1)]
  show ?case
    using "2.IH" parse_data_rcv_inv [OF "2.prems"(1) ok(1)] p "2.prems"(3-5) ok(2) by simp
qed simp

lemma message_core: "map core q = map core q' \<Longrightarrow> map core (message q) = map core (message q')"
proof (induction q arbitrary: q')
  case (Cons s q)
  then obtain t r where t: "q' = t # r" "core s = core t" "map core q = map core r" by (cases q') auto
  then have "sg_frg s = sg_frg t" by (simp add: core_def)
  then show ?case using Cons.IH [OF t(3)] t(1,2) by simp
qed simp

lemma msg_bytes_core:
  assumes "map core q = map core q'"
  shows "msg_bytes q = msg_bytes q'" "length (message q) = length (message q')"
proof -
  have eq: "map core (message q) = map core (message q')" using message_core [OF assms] .
  then have "map snd (map core (message q)) = map snd (map core (message q'))" by (simp only:)
  then show "msg_bytes q = msg_bytes q'" by (simp add: msg_bytes_def core_def comp_def)
  show "length (message q) = length (message q')" using map_eq_imp_length_eq [OF eq] .
qed

lemma frame_head: "sg_frg (hd (kcp_frame (Suc k) b)) = of_nat (frag_count (Suc k) (length b) - 1)"
  using frag_count_pos [of "Suc k" "length b"]
  by (cases "frag_count (Suc k) (length b)") (simp_all add: kcp_frame_def seg_new_def)

text \<open>One call of \<open>ikcp_recv\<close> takes exactly the first message off the queue.\<close>

lemma recv_first_message:
  assumes "rcv_inv kcp" and "k_rcv_buf kcp = []" and "map core (k_rcv_queue kcp) = map core (kcp_frame (Suc k) b @ q)"
    and "frag_count (Suc k) (length b) < 128" and "int (length b) \<le> N" and "N < 2 ^ 31"
  obtains kcp' where "ikcp_recv kcp True N = Inr (kcp', int (length b), b)" "rcv_inv kcp'" "k_rcv_buf kcp' = []"
    "map core (k_rcv_queue kcp') = map core q"
proof -
  let ?q = "k_rcv_queue kcp" and ?f = "kcp_frame (Suc k) b"
  have b: "msg_bytes ?q = b" "drop (length (message ?q)) (?f @ q) = q"
    using msg_bytes_core [OF assms(3)] kcp_framing.first_frame [of k b q] kcp_framing.rest_frame [of k b q] assms(4)
    by (simp_all add: next_msgs_def)
  have len: "length ?q = length ?f + length q" "length ?f = frag_count (Suc k) (length b)"
    using map_eq_imp_length_eq [OF assms(3)] by (simp_all add: kcp_frame_def)
  have "?f \<noteq> []" using kcp_framing.frame_nonempty [of k b] assms(4) by simp
  then have ne: "?q \<noteq> []" using len by auto
  have "sg_frg (hd ?q) = fst (hd (map core ?q))" using ne by (simp add: hd_map core_def)
  also have "\<dots> = sg_frg (hd ?f)" using \<open>?f \<noteq> []\<close> unfolding assms(3) by (simp add: hd_append hd_map core_def)
  finally have frg: "sg_frg (hd ?q) = of_nat (length ?f - 1)" using frame_head [of k b] len(2) by simp
  then have u: "unat (sg_frg (hd ?q)) = length ?f - 1" "sg_frg (hd ?q) < 256"
    using assms(4) len(2) unat_of_nat32 [of "length ?f - 1"] by (simp_all add: word_less_nat_alt)
  have "ikcp_peeksize kcp = int (length b)"
    using peeksize_message [OF assms(1) ne _ refl u(2)] b(1) assms(5,6) u(1) len frag_count_pos [of "Suc k" "length b"]
    by (simp add: not_less Suc_le_eq)
  then have "ikcp_recv kcp True N = Inr (after_recv kcp, int (length b), b)"
    using recv_eq [of N kcp True] ne assms(5) b(1) by simp
  moreover have "k_rcv_queue (after_recv kcp) = drop (length (message ?q)) ?q" "k_rcv_buf (after_recv kcp) = []"
    using assms(2) by (simp_all add: after_recv_def Let_def)
  moreover have "map core (drop (length (message ?q)) ?q) = map core q"
    using b(2) by (metis assms(3) drop_map)
  ultimately show ?thesis using that rcv_inv_after_recv [OF assms(1)] by metis
qed

lemma recv_all_messages:
  assumes "rcv_inv kcp" and "k_rcv_buf kcp = []"
    and "map core (k_rcv_queue kcp) = map core (concat (map (kcp_frame (Suc k)) bs))"
    and "\<forall>b \<in> set bs. frag_count (Suc k) (length b) < 128 \<and> int (length b) \<le> N" and "N < 2 ^ 31"
  shows "\<exists>kcp'. recv_all (length bs) kcp N = Inr (kcp', map (\<lambda>b. (int (length b), b)) bs) \<and> k_rcv_queue kcp' = []"
  using assms
proof (induction bs arbitrary: kcp)
  case (Cons b bs)
  obtain kcp' where r: "ikcp_recv kcp True N = Inr (kcp', int (length b), b)" "rcv_inv kcp'" "k_rcv_buf kcp' = []"
    "map core (k_rcv_queue kcp') = map core (concat (map (kcp_frame (Suc k)) bs))"
    using recv_first_message [OF Cons.prems(1,2), of k b "concat (map (kcp_frame (Suc k)) bs)" N] Cons.prems(3-5) by auto
  from Cons.IH [OF r(2-4)] Cons.prems(4,5) r(1) show ?case by auto
qed simp

section \<open>Properties of sending\<close>

text \<open>
  Fragmentation in message mode, for every message a C caller can pass: \<open>ikcp_send\<close>
  refuses with -2 exactly the messages that need 128 or more fragments, and then leaves the
  block alone; otherwise it queues the least number of fragments that can hold the message,
  none longer than the maximum segment size, numbered so that the peer's reassembly of what
  is queued gives back exactly the bytes that were sent.
\<close>

theorem send_message_fragments:
  assumes "cfg_inv kcp" and "\<forall>n. alloc n" and "k_stream kcp = 0" and "length b < 2 ^ 31"
  shows "(128 \<le> frag_count (unat (k_mss kcp)) (length b) \<longrightarrow>
      ikcp_send alloc kcp b (int (length b)) = Inr (kcp, -2)) \<and>
    (frag_count (unat (k_mss kcp)) (length b) < 128 \<longrightarrow>
      (\<exists>kcp' new. ikcp_send alloc kcp b (int (length b)) = Inr (kcp', 0) \<and>
        k_snd_queue kcp' = k_snd_queue kcp @ new \<and>
        length new = frag_count (unat (k_mss kcp)) (length b) \<and>
        (\<forall>s \<in> set new. seg_ok s \<and> sg_len s \<le> k_mss kcp) \<and>
        (\<forall>q. msg_bytes (new @ q) = b \<and> next_msgs (new @ q) = q)))"
proof -
  let ?m = "unat (k_mss kcp)" and ?n = "frag_count (unat (k_mss kcp)) (length b)"
  obtain k where k: "?m = Suc k"
    using mss_bounds(2) [OF assms(1)] by (cases ?m) auto
  have "seg_ok s \<and> sg_len s \<le> k_mss kcp" if "s \<in> set (kcp_frame ?m b)" for s
  proof -
    have "?m < 2 ^ 32" using mss_bounds(3) [OF assms(1)] by simp
    from frags_ok [OF this] that have "seg_ok s" "length (sg_data s) \<le> ?m"
      by (auto simp: kcp_frame_def)
    then show ?thesis by (simp add: seg_ok_def word_le_nat_alt)
  qed
  moreover have "msg_bytes (kcp_frame ?m b @ q) = b" "next_msgs (kcp_frame ?m b @ q) = q"
    if "?n < 128" for q
    using that kcp_framing.first_frame [of k b q] kcp_framing.rest_frame [of k b q] k by auto
  moreover have "length (kcp_frame ?m b) = ?n"
    by (simp add: kcp_frame_def)
  ultimately show ?thesis
    using send_message_eq [OF assms] by (auto simp: kcp_frame_def [symmetric])
qed

definition small_kcp :: ikcpcb where
  "small_kcp = (the (ikcp_create (\<lambda>_. True) 1))\<lparr>k_mtu := 50, k_mss := 26, k_bufcap := 222\<rparr>"

lemma small_kcp_inv: "kcp_inv small_kcp"
  by (simp add: small_kcp_def ikcp_create_def kcp_inv_defs kcp_defs buffer_bytes_def)

lemma small_kcp_simps: "k_stream small_kcp = 0" "k_mss small_kcp = 26" "k_snd_queue small_kcp = []"
  by (simp_all add: small_kcp_def ikcp_create_def)

theorem send_message_fragments_witness:
  "\<exists>kcp' new. ikcp_send (\<lambda>_. True) small_kcp (replicate 60 7) 60 = Inr (kcp', 0) \<and>
     k_snd_queue kcp' = new \<and> length new = 3 \<and> msg_bytes new = replicate 60 7"
proof -
  have "cfg_inv small_kcp" using small_kcp_inv by (simp add: kcp_inv_def)
  from send_message_fragments [OF this, of "\<lambda>_. True" "replicate 60 7"] show ?thesis
    by (auto simp: small_kcp_simps frag_count_def) (metis append_Nil2)
qed

text \<open>
  C26. Message boundaries survive, from \<open>ikcp_send\<close> to \<open>ikcp_recv\<close>: messages sent one after the
  other, none longer than 127 fragments, are all accepted; when their segments, numbered
  consecutively from the number the receiver expects, have arrived in order at a receiver
  with empty queues and a window for all of them, as many calls of \<open>ikcp_recv\<close> with a
  sufficient buffer return exactly these messages one by one, each with its length, and leave
  the queue empty.
\<close>

theorem messages_roundtrip:
  assumes "cfg_inv kcp" and "\<forall>n. alloc n" and "k_stream kcp = 0" and "k_snd_queue kcp = []"
    and "\<forall>b \<in> set bs. frag_count (unat (k_mss kcp)) (length b) < 128 \<and> int (length b) \<le> N" and "N < 2 ^ 31"
    and "rcv_inv rcv" and "k_rcv_buf rcv = []" and "k_rcv_queue rcv = []"
    and "sum_list (map (\<lambda>b. frag_count (unat (k_mss kcp)) (length b)) bs) \<le> unat (k_rcv_wnd rcv)"
  shows "\<exists>kcp' rcv'. send_all alloc kcp bs = Some kcp' \<and>
    recv_all (length bs) (arrive_all rcv (k_rcv_nxt rcv) (k_snd_queue kcp')) N =
      Inr (rcv', map (\<lambda>b. (int (length b), b)) bs) \<and> k_rcv_queue rcv' = []"
proof -
  obtain k where k: "unat (k_mss kcp) = Suc k"
    using mss_bounds(2) [OF assms(1)] by (cases "unat (k_mss kcp)") auto
  have "\<forall>b \<in> set bs. length b < 2 ^ 31 \<and> frag_count (unat (k_mss kcp)) (length b) < 128"
    using assms(5,6) by fastforce
  then obtain kcp' where kcp': "send_all alloc kcp bs = Some kcp'"
    and q: "k_snd_queue kcp' = concat (map (kcp_frame (Suc k)) bs)"
    using send_all_queue [OF assms(1-3)] assms(4) k by fastforce
  have "Suc k < 2 ^ 32" using mss_bounds(3) [OF assms(1)] k by simp
  from frags_ok [OF this] have ok: "\<forall>s \<in> set (k_snd_queue kcp'). seg_ok s" by (auto simp: q kcp_frame_def)
  have "length (k_snd_queue kcp') = sum_list (map (\<lambda>b. frag_count (Suc k) (length b)) bs)"
    by (simp add: q length_concat comp_def kcp_frame_def)
  with assms(9,10) k have room: "length (k_rcv_queue rcv) + length (k_snd_queue kcp') \<le> unat (k_rcv_wnd rcv)" by simp
  from arrive_all_queue [OF assms(7,8) refl ok room] assms(5,6,9) recv_all_messages [of _ k bs N] kcp' k q
  show ?thesis by fastforce
qed

theorem messages_roundtrip_witness:
  "\<exists>kcp' rcv'. send_all (\<lambda>_. True) small_kcp [replicate 60 7, [], [1, 2]] = Some kcp' \<and>
     recv_all 3 (arrive_all small_kcp 0 (k_snd_queue kcp')) 100 = Inr (rcv', [(60, replicate 60 7), (0, []), (2, [1, 2])]) \<and>
     k_rcv_queue rcv' = []"
proof -
  have inv: "cfg_inv small_kcp" "rcv_inv small_kcp" using small_kcp_inv by (simp_all add: kcp_inv_def)
  have r: "k_rcv_buf small_kcp = []" "k_rcv_queue small_kcp = []" "k_rcv_nxt small_kcp = 0" "k_rcv_wnd small_kcp = 128"
    by (simp_all add: small_kcp_def ikcp_create_def kcp_defs)
  from messages_roundtrip [OF inv(1), of "\<lambda>_. True" "[replicate 60 7, [], [1, 2]]" 100, OF _ _ _ _ _ inv(2)] show ?thesis
    by (simp add: small_kcp_simps frag_count_def numeral_3_eq_3 r)
qed

section \<open>Stream mode\<close>

lemma send_extend_eq:
  fixes b :: "byte list"
  assumes "cfg_inv kcp" and "\<forall>n. alloc n" and "k_snd_queue kcp = q @ [old]" and "seg_ok old"
    and "length (sg_data old) < unat (k_mss kcp)"
  defines "e \<equiv> min (length b) (unat (k_mss kcp) - length (sg_data old))"
  shows "send_extend alloc kcp b (int (length b)) =
    Inr (kcp\<lparr>k_snd_queue := q @ [seg_new (sg_data old @ take e b) (of_nat (length (sg_data old) + e)) 0]\<rparr>,
         drop e b, int (length b - e))"
proof -
  let ?m = "unat (k_mss kcp)" and ?l = "length (sg_data old)"
  have len: "unat (sg_len old) = ?l" "sg_len old = of_nat ?l"
  proof -
    show l: "unat (sg_len old) = ?l" using assms(4) by (simp add: seg_ok_def)
    show "sg_len old = of_nat ?l" by (simp add: l [symmetric])
  qed
  have lt: "sg_len old < k_mss kcp"
    using assms(5) len by (simp add: word_less_nat_alt)
  have "unat (k_mss kcp - sg_len old) = ?m - ?l"
    using lt len by (simp add: unat_sub)
  then have cap: "sint (k_mss kcp - sg_len old) = int (?m - ?l)"
    using sint_wdist [of 0 "k_mss kcp - sg_len old"] mss_bounds(3) [OF assms(1)]
    by (simp add: wdist_def flip: int_ops)
  have e: "(if int (length b) < int (?m - ?l) then int (length b) else int (?m - ?l)) = int e"
    by (simp add: e_def)
  have "sg_len old + word_of_int (int e) = of_nat (?l + e)"
    by (simp add: len(2))
  moreover have "last (k_snd_queue kcp) = old" "butlast (k_snd_queue kcp) = q" "k_snd_queue kcp \<noteq> []"
    using assms(3) by simp_all
  moreover have "int (length b) - int e = int (length b - e)"
    by (simp add: e_def of_nat_diff)
  ultimately show ?thesis
    using assms(2) lt unfolding send_extend_def Let_def by (simp only: cap e nat_int if_True if_False simp_thms)
qed

text \<open>
  In stream mode a refused send is not without effect: when the last queued segment
  has room and what does not fit into it needs 128 or more fragments, \<open>ikcp_send\<close> returns -2
  although it has already appended the front of the caller's data to that segment. A caller
  that retries sends those bytes twice.
\<close>

theorem stream_send_partial:
  assumes "cfg_inv kcp" and "\<forall>n. alloc n" and "k_stream kcp \<noteq> 0"
    and "k_snd_queue kcp = q @ [old]" and "seg_ok old" and "length (sg_data old) < unat (k_mss kcp)"
    and "length b < 2 ^ 31"
    and "128 \<le> frag_count (unat (k_mss kcp)) (length b - (unat (k_mss kcp) - length (sg_data old)))"
  shows "\<exists>kcp' new. ikcp_send alloc kcp b (int (length b)) = Inr (kcp', -2) \<and>
    k_snd_queue kcp' = q @ [new] \<and>
    sg_data new = sg_data old @ take (unat (k_mss kcp) - length (sg_data old)) b \<and>
    length (sg_data new) = unat (k_mss kcp)"
proof -
  define m where "m = unat (k_mss kcp)"
  define cap where "cap = m - length (sg_data old)"
  have m: "0 < m" "m < 2 ^ 30"
    using mss_bounds(2,3) [OF assms(1)] by (auto simp: m_def)
  define L where "L = length b - cap"
  have fc: "128 \<le> frag_count m L" and L: "L < 2 ^ 31"
    using assms(7,8) by (auto simp: m_def cap_def L_def)
  have big: "m < L"
    using fc by (auto simp: frag_count_def split: if_splits)
  define new where "new = seg_new (sg_data old @ take cap b) (of_nat (length (sg_data old) + cap)) 0"
  define k where "k = kcp\<lparr>k_snd_queue := q @ [new]\<rparr>"
  have min: "min (length b) (unat (k_mss kcp) - length (sg_data old)) = cap"
    using big by (simp add: cap_def m_def L_def)
  have ext: "send_extend alloc kcp b (int (length b)) = Inr (k, drop cap b, int L)"
    using send_extend_eq [OF assms(1,2,4,5,6), of b] by (simp only: min k_def new_def L_def)
  have mss: "sint (k_mss kcp) = int m" "k_mss kcp = of_nat m" "0 < k_mss kcp"
    using mss_bounds(4,5) [OF assms(1)] by (simp_all add: m_def)
  have count: "sint ((word_of_int (int L) + k_mss kcp - 1) div k_mss kcp) = int (frag_count m L)"
    using word_frag_count [OF m L] big by (simp add: mss(2) frag_count_def)
  have same: "k_stream k = k_stream kcp" "k_mss k = k_mss kcp" by (simp_all add: k_def)
  have "send_rest alloc k (drop cap b) (int L) = Inr (k, -2)"
    using fc big unfolding send_rest_def same count Let_def by (simp add: mss(1) kcp_defs)
  then have "ikcp_send alloc kcp b (int (length b)) = Inr (k, -2)"
    using assms(3) mss(3) big by (simp add: ikcp_send_def ext)
  moreover have "length (sg_data new) = m"
    using big assms(6) by (simp add: new_def seg_new_def cap_def m_def L_def)
  ultimately show ?thesis
    by (auto simp: k_def new_def seg_new_def cap_def m_def)
qed

definition stream_kcp :: ikcpcb where
  "stream_kcp = small_kcp\<lparr>k_stream := 1, k_snd_queue := [seg_new [5] 1 0], k_nsnd_que := 1\<rparr>"

theorem stream_send_partial_witness:
  "\<exists>kcp' new. ikcp_send (\<lambda>_. True) stream_kcp (replicate 4000 7) 4000 = Inr (kcp', -2) \<and>
     k_snd_queue kcp' = [new] \<and> sg_data new = 5 # replicate 25 7"
proof -
  have "cfg_inv stream_kcp"
    using small_kcp_inv by (simp add: stream_kcp_def kcp_inv_def cfg_inv_def)
  from stream_send_partial [OF this, of "\<lambda>_. True" "[]" "seg_new [5] 1 0" "replicate 4000 7"]
  show ?thesis
    by (auto simp: stream_kcp_def small_kcp_simps seg_new_def seg_ok_def frag_count_def take_replicate)
qed

end
