(* ===== verification/Kcp_Ack.thy ===== *)
theory Kcp_Ack
  imports Kcp_State
begin

text \<open>
  Acknowledgement handling of \<open>src/kcp_learn/ikcp.c\<close>: the retransmission timer
  (\<open>ikcp_update_ack\<close>), removal of acknowledged segments from the send buffer
  (\<open>ikcp_shrink_buf\<close>, \<open>ikcp_parse_ack\<close>, \<open>ikcp_parse_una\<close>), counting of skipped segments
  (\<open>ikcp_parse_fastack\<close>) and the growing array of acknowledgements still to be sent
  (\<open>ikcp_ack_push\<close>, \<open>ikcp_ack_get\<close>). The loops that leave early because the buffer is
  sorted are shown to do what the plain filters do.
\<close>

section \<open>The retransmission timer\<close>

definition ikcp_update_ack :: "ikcpcb \<Rightarrow> int \<Rightarrow> ikcpcb" where
  "ikcp_update_ack kcp rtt =
     (let (srtt, rttval) =
            (if k_rx_srtt kcp = 0 then (rtt, rtt sdiv 2)
             else let delta = i32 (rtt - k_rx_srtt kcp);
                      delta = (if delta < 0 then - delta else delta);
                      rttval = i32 ((i32 (3 * k_rx_rttval kcp) + delta) sdiv 4);
                      srtt = i32 (i32 (7 * k_rx_srtt kcp) + rtt) sdiv 8;
                      srtt = (if srtt < 1 then 1 else srtt)
                  in (srtt, rttval));
          rto = sint (word_of_int srtt + imax (k_interval kcp) (word_of_int (i32 (4 * rttval))))
      in kcp\<lparr>k_rx_srtt := srtt, k_rx_rttval := rttval,
             k_rx_rto := sint (ibound (word_of_int (k_rx_minrto kcp)) (word_of_int rto) IKCP_RTO_MAX)\<rparr>)"

section \<open>The send buffer\<close>

definition ikcp_shrink_buf :: "ikcpcb \<Rightarrow> ikcpcb" where
  "ikcp_shrink_buf kcp =
     (case k_snd_buf kcp of
        seg # _ \<Rightarrow> kcp\<lparr>k_snd_una := sg_sn seg\<rparr>
      | [] \<Rightarrow> kcp\<lparr>k_snd_una := k_snd_nxt kcp\<rparr>)"

fun parse_ack_loop :: "u32 \<Rightarrow> ikcpseg list \<Rightarrow> u32 \<Rightarrow> ikcpseg list \<times> u32" where
  "parse_ack_loop sn [] n = ([], n)"
| "parse_ack_loop sn (seg # rest) n =
     (if sn = sg_sn seg then (rest, n - 1)
      else if itimediff sn (sg_sn seg) < 0 then (seg # rest, n)
      else let (rest', n') = parse_ack_loop sn rest n in (seg # rest', n'))"

definition ikcp_parse_ack :: "ikcpcb \<Rightarrow> u32 \<Rightarrow> ikcpcb" where
  "ikcp_parse_ack kcp sn =
     (if itimediff sn (k_snd_una kcp) < 0 \<or> itimediff sn (k_snd_nxt kcp) \<ge> 0 then kcp
      else let (buf, n) = parse_ack_loop sn (k_snd_buf kcp) (k_nsnd_buf kcp)
           in kcp\<lparr>k_snd_buf := buf, k_nsnd_buf := n\<rparr>)"

fun parse_una_loop :: "u32 \<Rightarrow> ikcpseg list \<Rightarrow> u32 \<Rightarrow> ikcpseg list \<times> u32" where
  "parse_una_loop una [] n = ([], n)"
| "parse_una_loop una (seg # rest) n =
     (if itimediff una (sg_sn seg) > 0 then parse_una_loop una rest (n - 1)
      else (seg # rest, n))"

definition ikcp_parse_una :: "ikcpcb \<Rightarrow> u32 \<Rightarrow> ikcpcb" where
  "ikcp_parse_una kcp una =
     (let (buf, n) = parse_una_loop una (k_snd_buf kcp) (k_nsnd_buf kcp)
      in kcp\<lparr>k_snd_buf := buf, k_nsnd_buf := n\<rparr>)"

fun fastack_loop :: "u32 \<Rightarrow> ikcpseg list \<Rightarrow> ikcpseg list" where
  "fastack_loop sn [] = []"
| "fastack_loop sn (seg # rest) =
     (if itimediff sn (sg_sn seg) < 0 then seg # rest
      else if sn \<noteq> sg_sn seg then seg\<lparr>sg_fastack := sg_fastack seg + 1\<rparr> # fastack_loop sn rest
      else seg # fastack_loop sn rest)"

definition ikcp_parse_fastack :: "ikcpcb \<Rightarrow> u32 \<Rightarrow> u32 \<Rightarrow> ikcpcb" where
  "ikcp_parse_fastack kcp sn ts =
     (if itimediff sn (k_snd_una kcp) < 0 \<or> itimediff sn (k_snd_nxt kcp) \<ge> 0 then kcp
      else kcp\<lparr>k_snd_buf := fastack_loop sn (k_snd_buf kcp)\<rparr>)"

section \<open>The acknowledgement array\<close>

text \<open>
  The loop that doubles the capacity. The shift is on 32 bits, so it never ends when more
  than \<open>2 ^ 31\<close> entries are asked for.
\<close>

partial_function (option) ack_newblock :: "u32 \<Rightarrow> u32 \<Rightarrow> u32 option" where
  "ack_newblock newblock newsize =
     (if newblock < newsize then ack_newblock (push_bit 1 newblock) newsize else Some newblock)"

declare ack_newblock.simps [code]

text \<open>
  Cells of the new array that have not been written are zero in the model; the array is
  only ever read below \<open>ackcount\<close>.
\<close>

definition ikcp_ack_push :: "(nat \<Rightarrow> bool) \<Rightarrow> ikcpcb \<Rightarrow> u32 \<Rightarrow> u32 \<Rightarrow> kcp_fault + ikcpcb" where
  "ikcp_ack_push alloc kcp sn ts =
     (let newsize = k_ackcount kcp + 1;
          grown = (if newsize > k_ackblock kcp
                   then case ack_newblock 8 newsize of
                          None \<Rightarrow> Inl Diverge
                        | Some newblock \<Rightarrow>
                            if \<not> alloc (unat newblock * 8) then Inl Abort
                            else let used = 2 * unat (k_ackcount kcp);
                                     old = (case k_acklist kcp of None \<Rightarrow> [] | Some a \<Rightarrow> take used a)
                                 in Inr (kcp\<lparr>k_acklist := Some (old @ replicate (2 * unat newblock - length old) 0),
                                             k_ackblock := newblock\<rparr>)
                   else Inr kcp)
      in case grown of
           Inl f \<Rightarrow> Inl f
         | Inr kcp \<Rightarrow>
             (case k_acklist kcp of
                None \<Rightarrow> Inl Null_deref
              | Some a \<Rightarrow>
                  let p = 2 * unat (k_ackcount kcp)
                  in if p + 1 < length a
                     then Inr (kcp\<lparr>k_acklist := Some (a[p := sn, p + 1 := ts]),
                                   k_ackcount := k_ackcount kcp + 1\<rparr>)
                     else Inl Overrun))"

definition ikcp_ack_get :: "ikcpcb \<Rightarrow> nat \<Rightarrow> (u32 \<times> u32) option" where
  "ikcp_ack_get kcp p =
     (case k_acklist kcp of
        None \<Rightarrow> None
      | Some a \<Rightarrow> if 2 * p + 1 < length a then Some (a ! (2 * p), a ! (2 * p + 1)) else None)"

text \<open>The pending acknowledgements, as the list of pairs the array stands for.\<close>

definition acks :: "ikcpcb \<Rightarrow> (u32 \<times> u32) list" where
  "acks kcp = map (\<lambda>p. the (ikcp_ack_get kcp p)) [0..<unat (k_ackcount kcp)]"

section \<open>Bounds of the timer\<close>

lemma sint_small: "unat (w :: u32) < 2 ^ 31 \<Longrightarrow> sint w = uint w"
  using sint_wdist [of 0 w] by (simp add: wdist_def)

lemma update_ack_rto_bounds:
  assumes "0 < k_rx_minrto kcp" and "k_rx_minrto kcp \<le> uint IKCP_RTO_MAX"
  shows "k_rx_minrto kcp \<le> k_rx_rto (ikcp_update_ack kcp rtt) \<and>
    k_rx_rto (ikcp_update_ack kcp rtt) \<le> uint IKCP_RTO_MAX"
proof -
  define lo where "lo = (word_of_int (k_rx_minrto kcp) :: u32)"
  have u: "uint lo = k_rx_minrto kcp"
    using assms by (simp add: lo_def kcp_defs uint_word_of_int)
  have "lo \<le> IKCP_RTO_MAX"
    using assms(2) u by (simp add: word_le_def)
  then have b: "lo \<le> ibound lo m IKCP_RTO_MAX" "ibound lo m IKCP_RTO_MAX \<le> IKCP_RTO_MAX" for m
    by (simp_all add: ibound_upper ibound_lower)
  then have "unat (ibound lo m IKCP_RTO_MAX) \<le> unat IKCP_RTO_MAX" for m
    by (simp add: word_le_nat_alt)
  then have "unat (ibound lo m IKCP_RTO_MAX) < 2 ^ 31" for m
    by (rule le_less_trans) (simp add: kcp_defs)
  then have "sint (ibound lo m IKCP_RTO_MAX) = uint (ibound lo m IKCP_RTO_MAX)" for m
    by (rule sint_small)
  moreover have "k_rx_minrto kcp \<le> uint (ibound lo m IKCP_RTO_MAX)"
    "uint (ibound lo m IKCP_RTO_MAX) \<le> uint IKCP_RTO_MAX" for m
    using b u by (auto simp: word_le_def)
  ultimately show ?thesis
    by (auto simp: ikcp_update_ack_def Let_def lo_def split: prod.splits)
qed

lemma update_ack_frame [simp]:
  "k_snd_buf (ikcp_update_ack kcp rtt) = k_snd_buf kcp"
  "k_snd_una (ikcp_update_ack kcp rtt) = k_snd_una kcp"
  "k_snd_nxt (ikcp_update_ack kcp rtt) = k_snd_nxt kcp"
  by (simp_all add: ikcp_update_ack_def Let_def split: prod.splits)

lemma update_ack_inv: "kcp_inv kcp \<Longrightarrow> kcp_inv (ikcp_update_ack kcp rtt)"
  using update_ack_rto_bounds [of kcp rtt]
  by (auto simp: kcp_inv_defs ikcp_update_ack_def Let_def split: prod.splits)

section \<open>Removing acknowledged segments\<close>

text \<open>
  The early exits are sound because the buffer is sorted. Under the sending invariant every
  number involved lies within \<open>2 ^ 16\<close> of \<open>snd_una\<close>, so the signed differences compare
  distances from it.
\<close>

lemma snd_inv_near:
  assumes "snd_inv kcp" and "s \<in> set (k_snd_buf kcp)"
  shows "wdist (k_snd_una kcp) (sg_sn s) < wdist (k_snd_una kcp) (k_snd_nxt kcp)"
    and "wdist (k_snd_una kcp) (sg_sn s) < 2 ^ 31"
  using assms by (auto simp: snd_inv_def serial_sorted_def)

lemma parse_una_loop_spec:
  assumes "serial_sorted base b buf" and "b \<le> 2 ^ 31" and "wdist base una < 2 ^ 31"
  shows "parse_una_loop una buf n =
    (filter (\<lambda>s. wdist base una \<le> wdist base (sg_sn s)) buf,
     n - of_nat (length (filter (\<lambda>s. wdist base (sg_sn s) < wdist base una) buf)))"
  using assms
proof (induction una buf n rule: parse_una_loop.induct)
  case (2 una seg rest n)
  have near: "wdist base (sg_sn seg) < 2 ^ 31"
    using "2.prems" by (auto simp: serial_sorted_Cons)
  then have cmp: "itimediff una (sg_sn seg) > 0 \<longleftrightarrow> wdist base (sg_sn seg) < wdist base una"
    using itimediff_wdist [OF "2.prems"(3) near] by simp
  show ?case
  proof (cases "wdist base (sg_sn seg) < wdist base una")
    case True
    with "2" cmp show ?thesis by (simp add: serial_sorted_Cons algebra_simps)
  next
    case False
    with "2.prems" have "\<forall>s \<in> set rest. wdist base una \<le> wdist base (sg_sn s)"
      by (auto simp: serial_sorted_Cons)
    then have "filter (\<lambda>s. wdist base una \<le> wdist base (sg_sn s)) rest = rest"
      and "filter (\<lambda>s. wdist base (sg_sn s) < wdist base una) rest = []"
      by (auto simp: filter_id_conv filter_empty_conv)
    with False cmp show ?thesis by simp
  qed
qed simp

lemma parse_ack_loop_spec:
  assumes "serial_sorted base b buf" and "b \<le> 2 ^ 31" and "wdist base sn < 2 ^ 31"
  shows "parse_ack_loop sn buf n =
    (filter (\<lambda>s. sg_sn s \<noteq> sn) buf, if sn \<in> sg_sn ` set buf then n - 1 else n)"
  using assms
proof (induction sn buf n rule: parse_ack_loop.induct)
  case (2 sn seg rest n)
  have near: "wdist base (sg_sn seg) < 2 ^ 31" and rest: "serial_sorted base b rest"
    and later: "\<And>s. s \<in> set rest \<Longrightarrow> wdist base (sg_sn seg) < wdist base (sg_sn s)"
    using "2.prems" by (auto simp: serial_sorted_Cons)
  have cmp: "itimediff sn (sg_sn seg) < 0 \<longleftrightarrow> wdist base sn < wdist base (sg_sn seg)"
    using itimediff_wdist [OF "2.prems"(3) near] by simp
  consider (hit) "sn = sg_sn seg" | (stop) "sn \<noteq> sg_sn seg" "wdist base sn < wdist base (sg_sn seg)"
    | (go) "sn \<noteq> sg_sn seg" "\<not> wdist base sn < wdist base (sg_sn seg)" by blast
  then show ?case
  proof cases
    case hit
    with later have "\<forall>s \<in> set rest. sg_sn s \<noteq> sn" by force
    then have "filter (\<lambda>s. sg_sn s \<noteq> sn) rest = rest" by (simp add: filter_id_conv)
    with hit show ?thesis by simp
  next
    case stop
    with later have "\<forall>s \<in> set rest. sg_sn s \<noteq> sn" by force
    then have "filter (\<lambda>s. sg_sn s \<noteq> sn) rest = rest" "sn \<notin> sg_sn ` set rest"
      by (auto simp: filter_id_conv)
    with stop cmp show ?thesis by auto
  next
    case go
    with "2.IH" cmp rest "2.prems" show ?thesis by (auto simp: Let_def)
  qed
qed simp

lemma fastack_loop_sns [simp]: "map sg_sn (fastack_loop sn buf) = map sg_sn buf"
  by (induction sn buf rule: fastack_loop.induct) auto

lemma fastack_loop_length [simp]: "length (fastack_loop sn buf) = length buf"
  by (induction sn buf rule: fastack_loop.induct) auto

lemma fastack_loop_seg_ok: "\<forall>s \<in> set buf. seg_ok s \<Longrightarrow> \<forall>s \<in> set (fastack_loop sn buf). seg_ok s"
  by (induction sn buf rule: fastack_loop.induct) (auto simp: seg_ok_def)

lemma fastack_loop_spec:
  assumes "serial_sorted base b buf" and "b \<le> 2 ^ 31" and "wdist base sn < 2 ^ 31"
  shows "fastack_loop sn buf =
    map (\<lambda>s. if wdist base (sg_sn s) < wdist base sn
             then s\<lparr>sg_fastack := sg_fastack s + 1\<rparr> else s) buf"
  using assms
proof (induction sn buf rule: fastack_loop.induct)
  case (2 sn seg rest)
  have near: "wdist base (sg_sn seg) < 2 ^ 31" and rest: "serial_sorted base b rest"
    and later: "\<And>s. s \<in> set rest \<Longrightarrow> wdist base (sg_sn seg) < wdist base (sg_sn s)"
    using "2.prems" by (auto simp: serial_sorted_Cons)
  have cmp: "itimediff sn (sg_sn seg) < 0 \<longleftrightarrow> wdist base sn < wdist base (sg_sn seg)"
    using itimediff_wdist [OF "2.prems"(3) near] by simp
  have neq: "sn \<noteq> sg_sn seg \<longleftrightarrow> wdist base sn \<noteq> wdist base (sg_sn seg)"
    by simp
  show ?case
  proof (cases "wdist base sn < wdist base (sg_sn seg)")
    case True
    with later have "map (\<lambda>s. if wdist base (sg_sn s) < wdist base sn
        then s\<lparr>sg_fastack := sg_fastack s + 1\<rparr> else s) rest = rest"
      by (intro map_idI) force
    with True cmp show ?thesis by auto
  next
    case False
    with "2.IH" cmp rest "2.prems" show ?thesis
      by (cases "sn = sg_sn seg") (auto simp: nat_neq_iff)
  qed
qed simp

section \<open>The sending invariant\<close>

lemma serial_sorted_filter: "serial_sorted base b ss \<Longrightarrow> serial_sorted base b (filter P ss)"
  by (auto simp: serial_sorted_def sorted_wrt_filter)

lemma serial_sorted_cong:
  "map sg_sn ss = map sg_sn ts \<Longrightarrow> serial_sorted base b ss = serial_sorted base b ts"
proof -
  have "serial_sorted base b ss \<longleftrightarrow>
      sorted_wrt (\<lambda>x y. wdist base x < wdist base y) (map sg_sn ss) \<and>
      (\<forall>x \<in> set (map sg_sn ss). wdist base x < b)" for ss
    by (auto simp: serial_sorted_def sorted_wrt_map)
  then show "map sg_sn ss = map sg_sn ts \<Longrightarrow> ?thesis" by (simp only:)
qed

lemma parse_una_suffix:
  "\<exists>k \<le> length buf. parse_una_loop una buf n = (drop k buf, n - of_nat k)"
proof (induction una buf n rule: parse_una_loop.induct)
  case (2 una seg rest n)
  show ?case
  proof (cases "itimediff una (sg_sn seg) > 0")
    case True
    with "2" obtain k where "k \<le> length rest" "parse_una_loop una rest (n - 1) = (drop k rest, n - 1 - of_nat k)"
      by auto
    with True show ?thesis by (intro exI [of _ "Suc k"]) (simp add: algebra_simps)
  next
    case False
    then show ?thesis by (intro exI [of _ 0]) simp
  qed
qed simp

lemma snd_inv_parse_una: "snd_inv kcp \<Longrightarrow> snd_inv (ikcp_parse_una kcp una)"
proof -
  assume inv: "snd_inv kcp"
  obtain k where k: "k \<le> length (k_snd_buf kcp)"
    "parse_una_loop una (k_snd_buf kcp) (k_nsnd_buf kcp) = (drop k (k_snd_buf kcp), k_nsnd_buf kcp - of_nat k)"
    using parse_una_suffix by blast
  have "serial_sorted base b (drop k (k_snd_buf kcp))" if "serial_sorted base b (k_snd_buf kcp)" for base b
    using that by (metis append_take_drop_id serial_sorted_append)
  with inv k show ?thesis
    by (auto simp: ikcp_parse_una_def snd_inv_def of_nat_diff dest: in_set_dropD)
qed

lemma snd_inv_shrink: "snd_inv kcp \<Longrightarrow> snd_inv (ikcp_shrink_buf kcp)"
proof (cases "k_snd_buf kcp")
  case (Cons seg rest)
  assume inv: "snd_inv kcp"
  let ?una = "k_snd_una kcp" and ?d = "wdist (k_snd_una kcp) (sg_sn seg)"
  have sorted: "serial_sorted ?una (wdist ?una (k_snd_nxt kcp)) (k_snd_buf kcp)"
    using inv by (simp add: snd_inv_def)
  have ahead: "?d \<le> wdist ?una (sg_sn s)" if "s \<in> set (k_snd_buf kcp)" for s
    using sorted that Cons by (auto simp: serial_sorted_Cons)
  have d: "?d \<le> wdist ?una (k_snd_nxt kcp)"
    using sorted Cons by (simp add: serial_sorted_Cons)
  have base: "?una + of_nat ?d = sg_sn seg" by (rule wdist_inverse)
  have "serial_sorted (sg_sn seg) (wdist ?una (k_snd_nxt kcp) - ?d) (k_snd_buf kcp)"
    using serial_sorted_rebase [OF sorted ahead] by (simp only: base)
  moreover have "wdist (sg_sn seg) (k_snd_nxt kcp) = wdist ?una (k_snd_nxt kcp) - ?d"
    using wdist_rebase [OF d] by (simp only: base)
  ultimately show ?thesis
    using inv Cons by (auto simp: ikcp_shrink_buf_def snd_inv_def)
qed (simp add: ikcp_shrink_buf_def snd_inv_def)

lemma length_filter_sn:
  "distinct (map sg_sn buf) \<Longrightarrow>
     (of_nat (length (filter (\<lambda>s. sg_sn s \<noteq> sn) buf)) :: u32) =
     (if sn \<in> sg_sn ` set buf then of_nat (length buf) - 1 else of_nat (length buf))"
proof (induction buf)
  case (Cons s buf)
  show ?case
  proof (cases "sg_sn s = sn")
    case True
    with Cons.prems have "sn \<notin> sg_sn ` set buf" by simp
    then have "\<forall>t \<in> set buf. sg_sn t \<noteq> sn" by blast
    with True show ?thesis by (simp add: filter_id_conv)
  next
    case False
    with Cons show ?thesis by auto
  qed
qed simp

lemma snd_inv_parse_ack: "snd_inv kcp \<Longrightarrow> snd_inv (ikcp_parse_ack kcp sn)"
proof (cases "itimediff sn (k_snd_una kcp) < 0 \<or> itimediff sn (k_snd_nxt kcp) \<ge> 0")
  case False
  assume inv: "snd_inv kcp"
  then have sorted: "serial_sorted (k_snd_una kcp) (wdist (k_snd_una kcp) (k_snd_nxt kcp)) (k_snd_buf kcp)"
    and small: "wdist (k_snd_una kcp) (k_snd_nxt kcp) < 2 ^ 16"
    by (auto simp: snd_inv_def)
  have near: "wdist (k_snd_una kcp) sn < 2 ^ 31"
    using False by (auto simp: itimediff_neg_iff)
  have spec: "parse_ack_loop sn (k_snd_buf kcp) (k_nsnd_buf kcp) =
      (filter (\<lambda>s. sg_sn s \<noteq> sn) (k_snd_buf kcp),
       if sn \<in> sg_sn ` set (k_snd_buf kcp) then k_nsnd_buf kcp - 1 else k_nsnd_buf kcp)"
    using parse_ack_loop_spec [OF sorted _ near] small by simp
  note cnt = length_filter_sn [OF serial_sorted_distinct [OF sorted]]
  show ?thesis
    using False inv spec cnt serial_sorted_filter [OF sorted]
    by (auto simp: ikcp_parse_ack_def snd_inv_def)
qed (simp add: ikcp_parse_ack_def)

lemma snd_inv_fastack: "snd_inv kcp \<Longrightarrow> snd_inv (ikcp_parse_fastack kcp sn ts)"
  using fastack_loop_seg_ok [of "k_snd_buf kcp" sn]
    serial_sorted_cong [OF fastack_loop_sns [of sn "k_snd_buf kcp"]]
  by (auto simp: ikcp_parse_fastack_def snd_inv_def)

section \<open>The acknowledgement array is a list of pairs\<close>

lemma ack_newblock_returns:
  assumes "0 < newblock" and "unat newsize \<le> 2 ^ 31"
  shows "\<exists>b. ack_newblock newblock newsize = Some b \<and> newsize \<le> b"
  using assms
proof (induction "2 ^ 32 - unat newblock" arbitrary: newblock rule: less_induct)
  case less
  show ?case
  proof (cases "newblock < newsize")
    case True
    then have "unat newblock < 2 ^ 31"
      using less.prems by (simp add: word_less_nat_alt)
    then have dbl: "unat (push_bit 1 newblock) = 2 * unat newblock"
      by (simp add: push_bit_eq_mult unat_word_ariths)
    have "0 < unat newblock"
      using less.prems(1) by (simp add: word_less_nat_alt)
    then have "2 ^ 32 - unat (push_bit 1 newblock) < 2 ^ 32 - unat newblock"
      and "0 < push_bit 1 newblock"
      using dbl \<open>unat newblock < 2 ^ 31\<close> by (auto simp: word_less_nat_alt)
    from less.hyps [OF this less.prems(2)] True show ?thesis
      by (simp add: ack_newblock.simps [of newblock])
  next
    case False
    then show ?thesis by (simp add: ack_newblock.simps [of newblock])
  qed
qed

lemma acks_Some:
  assumes "k_acklist kcp = Some a" and "2 * unat (k_ackcount kcp) \<le> length a"
  shows "acks kcp = map (\<lambda>p. (a ! (2 * p), a ! (2 * p + 1))) [0..<unat (k_ackcount kcp)]"
  using assms by (auto simp: acks_def ikcp_ack_get_def)

text \<open>Writing the next pair when there is room.\<close>

lemma acks_write:
  assumes "k_acklist kcp = Some a" and "2 * unat (k_ackcount kcp) + 1 < length a"
    and "unat (k_ackcount kcp) < 2 ^ 31"
  shows "acks (kcp\<lparr>k_acklist := Some (a[2 * unat (k_ackcount kcp) := sn, 2 * unat (k_ackcount kcp) + 1 := ts]),
      k_ackcount := k_ackcount kcp + 1\<rparr>) = acks kcp @ [(sn, ts)]"
proof -
  have "unat (k_ackcount kcp + 1) = Suc (unat (k_ackcount kcp))"
    using assms(3) by (simp add: unat_word_ariths)
  with assms show ?thesis
    by (subst (1 2) acks_Some) (auto simp: nth_list_update)
qed

lemma acks_grow:
  assumes "ack_inv kcp" and "k_ackcount kcp \<le> newblock"
  defines "used \<equiv> (case k_acklist kcp of None \<Rightarrow> [] | Some a \<Rightarrow> take (2 * unat (k_ackcount kcp)) a)"
  defines "a' \<equiv> used @ replicate (2 * unat newblock - length used) 0"
  shows "length a' = 2 * unat newblock" and "acks (kcp\<lparr>k_acklist := Some a', k_ackblock := newblock\<rparr>) = acks kcp"
proof -
  have le: "unat (k_ackcount kcp) \<le> unat newblock"
    using assms(2) by (simp add: word_le_nat_alt)
  have used: "length used = 2 * unat (k_ackcount kcp)"
    using assms(1) by (cases "k_acklist kcp") (auto simp: ack_inv_def used_def word_le_nat_alt)
  then show len: "length a' = 2 * unat newblock"
    using le by (simp add: a'_def)
  show "acks (kcp\<lparr>k_acklist := Some a', k_ackblock := newblock\<rparr>) = acks kcp"
  proof (cases "k_acklist kcp")
    case None
    then have "k_ackcount kcp = 0" using assms(1) by (simp add: ack_inv_def)
    then show ?thesis by (simp add: acks_def)
  next
    case (Some a)
    then have "2 * unat (k_ackcount kcp) \<le> length a"
      using assms(1) by (simp add: ack_inv_def word_le_nat_alt)
    then show ?thesis
      using Some used len le
        acks_Some [of kcp a] acks_Some [of "kcp\<lparr>k_acklist := Some a', k_ackblock := newblock\<rparr>" a']
      by (auto simp: a'_def used_def nth_append)
  qed
qed

text \<open>The array with the next pair written, and the block that holds it.\<close>

definition ack_written :: "ikcpcb \<Rightarrow> u32 list \<Rightarrow> u32 \<Rightarrow> u32 \<Rightarrow> u32 \<Rightarrow> ikcpcb" where
  "ack_written kcp a b sn ts =
     kcp\<lparr>k_ackblock := b,
         k_acklist := Some (a[2 * unat (k_ackcount kcp) := sn, 2 * unat (k_ackcount kcp) + 1 := ts]),
         k_ackcount := k_ackcount kcp + 1\<rparr>"

lemma ack_written_spec:
  assumes "length a = 2 * unat b" and "k_ackcount kcp < b" and "unat (k_ackcount kcp) < 2 ^ 31"
    and "acks (kcp\<lparr>k_acklist := Some a, k_ackblock := b\<rparr>) = acks kcp"
  shows "ack_inv (ack_written kcp a b sn ts)" and "acks (ack_written kcp a b sn ts) = acks kcp @ [(sn, ts)]"
proof -
  have "unat (k_ackcount kcp + 1) = Suc (unat (k_ackcount kcp))"
    using assms(3) by (simp add: unat_word_ariths)
  then show "ack_inv (ack_written kcp a b sn ts)"
    using assms(1,2) by (simp add: ack_inv_def ack_written_def word_le_nat_alt word_less_nat_alt)
  show "acks (ack_written kcp a b sn ts) = acks kcp @ [(sn, ts)]"
    using assms acks_write [of "kcp\<lparr>k_acklist := Some a, k_ackblock := b\<rparr>" a sn ts]
    by (simp add: ack_written_def word_less_nat_alt)
qed

lemma ack_push_written:
  assumes "ack_inv kcp" and "\<forall>n. alloc n" and "unat (k_ackcount kcp) < 2 ^ 31"
  shows "\<exists>a b. ikcp_ack_push alloc kcp sn ts = Inr (ack_written kcp a b sn ts) \<and>
    length a = 2 * unat b \<and> k_ackcount kcp < b \<and>
    acks (kcp\<lparr>k_acklist := Some a, k_ackblock := b\<rparr>) = acks kcp"
proof -
  let ?c = "k_ackcount kcp"
  have suc: "unat (?c + 1) = Suc (unat ?c)"
    using assms(3) by (simp add: unat_word_ariths)
  show ?thesis
  proof (cases "?c + 1 > k_ackblock kcp")
    case True
    obtain b where b: "ack_newblock 8 (?c + 1) = Some b" "?c + 1 \<le> b"
      using ack_newblock_returns [of 8 "?c + 1"] suc assms(3) by auto
    have lt: "?c < b"
      using b(2) suc by (simp add: word_less_nat_alt word_le_nat_alt)
    define a where "a = (case k_acklist kcp of None \<Rightarrow> [] | Some a \<Rightarrow> take (2 * unat ?c) a) @
      replicate (2 * unat b - length (case k_acklist kcp of None \<Rightarrow> [] | Some a \<Rightarrow> take (2 * unat ?c) a)) 0"
    have len: "length a = 2 * unat b" and acks: "acks (kcp\<lparr>k_acklist := Some a, k_ackblock := b\<rparr>) = acks kcp"
      using acks_grow [OF assms(1) less_imp_le [OF lt]] by (simp_all add: a_def)
    have "2 * unat ?c + 1 < length a"
      using len lt by (simp add: word_less_nat_alt)
    then have "ikcp_ack_push alloc kcp sn ts = Inr (ack_written kcp a b sn ts)"
      using True b assms(2) by (simp add: ikcp_ack_push_def Let_def a_def ack_written_def)
    with len lt acks show ?thesis by blast
  next
    case False
    then have lt: "?c < k_ackblock kcp"
      using suc by (simp add: word_less_nat_alt not_less word_le_nat_alt)
    then obtain a where a: "k_acklist kcp = Some a" "length a = 2 * unat (k_ackblock kcp)"
      using assms(1) by (cases "k_acklist kcp") (auto simp: ack_inv_def)
    have "2 * unat ?c + 1 < length a"
      using lt a by (simp add: word_less_nat_alt)
    then have "ikcp_ack_push alloc kcp sn ts = Inr (ack_written kcp a (k_ackblock kcp) sn ts)"
      using False a(1) by (simp add: ikcp_ack_push_def Let_def ack_written_def)
    moreover have "kcp\<lparr>k_acklist := Some a, k_ackblock := k_ackblock kcp\<rparr> = kcp"
      using a(1) by simp
    ultimately show ?thesis
      using lt a(2) by (intro exI [of _ a] exI [of _ "k_ackblock kcp"]) simp
  qed
qed

text \<open>
  Pushing an acknowledgement with a working allocator and fewer than \<open>2 ^ 31\<close> of them
  pending: no fault, one more pair at the end of the list, the array large enough for it,
  every other field of the block as before.
\<close>

lemma ack_push_ok:
  assumes "ack_inv kcp" and "\<forall>n. alloc n" and "unat (k_ackcount kcp) < 2 ^ 31"
  obtains kcp' where "ikcp_ack_push alloc kcp sn ts = Inr kcp'" "ack_inv kcp'"
    "acks kcp' = acks kcp @ [(sn, ts)]"
    "\<exists>a b. kcp' = kcp\<lparr>k_ackblock := b, k_acklist := a, k_ackcount := k_ackcount kcp + 1\<rparr>"
  using ack_push_written [OF assms, of sn ts] ack_written_spec [OF _ _ assms(3)]
  by (metis ack_written_def)

section \<open>Properties of acknowledgement handling\<close>

text \<open>A block with three segments in flight, numbered across the wrap-around.\<close>

definition flight_seg :: "u32 \<Rightarrow> ikcpseg" where
  "flight_seg n = \<lparr>sg_conv = 1, sg_cmd = 81, sg_frg = 0, sg_wnd = 32, sg_ts = 5, sg_sn = n,
     sg_una = 0, sg_len = 1, sg_resendts = 300, sg_rto = 200, sg_fastack = 0, sg_xmit = 1,
     sg_data = [42]\<rparr>"

definition flight_kcp :: ikcpcb where
  "flight_kcp = (the (ikcp_create (\<lambda>_. True) 1))
     \<lparr>k_snd_una := - 1, k_snd_nxt := 2, k_nsnd_buf := 3,
      k_snd_buf := [flight_seg (- 1), flight_seg 0, flight_seg 1]\<rparr>"

lemma flight_inv: "kcp_inv flight_kcp"
  by (simp add: flight_kcp_def ikcp_create_def kcp_inv_defs serial_sorted_def wdist_def
      flight_seg_def seg_ok_def kcp_defs)

text \<open>
  The cumulative acknowledgement: \<open>ikcp_parse_una\<close>, which stops at the first segment it
  keeps, removes exactly the segments whose number lies before \<open>una\<close>, also across the
  wrap-around of the numbers, counts them off and keeps the sending invariant, as does the
  \<open>ikcp_shrink_buf\<close> that follows.
\<close>

theorem parse_una_filter:
  assumes "snd_inv kcp" and "itimediff una (k_snd_una kcp) \<ge> 0"
  shows "k_snd_buf (ikcp_parse_una kcp una) =
      filter (\<lambda>s. \<not> itimediff una (sg_sn s) > 0) (k_snd_buf kcp) \<and>
    snd_inv (ikcp_parse_una kcp una) \<and> snd_inv (ikcp_shrink_buf (ikcp_parse_una kcp una))"
proof -
  let ?base = "k_snd_una kcp"
  have near: "wdist ?base una < 2 ^ 31"
    using assms(2) itimediff_neg_iff [of una ?base] by linarith
  have "serial_sorted ?base (wdist ?base (k_snd_nxt kcp)) (k_snd_buf kcp)"
    and "wdist ?base (k_snd_nxt kcp) \<le> 2 ^ 31"
    using assms(1) by (auto simp: snd_inv_def)
  from parse_una_loop_spec [OF this near]
  have "k_snd_buf (ikcp_parse_una kcp una) =
      filter (\<lambda>s. wdist ?base una \<le> wdist ?base (sg_sn s)) (k_snd_buf kcp)"
    by (simp add: ikcp_parse_una_def)
  also have "\<dots> = filter (\<lambda>s. \<not> itimediff una (sg_sn s) > 0) (k_snd_buf kcp)"
    using itimediff_wdist [OF near snd_inv_near(2) [OF assms(1)]] by (intro filter_cong) auto
  finally show ?thesis
    using assms(1) snd_inv_parse_una snd_inv_shrink by blast
qed

theorem parse_una_filter_witness:
  "k_snd_buf (ikcp_parse_una flight_kcp 1) = [flight_seg 1]"
proof -
  have "snd_inv flight_kcp" and "itimediff 1 (k_snd_una flight_kcp) \<ge> 0"
    using flight_inv by (simp_all add: kcp_inv_def flight_kcp_def itimediff_def)
  from parse_una_filter [OF this] show ?thesis
    by (simp add: flight_kcp_def flight_seg_def itimediff_def)
qed

text \<open>
  The selective acknowledgement: for every number a peer may send, in or out of the
  window, \<open>ikcp_parse_ack\<close> removes exactly the segment of that number from the send buffer,
  if it is there, and keeps the sending invariant.
\<close>

theorem parse_ack_filter:
  assumes "snd_inv kcp"
  shows "k_snd_buf (ikcp_parse_ack kcp sn) = filter (\<lambda>s. sg_sn s \<noteq> sn) (k_snd_buf kcp) \<and>
    snd_inv (ikcp_parse_ack kcp sn)"
proof -
  let ?base = "k_snd_una kcp"
  have sorted: "serial_sorted ?base (wdist ?base (k_snd_nxt kcp)) (k_snd_buf kcp)"
    and small: "wdist ?base (k_snd_nxt kcp) \<le> 2 ^ 31"
    using assms by (auto simp: snd_inv_def)
  have "k_snd_buf (ikcp_parse_ack kcp sn) = filter (\<lambda>s. sg_sn s \<noteq> sn) (k_snd_buf kcp)"
  proof (cases "itimediff sn ?base < 0 \<or> itimediff sn (k_snd_nxt kcp) \<ge> 0")
    case True
    have "sg_sn s \<noteq> sn" if "s \<in> set (k_snd_buf kcp)" for s
    proof
      assume eq: "sg_sn s = sn"
      note near = snd_inv_near [OF assms that, unfolded eq]
      have nxt: "wdist ?base (k_snd_nxt kcp) < 2 ^ 31" using assms by (auto simp: snd_inv_def)
      have "itimediff sn (k_snd_nxt kcp) < 0" and "\<not> itimediff sn ?base < 0"
        using itimediff_wdist [OF near(2) nxt] near by (auto simp: itimediff_neg_iff)
      with True show False by simp
    qed
    with True show ?thesis by (simp add: ikcp_parse_ack_def filter_id_conv)
  next
    case False
    then have "wdist ?base sn < 2 ^ 31"
      by (auto simp: itimediff_neg_iff)
    with parse_ack_loop_spec [OF sorted small this] False show ?thesis
      by (simp add: ikcp_parse_ack_def)
  qed
  then show ?thesis
    using assms snd_inv_parse_ack by blast
qed

theorem parse_ack_filter_witness:
  "k_snd_buf (ikcp_parse_ack flight_kcp 0) = [flight_seg (- 1), flight_seg 1]"
proof -
  have "snd_inv flight_kcp"
    using flight_inv by (simp add: kcp_inv_def)
  from parse_ack_filter [OF this, of 0] show ?thesis
    by (simp add: flight_kcp_def flight_seg_def)
qed

text \<open>
  The retransmission timeout stays between the configured minimum and 60 seconds after
  every acknowledgement, whatever round-trip time is measured and whatever the smoothed
  values were (also when the intermediate 32-bit arithmetic wraps).
\<close>

theorem rto_bounds:
  assumes "0 < k_rx_minrto kcp" and "k_rx_minrto kcp \<le> uint IKCP_RTO_MAX"
  shows "k_rx_minrto kcp \<le> k_rx_rto (ikcp_update_ack kcp rtt) \<and>
    k_rx_rto (ikcp_update_ack kcp rtt) \<le> 60000"
  using update_ack_rto_bounds [OF assms, of rtt] by (simp add: kcp_defs)

theorem rto_bounds_witness:
  "100 \<le> k_rx_rto (ikcp_update_ack flight_kcp 2147483647) \<and>
   k_rx_rto (ikcp_update_ack flight_kcp 2147483647) \<le> 60000"
proof -
  have "k_rx_minrto flight_kcp = 100"
    by (simp add: flight_kcp_def ikcp_create_def kcp_defs)
  then show ?thesis
    using rto_bounds [of flight_kcp 2147483647] by (simp add: kcp_defs)
qed

text \<open>
  The acknowledgement array refines a list of pairs: with a working allocator and fewer
  than \<open>2 ^ 31\<close> acknowledgements pending, \<open>ikcp_ack_push\<close> ends (the doubling loop too),
  writes inside the array it has grown, keeps every earlier entry and adds the new one, and
  \<open>ikcp_ack_get\<close> reads the entries back.
\<close>

theorem ack_push_refines:
  assumes "ack_inv kcp" and "\<forall>n. alloc n" and "unat (k_ackcount kcp) < 2 ^ 31"
  shows "\<exists>kcp'. ikcp_ack_push alloc kcp sn ts = Inr kcp' \<and> ack_inv kcp' \<and>
    acks kcp' = acks kcp @ [(sn, ts)] \<and> unat (k_ackcount kcp') = unat (k_ackcount kcp) + 1"
proof -
  obtain kcp' a b where "ikcp_ack_push alloc kcp sn ts = Inr kcp'" "ack_inv kcp'"
    "acks kcp' = acks kcp @ [(sn, ts)]"
    "kcp' = kcp\<lparr>k_ackblock := b, k_acklist := a, k_ackcount := k_ackcount kcp + 1\<rparr>"
    using ack_push_ok [OF assms] by metis
  moreover have "unat (k_ackcount kcp + 1) = unat (k_ackcount kcp) + 1"
    using assms(3) by (simp add: unat_word_ariths)
  ultimately show ?thesis by simp
qed

theorem ack_push_refines_witness:
  "\<exists>kcp'. ikcp_ack_push (\<lambda>_. True) flight_kcp 9 77 = Inr kcp' \<and> acks kcp' = [(9, 77)]"
proof -
  have "ack_inv flight_kcp" and c: "k_ackcount flight_kcp = 0"
    using flight_inv by (simp_all add: kcp_inv_def flight_kcp_def ikcp_create_def)
  with ack_push_refines [of flight_kcp "\<lambda>_. True" 9 77] show ?thesis
    by (auto simp: acks_def)
qed

end
