(* ===== verification/Kcp_Input.thy ===== *)
theory Kcp_Input
  imports Kcp_Recv Kcp_Ack
begin

text \<open>
  \<open>ikcp_input\<close> of \<open>src/kcp_learn/ikcp.c\<close>: the parser that takes a datagram apart and feeds
  its segments to the acknowledgement and receiving parts, followed by the fast-retransmit
  count and the growth of the congestion window. The main result is robustness: on every
  byte string the function returns, without a fault, one of its documented codes and leaves
  a well-formed control block.
\<close>

section \<open>Definitions\<close>

text \<open>The branch for an acknowledgement.\<close>

definition input_ack :: "ikcpcb \<Rightarrow> seg_header \<Rightarrow> ikcpcb" where
  "input_ack kcp h =
     (let kcp = (if itimediff (k_current kcp) (h_ts h) \<ge> 0
                 then ikcp_update_ack kcp (itimediff (k_current kcp) (h_ts h)) else kcp)
      in ikcp_shrink_buf (ikcp_parse_ack kcp (h_sn h)))"

text \<open>The segment a data header describes, with the first \<open>len\<close> bytes behind the header.\<close>

definition input_seg :: "seg_header \<Rightarrow> byte list \<Rightarrow> ikcpseg" where
  "input_seg h data =
     \<lparr>sg_conv = h_conv h, sg_cmd = ucast (h_cmd h), sg_frg = ucast (h_frg h),
      sg_wnd = ucast (h_wnd h), sg_ts = h_ts h, sg_sn = h_sn h, sg_una = h_una h,
      sg_len = h_len h, sg_resendts = 0, sg_rto = 0, sg_fastack = 0, sg_xmit = 0,
      sg_data = take (unat (h_len h)) data\<rparr>"

text \<open>The branch for data. The allocation of the segment is not checked in C.\<close>

definition input_push :: "(nat \<Rightarrow> bool) \<Rightarrow> ikcpcb \<Rightarrow> seg_header \<Rightarrow> byte list \<Rightarrow> kcp_fault + ikcpcb" where
  "input_push alloc kcp h data =
     (if itimediff (h_sn h) (k_rcv_nxt kcp + k_rcv_wnd kcp) < 0
      then case ikcp_ack_push alloc kcp (h_sn h) (h_ts h) of
             Inl f \<Rightarrow> Inl f
           | Inr kcp \<Rightarrow>
               if itimediff (h_sn h) (k_rcv_nxt kcp) \<ge> 0
               then if \<not> alloc (SIZEOF_IKCPSEG + unat (h_len h)) then Inl Null_deref
                    else Inr (ikcp_parse_data kcp (input_seg h data))
               else Inr kcp
      else Inr kcp)"

text \<open>How the parsing loop is left: by a return inside it, at its end, or by a fault.\<close>

datatype input_end =
    Return ikcpcb int
  | Leave ikcpcb bool u32 u32
  | Fault kcp_fault

text \<open>
  The loop over the segments of a datagram: \<open>data\<close> holds the \<open>size\<close> bytes that are left,
  \<open>flag\<close>, \<open>maxack\<close> and \<open>latest_ts\<close> are the loop's variables.
\<close>

function input_loop :: "(nat \<Rightarrow> bool) \<Rightarrow> ikcpcb \<Rightarrow> byte list \<Rightarrow> bool \<Rightarrow> u32 \<Rightarrow> u32 \<Rightarrow> input_end" where
  "input_loop alloc kcp data flag maxack latest_ts =
     (case ikcp_decode_header data of
        None \<Rightarrow> Leave kcp flag maxack latest_ts
      | Some (h, data') \<Rightarrow>
          let cmd = (ucast (h_cmd h) :: u32)
          in if h_conv h \<noteq> k_conv kcp then Return kcp (-1)
          else if int (length data') < uint (h_len h) \<or> sint (h_len h) < 0 then Return kcp (-2)
          else if cmd \<noteq> IKCP_CMD_PUSH \<and> cmd \<noteq> IKCP_CMD_ACK \<and>
                  cmd \<noteq> IKCP_CMD_WASK \<and> cmd \<noteq> IKCP_CMD_WINS then Return kcp (-3)
          else let kcp = kcp\<lparr>k_rmt_wnd := ucast (h_wnd h)\<rparr>;
                   kcp = ikcp_shrink_buf (ikcp_parse_una kcp (h_una h));
                   rest = drop (unat (h_len h)) data'
          in if cmd = IKCP_CMD_ACK
             then let kcp = input_ack kcp h
                  in if \<not> flag then input_loop alloc kcp rest True (h_sn h) (h_ts h)
                     else if itimediff (h_sn h) maxack > 0
                     then input_loop alloc kcp rest True (h_sn h) (h_ts h)
                     else input_loop alloc kcp rest True maxack latest_ts
             else if cmd = IKCP_CMD_PUSH
             then case input_push alloc kcp h data' of
                    Inl f \<Rightarrow> Fault f
                  | Inr kcp \<Rightarrow> input_loop alloc kcp rest flag maxack latest_ts
             else if cmd = IKCP_CMD_WASK
             then input_loop alloc (kcp\<lparr>k_probe := k_probe kcp OR IKCP_ASK_TELL\<rparr>) rest
                    flag maxack latest_ts
             else input_loop alloc kcp rest flag maxack latest_ts)"
  by pat_completeness auto
termination
  by (relation "measure (\<lambda>(alloc, kcp, data, flag, maxack, latest_ts). length data)")
    (auto dest!: decode_header_length)

declare input_loop.simps [simp del]

text \<open>The growth of the congestion window once \<open>snd_una\<close> has moved.\<close>

definition input_cwnd :: "u32 \<Rightarrow> ikcpcb \<Rightarrow> ikcpcb" where
  "input_cwnd prev_una kcp =
     (if itimediff (k_snd_una kcp) prev_una > 0 \<and> k_cwnd kcp < k_rmt_wnd kcp
      then let mss = k_mss kcp;
               kcp = (if k_cwnd kcp < k_ssthresh kcp
                      then kcp\<lparr>k_cwnd := k_cwnd kcp + 1, k_incr := k_incr kcp + mss\<rparr>
                      else let incr = (if k_incr kcp < mss then mss else k_incr kcp);
                               incr = incr + ((mss * mss) div incr + mss div 16)
                           in if (k_cwnd kcp + 1) * mss \<le> incr
                              then kcp\<lparr>k_incr := incr,
                                       k_cwnd := (incr + mss - 1) div (if mss > 0 then mss else 1)\<rparr>
                              else kcp\<lparr>k_incr := incr\<rparr>)
           in if k_cwnd kcp > k_rmt_wnd kcp
              then kcp\<lparr>k_cwnd := k_rmt_wnd kcp, k_incr := k_rmt_wnd kcp * mss\<rparr>
              else kcp
      else kcp)"

definition ikcp_input :: "(nat \<Rightarrow> bool) \<Rightarrow> ikcpcb \<Rightarrow> byte list \<Rightarrow> kcp_fault + (ikcpcb \<times> int)" where
  "ikcp_input alloc kcp data =
     (let prev_una = k_snd_una kcp
      in if int (length data) < sint IKCP_OVERHEAD then Inr (kcp, -1)
         else case input_loop alloc kcp data False 0 0 of
                Fault f \<Rightarrow> Inl f
              | Return kcp rc \<Rightarrow> Inr (kcp, rc)
              | Leave kcp flag maxack latest_ts \<Rightarrow>
                  let kcp = (if flag then ikcp_parse_fastack kcp maxack latest_ts else kcp)
                  in Inr (input_cwnd prev_una kcp, 0))"

section \<open>The parts keep the invariant\<close>

lemma parse_una_inv: "kcp_inv kcp \<Longrightarrow> kcp_inv (ikcp_parse_una kcp una)"
  using snd_inv_parse_una [of kcp una]
  by (auto simp: kcp_inv_def ikcp_parse_una_def split: prod.splits)

lemma shrink_inv: "kcp_inv kcp \<Longrightarrow> kcp_inv (ikcp_shrink_buf kcp)"
  using snd_inv_shrink [of kcp]
  by (auto simp: kcp_inv_def ikcp_shrink_buf_def split: list.splits)

lemma parse_ack_inv: "kcp_inv kcp \<Longrightarrow> kcp_inv (ikcp_parse_ack kcp sn)"
  using snd_inv_parse_ack [of kcp sn]
  by (auto simp: kcp_inv_def ikcp_parse_ack_def split: prod.splits if_splits)

lemma fastack_inv: "kcp_inv kcp \<Longrightarrow> kcp_inv (ikcp_parse_fastack kcp sn ts)"
  using snd_inv_fastack [of kcp sn ts]
  by (auto simp: kcp_inv_def ikcp_parse_fastack_def split: if_splits)

lemma input_ack_inv: "kcp_inv kcp \<Longrightarrow> kcp_inv (input_ack kcp h)"
  by (auto simp: input_ack_def Let_def intro!: shrink_inv parse_ack_inv update_ack_inv)

lemma input_cwnd_inv: "kcp_inv (input_cwnd una kcp) = kcp_inv kcp"
  by (simp add: input_cwnd_def Let_def)

lemma rmt_wnd_inv: "kcp_inv kcp \<Longrightarrow> kcp_inv (kcp\<lparr>k_rmt_wnd := ucast (w :: u16)\<rparr>)"
proof -
  have "unat (ucast w :: u32) < 2 ^ 16"
    using unsigned_less [of w, where 'a = nat] by (simp add: unat_u32_of_u16)
  then show "kcp_inv kcp \<Longrightarrow> ?thesis"
    by (simp add: kcp_inv_defs)
qed

lemma move_frame [frame_simps]:
  "snd_inv (move_rcv_buf buf kcp) = snd_inv kcp" "ack_inv (move_rcv_buf buf kcp) = ack_inv kcp"
  "cfg_inv (move_rcv_buf buf kcp) = cfg_inv kcp" "k_ackcount (move_rcv_buf buf kcp) = k_ackcount kcp"
  by (induction buf kcp rule: move_rcv_buf.induct) auto

lemma parse_data_frame [frame_simps]:
  "snd_inv (ikcp_parse_data kcp s) = snd_inv kcp" "ack_inv (ikcp_parse_data kcp s) = ack_inv kcp"
  "cfg_inv (ikcp_parse_data kcp s) = cfg_inv kcp" "k_ackcount (ikcp_parse_data kcp s) = k_ackcount kcp"
  by (auto simp: ikcp_parse_data_def Let_def frame_simps split: option.splits)

lemma parse_data_inv: "kcp_inv kcp \<Longrightarrow> seg_ok s \<Longrightarrow> kcp_inv (ikcp_parse_data kcp s)"
  by (simp add: kcp_inv_def frame_simps parse_data_rcv_inv)

lemma input_seg_ok: "unat (h_len h) \<le> length data \<Longrightarrow> seg_ok (input_seg h data)"
  by (simp add: seg_ok_def input_seg_def)

lemma ack_push_inv:
  assumes "kcp_inv kcp" and "\<forall>n. alloc n" and "unat (k_ackcount kcp) < 2 ^ 31"
  shows "\<exists>kcp'. ikcp_ack_push alloc kcp sn ts = Inr kcp' \<and> kcp_inv kcp' \<and>
    unat (k_ackcount kcp') = unat (k_ackcount kcp) + 1"
proof -
  have "ack_inv kcp" using assms(1) by (simp add: kcp_inv_def)
  then obtain kcp' a b where push: "ikcp_ack_push alloc kcp sn ts = Inr kcp'" "ack_inv kcp'"
    and k': "kcp' = kcp\<lparr>k_ackblock := b, k_acklist := a, k_ackcount := k_ackcount kcp + 1\<rparr>"
    using ack_push_ok [OF _ assms(2,3)] by metis
  have "kcp_inv kcp'"
    using assms(1) push(2) k' by (simp add: kcp_inv_def rcv_inv_def snd_inv_def cfg_inv_def)
  moreover have "unat (k_ackcount kcp') = unat (k_ackcount kcp) + 1"
    using assms(3) k' by (simp add: unat_word_ariths)
  ultimately show ?thesis using push(1) by blast
qed

lemma input_push_ok:
  assumes "kcp_inv kcp" and "\<forall>n. alloc n" and "unat (k_ackcount kcp) < 2 ^ 31"
    and "unat (h_len h) \<le> length data"
  shows "\<exists>kcp'. input_push alloc kcp h data = Inr kcp' \<and> kcp_inv kcp' \<and>
    unat (k_ackcount kcp') \<le> unat (k_ackcount kcp) + 1"
proof -
  obtain kcp1 where push: "ikcp_ack_push alloc kcp (h_sn h) (h_ts h) = Inr kcp1"
    and inv1: "kcp_inv kcp1" and cnt: "unat (k_ackcount kcp1) = unat (k_ackcount kcp) + 1"
    using ack_push_inv [OF assms(1-3)] by blast
  have "kcp_inv (ikcp_parse_data kcp1 (input_seg h data))"
    by (rule parse_data_inv [OF inv1 input_seg_ok [OF assms(4)]])
  then show ?thesis
    using push inv1 cnt assms(1,2) by (auto simp: input_push_def frame_simps)
qed

section \<open>The parsing loop\<close>

lemma shrink_ackcount [frame_simps]: "k_ackcount (ikcp_shrink_buf kcp) = k_ackcount kcp"
  by (simp add: ikcp_shrink_buf_def split: list.splits)

lemma parse_ack_ackcount [frame_simps]: "k_ackcount (ikcp_parse_ack kcp sn) = k_ackcount kcp"
  by (simp add: ikcp_parse_ack_def split: prod.splits)

lemma parse_una_ackcount [frame_simps]: "k_ackcount (ikcp_parse_una kcp una) = k_ackcount kcp"
  by (simp add: ikcp_parse_una_def split: prod.splits)

lemma update_ack_ackcount [frame_simps]: "k_ackcount (ikcp_update_ack kcp rtt) = k_ackcount kcp"
  by (simp add: ikcp_update_ack_def Let_def)

lemma input_ack_ackcount [frame_simps]: "k_ackcount (input_ack kcp h) = k_ackcount kcp"
  by (simp add: input_ack_def Let_def frame_simps update_ack_ackcount)

text \<open>What the loop promises about the way it ends.\<close>

fun input_end_ok :: "input_end \<Rightarrow> bool" where
  "input_end_ok (Return kcp rc) \<longleftrightarrow> kcp_inv kcp \<and> rc \<in> {-1, -2, -3}"
| "input_end_ok (Leave kcp flag maxack latest_ts) \<longleftrightarrow> kcp_inv kcp"
| "input_end_ok (Fault f) \<longleftrightarrow> False"

lemma input_loop_ok:
  assumes "\<forall>n. alloc n" and "kcp_inv kcp"
    and "unat (k_ackcount kcp) + length data div 24 < 2 ^ 31"
  shows "input_end_ok (input_loop alloc kcp data flag maxack latest_ts)"
  using assms(2,3)
proof (induction "length data" arbitrary: kcp data flag maxack latest_ts rule: less_induct)
  case less
  show ?case
  proof (cases "ikcp_decode_header data")
    case None
    then show ?thesis using less.prems by (simp add: input_loop.simps)
  next
    case (Some r)
    obtain h data' where r: "r = (h, data')" by force
    have len: "length data = length data' + 24"
      using decode_header_length [of data h data'] Some r by simp
    define kcp1 where
      "kcp1 = ikcp_shrink_buf (ikcp_parse_una (kcp\<lparr>k_rmt_wnd := ucast (h_wnd h)\<rparr>) (h_una h))"
    define rest where "rest = drop (unat (h_len h)) data'"
    have inv1: "kcp_inv kcp1" and cnt1: "k_ackcount kcp1 = k_ackcount kcp"
      using less.prems by (auto simp: kcp1_def frame_simps intro!: shrink_inv parse_una_inv rmt_wnd_inv)
    have short: "length rest < length data" "length rest div 24 + 1 \<le> length data div 24"
      using len div_le_mono [of "length rest" "length data'" 24] by (auto simp: rest_def)
    have again: "input_end_ok (input_loop alloc k rest f m t)"
      if "kcp_inv k" "unat (k_ackcount k) \<le> unat (k_ackcount kcp) + 1" for k f m t
      using less.hyps [OF short(1) that(1)] that(2) less.prems(2) short(2) by simp
    have ack: "kcp_inv (input_ack kcp1 h)" and "k_ackcount (input_ack kcp1 h) = k_ackcount kcp"
      using input_ack_inv [OF inv1] cnt1 by (auto simp: frame_simps)
    then have acks: "input_end_ok (input_loop alloc (input_ack kcp1 h) rest f m t)" for f m t
      using again by simp
    have wask: "input_end_ok (input_loop alloc (kcp1\<lparr>k_probe := p\<rparr>) rest f m t)"
      and wins: "input_end_ok (input_loop alloc kcp1 rest f m t)" for p f m t
      using again inv1 cnt1 by simp_all
    note unfold = input_loop.simps [of alloc kcp data flag maxack latest_ts, unfolded Some r
        option.case prod.case Let_def, folded kcp1_def rest_def]
    show ?thesis
    proof (cases "h_conv h \<noteq> k_conv kcp \<or> int (length data') < uint (h_len h) \<or> sint (h_len h) < 0")
      case True
      then show ?thesis using less.prems(1) by (subst unfold) auto
    next
      case False
      then have "unat (h_len h) \<le> length data'"
        using of_nat_le_iff [of "unat (h_len h)" "length data'", where 'a = int] by simp
      then obtain k where push: "input_push alloc kcp1 h data' = Inr k"
        and "kcp_inv k" "unat (k_ackcount k) \<le> unat (k_ackcount kcp1) + 1"
        using input_push_ok [OF inv1 assms(1)] less.prems(2) cnt1 by fastforce
      then have pushed: "input_end_ok (input_loop alloc k rest f m t)" for f m t
        using again cnt1 by simp
      show ?thesis
        using False less.prems(1) acks pushed wask wins by (subst unfold) (simp add: push)
    qed
  qed
qed

section \<open>Properties\<close>

text \<open>
  C20. Robustness of \<open>ikcp_input\<close>: on every byte string, also one that no peer would send, a
  well-formed block with a working allocator takes it without a fault (no assertion, no
  write outside the acknowledgement array, no endless loop), returns 0 or one of the codes
  -1, -2 and -3, and is well-formed afterwards. The bound on pending acknowledgements is the
  one up to which the doubling loop of \<open>ikcp_ack_push\<close> ends.
\<close>

theorem input_robust:
  assumes "kcp_inv kcp" and "\<forall>n. alloc n"
    and "unat (k_ackcount kcp) + length data div 24 < 2 ^ 31"
  shows "\<exists>kcp' rc. ikcp_input alloc kcp data = Inr (kcp', rc) \<and> kcp_inv kcp' \<and>
    rc \<in> {0, -1, -2, -3}"
proof -
  have "input_end_ok (input_loop alloc kcp data False 0 0)"
    by (rule input_loop_ok [OF assms(2,1,3)])
  with assms(1) show ?thesis
    by (cases "input_loop alloc kcp data False 0 0")
      (auto simp: ikcp_input_def Let_def input_cwnd_inv fastack_inv)
qed

theorem input_robust_witness:
  "\<exists>kcp' rc. ikcp_input (\<lambda>_. True) flight_kcp (replicate 100 255) = Inr (kcp', rc) \<and> kcp_inv kcp'"
proof -
  have "unat (k_ackcount flight_kcp) + length (replicate 100 (255 :: byte)) div 24 < 2 ^ 31"
    by (simp add: flight_kcp_def ikcp_create_def)
  from input_robust [OF flight_inv _ this, of "\<lambda>_. True"] show ?thesis
    by blast
qed

text \<open>
  The congestion window after an acknowledgement: it changes only when \<open>snd_una\<close> has
  moved and the window is below the peer's, it never passes the peer's window, and during
  slow start it grows by exactly one segment.
\<close>

theorem input_cwnd_growth:
  assumes "k_cwnd kcp \<le> k_rmt_wnd kcp"
  shows "k_cwnd (input_cwnd prev_una kcp) \<le> k_rmt_wnd kcp \<and>
    (itimediff (k_snd_una kcp) prev_una > 0 \<and> k_cwnd kcp < k_rmt_wnd kcp \<and>
       k_cwnd kcp < k_ssthresh kcp \<longrightarrow> k_cwnd (input_cwnd prev_una kcp) = k_cwnd kcp + 1) \<and>
    (itimediff (k_snd_una kcp) prev_una \<le> 0 \<or> k_cwnd kcp = k_rmt_wnd kcp \<longrightarrow>
       input_cwnd prev_una kcp = kcp)"
proof -
  have "k_cwnd kcp + 1 \<le> k_rmt_wnd kcp" if "k_cwnd kcp < k_rmt_wnd kcp"
    using that by (rule inc_le)
  with assms show ?thesis
    by (auto simp: input_cwnd_def Let_def not_less)
qed

theorem input_cwnd_growth_witness:
  "k_cwnd (input_cwnd (- 2) flight_kcp) = 1"
  using input_cwnd_growth [of flight_kcp "- 2"]
  by (simp add: flight_kcp_def ikcp_create_def kcp_defs itimediff_def)

end
