(* ===== verification/Kcp_Flush.thy ===== *)
theory Kcp_Flush
  imports Kcp_Ack
begin

text \<open>
  \<open>ikcp_output\<close>, \<open>ikcp_flush\<close>, \<open>ikcp_update\<close> and \<open>ikcp_check\<close> of \<open>src/kcp_learn/ikcp.c\<close>:
  what a control block puts on the wire and when. The output buffer is the list of bytes
  between \<open>buffer\<close> and \<open>ptr\<close>; a store behind the allocated capacity is the fault \<open>Overrun\<close>.
  The datagrams handed to the output callback are collected in the order of the calls.
\<close>

section \<open>Definitions\<close>

definition ikcp_output :: "ikcpcb \<Rightarrow> byte list \<Rightarrow> byte list list \<Rightarrow> kcp_fault + byte list list" where
  "ikcp_output kcp data out =
     (if \<not> k_output kcp then Inl Assertion
      else if length data = 0 then Inr out
      else Inr (out @ [data]))"

text \<open>
  The step that \<open>ikcp_flush\<close> repeats for every segment: hand the buffer over when the
  segment no longer fits the datagram, then encode the segment behind what is there.
\<close>

definition flush_put :: "ikcpcb \<Rightarrow> ikcpseg \<Rightarrow> byte list \<Rightarrow> byte list list \<Rightarrow>
    kcp_fault + (byte list \<times> byte list list)" where
  "flush_put kcp seg buf out =
     (let size = int (length buf);
          need = sint (IKCP_OVERHEAD + sg_len seg)
      in case (if size + need > sint (k_mtu kcp)
               then case ikcp_output kcp buf out of
                      Inl f \<Rightarrow> Inl f
                    | Inr out \<Rightarrow> Inr ([], out)
               else Inr (buf, out)) of
           Inl f \<Rightarrow> Inl f
         | Inr (buf, out) \<Rightarrow>
             let buf = ikcp_encode_seg buf seg @ sg_data seg
             in if length buf > k_bufcap kcp then Inl Overrun else Inr (buf, out))"

text \<open>The acknowledgements, from the \<open>i\<close>-th on; \<open>n\<close> of them are left.\<close>

fun flush_acks :: "ikcpcb \<Rightarrow> nat \<Rightarrow> nat \<Rightarrow> ikcpseg \<Rightarrow> byte list \<Rightarrow> byte list list \<Rightarrow>
    kcp_fault + (ikcpseg \<times> byte list \<times> byte list list)" where
  "flush_acks kcp 0 i seg buf out = Inr (seg, buf, out)"
| "flush_acks kcp (Suc n) i seg buf out =
     (case ikcp_ack_get kcp i of
        None \<Rightarrow> Inl Overrun
      | Some (sn, ts) \<Rightarrow>
          let seg = seg\<lparr>sg_sn := sn, sg_ts := ts\<rparr>
          in case flush_put kcp seg buf out of
               Inl f \<Rightarrow> Inl f
             | Inr (buf, out) \<Rightarrow> flush_acks kcp n (Suc i) seg buf out)"

text \<open>The timer of the window probe.\<close>

definition flush_probe :: "ikcpcb \<Rightarrow> ikcpcb" where
  "flush_probe kcp =
     (if k_rmt_wnd kcp = 0
      then if k_probe_wait kcp = 0
           then kcp\<lparr>k_probe_wait := IKCP_PROBE_INIT, k_ts_probe := k_current kcp + IKCP_PROBE_INIT\<rparr>
           else if itimediff (k_current kcp) (k_ts_probe kcp) \<ge> 0
           then let wait = (if k_probe_wait kcp < IKCP_PROBE_INIT then IKCP_PROBE_INIT
                            else k_probe_wait kcp);
                    wait = wait + wait div 2;
                    wait = (if wait > IKCP_PROBE_LIMIT then IKCP_PROBE_LIMIT else wait)
                in kcp\<lparr>k_probe_wait := wait, k_ts_probe := k_current kcp + wait,
                       k_probe := k_probe kcp OR IKCP_ASK_SEND\<rparr>
           else kcp
      else kcp\<lparr>k_ts_probe := 0, k_probe_wait := 0\<rparr>)"

text \<open>A window command, sent when its bit of \<open>probe\<close> is set.\<close>

definition flush_cmd :: "ikcpcb \<Rightarrow> u32 \<Rightarrow> u32 \<Rightarrow> ikcpseg \<Rightarrow> byte list \<Rightarrow> byte list list \<Rightarrow>
    kcp_fault + (ikcpseg \<times> byte list \<times> byte list list)" where
  "flush_cmd kcp ask cmd seg buf out =
     (if k_probe kcp AND ask \<noteq> 0
      then let seg = seg\<lparr>sg_cmd := cmd\<rparr>
           in case flush_put kcp seg buf out of
                Inl f \<Rightarrow> Inl f
              | Inr (buf, out) \<Rightarrow> Inr (seg, buf, out)
      else Inr (seg, buf, out))"

definition flush_window :: "ikcpcb \<Rightarrow> u32" where
  "flush_window kcp =
     (let cwnd = imin (k_snd_wnd kcp) (k_rmt_wnd kcp)
      in if k_nocwnd kcp = 0 then imin (k_cwnd kcp) cwnd else cwnd)"

text \<open>The loop that moves segments from \<open>snd_queue\<close> to \<open>snd_buf\<close> and numbers them.\<close>

definition flush_new :: "ikcpcb \<Rightarrow> u32 \<Rightarrow> u32 \<Rightarrow> ikcpseg \<Rightarrow> ikcpseg" where
  "flush_new kcp wnd sn newseg =
     newseg\<lparr>sg_conv := k_conv kcp, sg_cmd := IKCP_CMD_PUSH, sg_wnd := wnd,
       sg_ts := k_current kcp, sg_sn := sn, sg_una := k_rcv_nxt kcp,
       sg_resendts := k_current kcp, sg_rto := word_of_int (k_rx_rto kcp),
       sg_fastack := 0, sg_xmit := 0\<rparr>"

fun flush_move :: "u32 \<Rightarrow> u32 \<Rightarrow> ikcpseg list \<Rightarrow> ikcpcb \<Rightarrow> ikcpcb" where
  "flush_move cwnd wnd [] kcp = kcp"
| "flush_move cwnd wnd (newseg # q) kcp =
     (if itimediff (k_snd_nxt kcp) (k_snd_una kcp + cwnd) < 0
      then flush_move cwnd wnd q
        (kcp\<lparr>k_snd_queue := q,
             k_snd_buf := k_snd_buf kcp @ [flush_new kcp wnd (k_snd_nxt kcp) newseg],
             k_nsnd_que := k_nsnd_que kcp - 1, k_nsnd_buf := k_nsnd_buf kcp + 1,
             k_snd_nxt := k_snd_nxt kcp + 1\<rparr>)
      else kcp)"

text \<open>Why a segment of \<open>snd_buf\<close> is sent now, if it is.\<close>

datatype reason = First | Timeout | Fast | Keep

definition flush_reason :: "ikcpcb \<Rightarrow> u32 \<Rightarrow> ikcpseg \<Rightarrow> reason" where
  "flush_reason kcp resent segment =
     (if sg_xmit segment = 0 then First
      else if itimediff (k_current kcp) (sg_resendts segment) \<ge> 0 then Timeout
      else if sg_fastack segment \<ge> resent \<and>
              (sint (sg_xmit segment) \<le> k_fastlimit kcp \<or> k_fastlimit kcp \<le> 0) then Fast
      else Keep)"

text \<open>C division of a signed integer by two rounds towards zero.\<close>

definition half :: "int \<Rightarrow> int" where
  "half i = (if i \<ge> 0 then i div 2 else - ((- i) div 2))"

definition flush_rto :: "ikcpcb \<Rightarrow> ikcpseg \<Rightarrow> u32" where
  "flush_rto kcp segment =
     (if k_nodelay kcp = 0
      then sg_rto segment + imax (sg_rto segment) (word_of_int (k_rx_rto kcp))
      else sg_rto segment +
        word_of_int (half (if k_nodelay kcp < 2 then sint (sg_rto segment) else k_rx_rto kcp)))"

text \<open>The updates of the segment on each branch; the last three are common to all sends.\<close>

definition flush_mark :: "ikcpcb \<Rightarrow> u32 \<Rightarrow> u32 \<Rightarrow> reason \<Rightarrow> ikcpseg \<Rightarrow> ikcpseg" where
  "flush_mark kcp wnd rtomin why segment =
     (let stamp = (\<lambda>s. s\<lparr>sg_ts := k_current kcp, sg_wnd := wnd, sg_una := k_rcv_nxt kcp\<rparr>)
      in case why of
           First \<Rightarrow> stamp (segment\<lparr>sg_xmit := sg_xmit segment + 1, sg_rto := word_of_int (k_rx_rto kcp),
                     sg_resendts := k_current kcp + word_of_int (k_rx_rto kcp) + rtomin\<rparr>)
         | Timeout \<Rightarrow> stamp (segment\<lparr>sg_xmit := sg_xmit segment + 1, sg_rto := flush_rto kcp segment,
                       sg_resendts := k_current kcp + flush_rto kcp segment\<rparr>)
         | Fast \<Rightarrow> stamp (segment\<lparr>sg_xmit := sg_xmit segment + 1, sg_fastack := 0,
                    sg_resendts := k_current kcp + sg_rto segment\<rparr>)
         | Keep \<Rightarrow> segment)"

text \<open>
  The loop over \<open>snd_buf\<close>: \<open>done\<close> is the part of the buffer already passed, \<open>change\<close> and
  \<open>lost\<close> tell the congestion control about fast retransmissions and timeouts.
\<close>

fun flush_data :: "u32 \<Rightarrow> u32 \<Rightarrow> u32 \<Rightarrow> ikcpseg list \<Rightarrow> ikcpseg list \<Rightarrow> ikcpcb \<Rightarrow> nat \<Rightarrow> bool \<Rightarrow>
    byte list \<Rightarrow> byte list list \<Rightarrow> kcp_fault + (ikcpcb \<times> nat \<times> bool \<times> byte list \<times> byte list list)" where
  "flush_data wnd resent rtomin passed [] kcp change lost buf out =
     Inr (kcp\<lparr>k_snd_buf := passed\<rparr>, change, lost, buf, out)"
| "flush_data wnd resent rtomin passed (segment # rest) kcp change lost buf out =
     (let why = flush_reason kcp resent segment;
          segment = flush_mark kcp wnd rtomin why segment
      in if why = Keep
         then flush_data wnd resent rtomin (passed @ [segment]) rest kcp change lost buf out
         else let kcp = (if why = Timeout then kcp\<lparr>k_xmit := k_xmit kcp + 1\<rparr> else kcp);
                  lost = (lost \<or> why = Timeout);
                  change = (if why = Fast then change + 1 else change)
              in case flush_put kcp segment buf out of
                   Inl f \<Rightarrow> Inl f
                 | Inr (buf, out) \<Rightarrow>
                     let kcp = (if sg_xmit segment \<ge> k_dead_link kcp
                                then kcp\<lparr>k_state := - 1\<rparr> else kcp)
                     in flush_data wnd resent rtomin (passed @ [segment]) rest kcp change lost buf out)"

text \<open>The reaction of the congestion control.\<close>

definition flush_cwnd :: "u32 \<Rightarrow> u32 \<Rightarrow> nat \<Rightarrow> bool \<Rightarrow> ikcpcb \<Rightarrow> ikcpcb" where
  "flush_cwnd cwnd resent change lost kcp =
     (let kcp = (if change \<noteq> 0
                 then let inflight = k_snd_nxt kcp - k_snd_una kcp;
                          thresh = (if inflight div 2 < IKCP_THRESH_MIN then IKCP_THRESH_MIN
                                    else inflight div 2)
                      in kcp\<lparr>k_ssthresh := thresh, k_cwnd := thresh + resent,
                             k_incr := (thresh + resent) * k_mss kcp\<rparr>
                 else kcp);
          kcp = (if lost
                 then kcp\<lparr>k_ssthresh := (if cwnd div 2 < IKCP_THRESH_MIN then IKCP_THRESH_MIN
                                         else cwnd div 2),
                          k_cwnd := 1, k_incr := k_mss kcp\<rparr>
                 else kcp)
      in if k_cwnd kcp < 1 then kcp\<lparr>k_cwnd := 1, k_incr := k_mss kcp\<rparr> else kcp)"

text \<open>The header that acknowledgements and window commands share.\<close>

definition flush_seg :: "ikcpcb \<Rightarrow> ikcpseg" where
  "flush_seg kcp =
     \<lparr>sg_conv = k_conv kcp, sg_cmd = IKCP_CMD_ACK, sg_frg = 0, sg_wnd = ikcp_wnd_unused kcp,
      sg_ts = 0, sg_sn = 0, sg_una = k_rcv_nxt kcp, sg_len = 0, sg_resendts = 0, sg_rto = 0,
      sg_fastack = 0, sg_xmit = 0, sg_data = []\<rparr>"

text \<open>
  The acknowledgements and window commands that open every flush; the buffer that is left
  over goes on to the data segments.
\<close>

definition flush_head :: "ikcpcb \<Rightarrow> kcp_fault + (ikcpcb \<times> byte list \<times> byte list list)" where
  "flush_head kcp =
     (case flush_acks kcp (nat (sint (k_ackcount kcp))) 0 (flush_seg kcp) [] [] of
        Inl f \<Rightarrow> Inl f
      | Inr (seg, buf, out) \<Rightarrow>
          let kcp = flush_probe (kcp\<lparr>k_ackcount := 0\<rparr>)
          in case flush_cmd kcp IKCP_ASK_SEND IKCP_CMD_WASK seg buf out of
               Inl f \<Rightarrow> Inl f
             | Inr (seg, buf, out) \<Rightarrow>
                 (case flush_cmd kcp IKCP_ASK_TELL IKCP_CMD_WINS seg buf out of
                    Inl f \<Rightarrow> Inl f
                  | Inr (seg, buf, out) \<Rightarrow> Inr (kcp\<lparr>k_probe := 0\<rparr>, buf, out)))"

definition ikcp_flush :: "ikcpcb \<Rightarrow> kcp_fault + (ikcpcb \<times> byte list list)" where
  "ikcp_flush kcp =
     (if k_updated kcp = 0 then Inr (kcp, [])
      else let wnd = ikcp_wnd_unused kcp
      in case flush_head kcp of
           Inl f \<Rightarrow> Inl f
         | Inr (kcp, buf, out) \<Rightarrow>
             let cwnd = flush_window kcp;
                 kcp = flush_move cwnd wnd (k_snd_queue kcp) kcp;
                 resent = (if k_fastresend kcp > 0 then word_of_int (k_fastresend kcp) else - 1);
                 rtomin = (if k_nodelay kcp = 0 then word_of_int (k_rx_rto kcp div 8) else 0)
             in case flush_data wnd resent rtomin [] (k_snd_buf kcp) kcp 0 False buf out of
                  Inl f \<Rightarrow> Inl f
                | Inr (kcp, change, lost, buf, out) \<Rightarrow>
                    (case (if length buf > 0 then ikcp_output kcp buf out else Inr out) of
                       Inl f \<Rightarrow> Inl f
                     | Inr out \<Rightarrow> Inr (flush_cwnd cwnd resent change lost kcp, out)))"

definition ikcp_update :: "ikcpcb \<Rightarrow> u32 \<Rightarrow> kcp_fault + (ikcpcb \<times> byte list list)" where
  "ikcp_update kcp current =
     (let kcp = kcp\<lparr>k_current := current\<rparr>;
          kcp = (if k_updated kcp = 0 then kcp\<lparr>k_updated := 1, k_ts_flush := current\<rparr> else kcp);
          slap = itimediff (k_current kcp) (k_ts_flush kcp);
          (kcp, slap) = (if slap \<ge> 10000 \<or> slap < -10000
                         then (kcp\<lparr>k_ts_flush := k_current kcp\<rparr>, 0) else (kcp, slap))
      in if slap \<ge> 0
         then let kcp = kcp\<lparr>k_ts_flush := k_ts_flush kcp + k_interval kcp\<rparr>;
                  kcp = (if itimediff (k_current kcp) (k_ts_flush kcp) \<ge> 0
                         then kcp\<lparr>k_ts_flush := k_current kcp + k_interval kcp\<rparr> else kcp)
              in ikcp_flush kcp
         else Inr (kcp, []))"

text \<open>The scan of \<open>ikcp_check\<close>: \<open>None\<close> is the early return at a segment that is due.\<close>

fun check_loop :: "u32 \<Rightarrow> ikcpseg list \<Rightarrow> int \<Rightarrow> int option" where
  "check_loop current [] tm_packet = Some tm_packet"
| "check_loop current (seg # q) tm_packet =
     (let diff = itimediff (sg_resendts seg) current
      in if diff \<le> 0 then None
         else check_loop current q (if diff < tm_packet then diff else tm_packet))"

definition ikcp_check :: "ikcpcb \<Rightarrow> u32 \<Rightarrow> u32" where
  "ikcp_check kcp current =
     (if k_updated kcp = 0 then current
      else let ts_flush = k_ts_flush kcp;
               ts_flush = (if itimediff current ts_flush \<ge> 10000 \<or> itimediff current ts_flush < -10000
                           then current else ts_flush)
      in if itimediff current ts_flush \<ge> 0 then current
         else case check_loop current (k_snd_buf kcp) 2147483647 of
                None \<Rightarrow> current
              | Some tm_packet \<Rightarrow>
                  let tm_flush = itimediff ts_flush current;
                      minimal = (word_of_int (if tm_packet < tm_flush then tm_packet else tm_flush) :: u32);
                      minimal = (if minimal \<ge> k_interval kcp then k_interval kcp else minimal)
                  in current + minimal)"

section \<open>The output buffer\<close>

text \<open>A segment as it stands on the wire, and a buffer that holds whole segments only.\<close>

definition wire :: "ikcpseg \<Rightarrow> byte list" where
  "wire s = ikcp_encode_seg [] s @ sg_data s"

definition packed :: "(ikcpseg \<Rightarrow> bool) \<Rightarrow> nat \<Rightarrow> byte list \<Rightarrow> bool" where
  "packed P mtu d \<longleftrightarrow> length d \<le> mtu \<and> (\<exists>ss. d = concat (map wire ss) \<and> list_all P ss)"

definition outgoing :: "(ikcpseg \<Rightarrow> bool) \<Rightarrow> ikcpcb \<Rightarrow> byte list \<Rightarrow> byte list list \<Rightarrow> bool" where
  "outgoing P kcp buf out \<longleftrightarrow>
     packed P (unat (k_mtu kcp)) buf \<and> (\<forall>d \<in> set out. d \<noteq> [] \<and> packed P (unat (k_mtu kcp)) d)"

text \<open>The segments that fit a datagram, and the blocks all of whose waiting segments do.\<close>

definition fits :: "ikcpcb \<Rightarrow> ikcpseg \<Rightarrow> bool" where
  "fits kcp s \<longleftrightarrow> seg_ok s \<and> 24 + length (sg_data s) \<le> unat (k_mtu kcp)"

definition snd_fit :: "ikcpcb \<Rightarrow> bool" where
  "snd_fit kcp \<longleftrightarrow> (\<forall>s \<in> set (k_snd_buf kcp) \<union> set (k_snd_queue kcp). fits kcp s)"

lemma sint_unat: "unat (w :: u32) < 2 ^ 31 \<Longrightarrow> sint w = int (unat w)"
  using sint_small by simp

lemma nat_sint_le: "nat (sint (w :: u32)) \<le> unat w"
proof (cases "unat w < 2 ^ 31")
  case True
  then show ?thesis by (simp only: sint_unat nat_int)
next
  case False
  then have "sint w < 0" using sint_wdist_neg_iff [of w 0] by (simp add: wdist_def)
  then show ?thesis by simp
qed

lemma length_wire [simp]: "length (wire s) = 24 + length (sg_data s)"
  by (simp add: wire_def)

lemma encode_wire: "ikcp_encode_seg buf s @ sg_data s = buf @ wire s"
  by (subst ikcp_encode_seg_append) (simp add: wire_def)

lemma packed_Nil [simp]: "packed P mtu []"
  by (auto simp: packed_def intro: exI [of _ "[]"])

lemma packed_wire: "P s \<Longrightarrow> 24 + length (sg_data s) \<le> mtu \<Longrightarrow> packed P mtu (wire s)"
  by (auto simp: packed_def intro: exI [of _ "[s]"])

lemma packed_append:
  assumes "packed P mtu buf" and "P s" and "length buf + 24 + length (sg_data s) \<le> mtu"
  shows "packed P mtu (buf @ wire s)"
proof -
  obtain ss where "buf = concat (map wire ss)" "list_all P ss"
    using assms(1) by (auto simp: packed_def)
  then have "buf @ wire s = concat (map wire (ss @ [s])) \<and> list_all P (ss @ [s])"
    using assms(2) by simp
  moreover have "length (buf @ wire s) \<le> mtu"
    using assms(3) by simp
  ultimately show ?thesis unfolding packed_def by blast
qed

lemma flush_put_ok:
  assumes "cfg_inv kcp" and "k_output kcp" and "fits kcp seg" and "P seg" and "outgoing P kcp buf out"
  shows "\<exists>buf' out'. flush_put kcp seg buf out = Inr (buf', out') \<and> outgoing P kcp buf' out' \<and>
    concat out' @ buf' = concat out @ buf @ wire seg"
proof -
  define n where "n = length (sg_data seg)"
  define mtu where "mtu = unat (k_mtu kcp)"
  have mtu: "mtu < 2 ^ 30" "k_bufcap kcp = (mtu + 24) * 3" "24 + n \<le> mtu" "unat (sg_len seg) = n"
    using assms(1,3) by (auto simp: cfg_inv_def fits_def seg_ok_def buffer_bytes_eq n_def mtu_def)
  have "unat (IKCP_OVERHEAD + sg_len seg) = 24 + n"
    using mtu by (simp add: kcp_defs unat_word_ariths)
  moreover have "24 + n < 2 ^ 31" using mtu(1,3) by simp
  ultimately have need: "sint (IKCP_OVERHEAD + sg_len seg) = int (24 + n)"
    using sint_unat [of "IKCP_OVERHEAD + sg_len seg"] by (simp only:)
  have smtu: "sint (k_mtu kcp) = int mtu"
    using mtu(1) sint_unat [of "k_mtu kcp", folded mtu_def] by simp
  have buf: "packed P mtu buf" "\<forall>d \<in> set out. d \<noteq> [] \<and> packed P mtu d" "length buf \<le> mtu"
    using assms(5) by (auto simp: outgoing_def packed_def mtu_def)
  show ?thesis
  proof (cases "length buf + 24 + n > mtu")
    case True
    have put: "flush_put kcp seg buf out = Inr (wire seg, if buf = [] then out else out @ [buf])"
      using True mtu assms(2)
      by (simp add: flush_put_def Let_def need smtu ikcp_output_def encode_wire flip: n_def)
    have "outgoing P kcp (wire seg) (if buf = [] then out else out @ [buf])"
      using buf mtu(3) assms(4) by (auto simp: outgoing_def n_def mtu_def intro: packed_wire)
    with put show ?thesis by auto
  next
    case False
    have put: "flush_put kcp seg buf out = Inr (buf @ wire seg, out)"
      using False mtu
      by (simp add: flush_put_def Let_def need smtu encode_wire flip: n_def)
    have "outgoing P kcp (buf @ wire seg) out"
      using buf False assms(4) by (auto simp: outgoing_def n_def mtu_def intro: packed_append)
    with put show ?thesis by auto
  qed
qed

section \<open>Acknowledgements and window commands\<close>

text \<open>The control segments that one flush may send.\<close>

definition control :: "ikcpcb \<Rightarrow> ikcpseg \<Rightarrow> bool" where
  "control kcp s \<longleftrightarrow>
     s = (flush_seg kcp)\<lparr>sg_sn := sg_sn s, sg_ts := sg_ts s, sg_cmd := sg_cmd s\<rparr> \<and>
     sg_cmd s \<in> {IKCP_CMD_ACK, IKCP_CMD_WASK, IKCP_CMD_WINS}"

lemma control_fits: "cfg_inv kcp \<Longrightarrow> control kcp s \<Longrightarrow> fits kcp s"
  by (cases s) (auto simp: control_def fits_def flush_seg_def seg_ok_def cfg_inv_def)

lemma control_ack: "control kcp ((flush_seg kcp)\<lparr>sg_sn := sn, sg_ts := ts\<rparr>)"
  by (simp add: control_def flush_seg_def)

definition ack_seg :: "ikcpcb \<Rightarrow> u32 \<times> u32 \<Rightarrow> ikcpseg" where
  "ack_seg kcp a = (flush_seg kcp)\<lparr>sg_sn := fst a, sg_ts := snd a\<rparr>"

lemma flush_acks_ok:
  assumes "cfg_inv kcp" and "k_output kcp" and "ack_inv kcp" and "\<forall>s. control kcp s \<longrightarrow> P s"
  shows "i + n \<le> unat (k_ackcount kcp) \<Longrightarrow> seg = ack_seg kcp a \<Longrightarrow> outgoing P kcp buf out \<Longrightarrow>
    \<exists>a' buf' out'. flush_acks kcp n i seg buf out = Inr (ack_seg kcp a', buf', out') \<and>
      outgoing P kcp buf' out' \<and>
      concat out' @ buf' =
        concat out @ buf @ concat (map (wire \<circ> ack_seg kcp) (take n (drop i (acks kcp))))"
proof (induction n arbitrary: i a seg buf out)
  case 0
  then show ?case by (intro exI [of _ a]) simp
next
  case (Suc n)
  have "i < unat (k_ackcount kcp)" using Suc.prems(1) by simp
  then obtain sn ts where get: "ikcp_ack_get kcp i = Some (sn, ts)"
    using assms(3) by (cases "k_acklist kcp") (auto simp: ack_inv_def ikcp_ack_get_def word_le_nat_alt)
  have drop: "drop i (acks kcp) = (sn, ts) # drop (Suc i) (acks kcp)"
    using Suc.prems(1) get by (simp add: acks_def flip: Cons_nth_drop_Suc)
  have "control kcp (ack_seg kcp (sn, ts))"
    by (simp add: ack_seg_def control_ack)
  then obtain buf' out' where put: "flush_put kcp (ack_seg kcp (sn, ts)) buf out = Inr (buf', out')"
    "outgoing P kcp buf' out'" "concat out' @ buf' = concat out @ buf @ wire (ack_seg kcp (sn, ts))"
    using flush_put_ok [OF assms(1,2)] control_fits [OF assms(1)] assms(4) Suc.prems(3) by metis
  have step: "flush_acks kcp (Suc n) i seg buf out =
      flush_acks kcp n (Suc i) (ack_seg kcp (sn, ts)) buf' out'"
    using put(1) Suc.prems(2) by (simp add: get Let_def ack_seg_def)
  obtain a' buf'' out'' where
    "flush_acks kcp n (Suc i) (ack_seg kcp (sn, ts)) buf' out' = Inr (ack_seg kcp a', buf'', out'')"
    "outgoing P kcp buf'' out''"
    "concat out'' @ buf'' =
      (concat out' @ buf') @ concat (map (wire \<circ> ack_seg kcp) (take n (drop (Suc i) (acks kcp))))"
    using Suc.IH [of "Suc i" _ "(sn, ts)", OF _ refl put(2)] Suc.prems(1) by (auto simp: comp_def)
  then show ?case
    unfolding step drop put(3) by (intro exI [of _ a'] exI [of _ buf''] exI [of _ out'']) (simp add: comp_def)
qed

lemma flush_cmd_ok:
  assumes "cfg_inv kcp" and "k_output kcp" and "\<forall>s. control kcp s \<longrightarrow> P s"
    and "control kcp seg" and "cmd \<in> {IKCP_CMD_WASK, IKCP_CMD_WINS}" and "outgoing P kcp buf out"
  shows "\<exists>seg' buf' out'. flush_cmd kcp ask cmd seg buf out = Inr (seg', buf', out') \<and>
    control kcp seg' \<and> outgoing P kcp buf' out'"
proof -
  have "control kcp (seg\<lparr>sg_cmd := cmd\<rparr>)"
    using assms(4,5) by (cases seg) (auto simp: control_def flush_seg_def)
  then show ?thesis
    using flush_put_ok [OF assms(1,2) control_fits [OF assms(1)] _ assms(6)] assms(3,4,6)
    by (fastforce simp: flush_cmd_def Let_def)
qed

text \<open>The block that the head of a flush leaves behind.\<close>

definition headed :: "ikcpcb \<Rightarrow> ikcpcb" where
  "headed kcp = (flush_probe (kcp\<lparr>k_ackcount := 0\<rparr>))\<lparr>k_probe := 0\<rparr>"

lemma headed_simps [simp]:
  "k_snd_una (headed kcp) = k_snd_una kcp" "k_snd_nxt (headed kcp) = k_snd_nxt kcp"
  "k_snd_buf (headed kcp) = k_snd_buf kcp" "k_snd_queue (headed kcp) = k_snd_queue kcp"
  "k_conv (headed kcp) = k_conv kcp" "k_rcv_nxt (headed kcp) = k_rcv_nxt kcp"
  "k_mtu (headed kcp) = k_mtu kcp" "k_output (headed kcp) = k_output kcp"
  "k_ackcount (headed kcp) = 0" "k_probe (headed kcp) = 0" "k_snd_wnd (headed kcp) = k_snd_wnd kcp"
  "k_rmt_wnd (headed kcp) = k_rmt_wnd kcp" "k_cwnd (headed kcp) = k_cwnd kcp"
  "k_nocwnd (headed kcp) = k_nocwnd kcp" "k_current (headed kcp) = k_current kcp"
  "k_rcv_queue (headed kcp) = k_rcv_queue kcp" "k_rcv_buf (headed kcp) = k_rcv_buf kcp"
  by (auto simp: headed_def flush_probe_def Let_def)

lemma ack_inv_reset: "ack_inv kcp \<Longrightarrow> ack_inv (kcp\<lparr>k_ackcount := 0\<rparr>)"
  by (cases "k_acklist kcp") (auto simp: ack_inv_def)

lemma headed_inv: "kcp_inv kcp \<Longrightarrow> kcp_inv (headed kcp)"
proof -
  assume "kcp_inv kcp"
  then have "kcp_inv (kcp\<lparr>k_ackcount := 0\<rparr>)"
    by (simp add: kcp_inv_def ack_inv_reset)
  then show ?thesis
    by (simp add: headed_def flush_probe_def Let_def)
qed

lemma control_probe [simp]:
  "control (flush_probe (kcp\<lparr>k_ackcount := 0\<rparr>)) = control kcp"
  "outgoing P (flush_probe (kcp\<lparr>k_ackcount := 0\<rparr>)) = outgoing P kcp"
  "cfg_inv (flush_probe (kcp\<lparr>k_ackcount := 0\<rparr>)) = cfg_inv kcp"
  "k_output (flush_probe (kcp\<lparr>k_ackcount := 0\<rparr>)) = k_output kcp"
  by (auto simp: control_def outgoing_def flush_seg_def flush_probe_def ikcp_wnd_unused_def
      cfg_inv_def Let_def fun_eq_iff)

lemma flush_head_ok:
  assumes "kcp_inv kcp" and "k_output kcp" and "\<forall>s. control kcp s \<longrightarrow> P s"
  shows "\<exists>buf out. flush_head kcp = Inr (headed kcp, buf, out) \<and> outgoing P kcp buf out"
proof -
  let ?kcp = "flush_probe (kcp\<lparr>k_ackcount := 0\<rparr>)"
  have inv: "cfg_inv kcp" "ack_inv kcp" using assms(1) by (auto simp: kcp_inv_def)
  have cfg: "cfg_inv ?kcp" "k_output ?kcp" and P: "\<forall>s. control ?kcp s \<longrightarrow> P s"
    using inv(1) assms(2,3) by simp_all
  have seg: "flush_seg kcp = ack_seg kcp (0, 0)"
    by (simp add: flush_seg_def ack_seg_def)
  have le: "0 + nat (sint (k_ackcount kcp)) \<le> unat (k_ackcount kcp)"
    using nat_sint_le by simp
  have "outgoing P kcp [] []" by (simp add: outgoing_def)
  from flush_acks_ok [OF inv(1) assms(2) inv(2) assms(3) le seg this] obtain a buf out where
    acks: "flush_acks kcp (nat (sint (k_ackcount kcp))) 0 (flush_seg kcp) [] [] =
      Inr (ack_seg kcp a, buf, out)" and "outgoing P kcp buf out"
    by blast
  moreover have "control ?kcp (ack_seg kcp a)"
    by (simp add: ack_seg_def control_ack)
  ultimately obtain seg' buf' out' where
    cmd1: "flush_cmd ?kcp IKCP_ASK_SEND IKCP_CMD_WASK (ack_seg kcp a) buf out = Inr (seg', buf', out')"
    "control ?kcp seg'" "outgoing P ?kcp buf' out'"
    using flush_cmd_ok [where P = P, OF cfg P] by (metis control_probe(2) insertI1)
  then obtain seg'' buf'' out'' where
    cmd2: "flush_cmd ?kcp IKCP_ASK_TELL IKCP_CMD_WINS seg' buf' out' = Inr (seg'', buf'', out'')"
    "outgoing P ?kcp buf'' out''"
    using flush_cmd_ok [where P = P, OF cfg P] by (metis insertCI)
  then show ?thesis
    using acks cmd1(1) by (simp add: flush_head_def Let_def headed_def)
qed

section \<open>Numbering new segments\<close>

fun new_segs :: "ikcpcb \<Rightarrow> u32 \<Rightarrow> u32 \<Rightarrow> ikcpseg list \<Rightarrow> ikcpseg list" where
  "new_segs kcp wnd sn [] = []"
| "new_segs kcp wnd sn (s # q) = flush_new kcp wnd sn s # new_segs kcp wnd (sn + 1) q"

text \<open>The block after the first \<open>n\<close> queued segments have been numbered.\<close>

definition numbered :: "u32 \<Rightarrow> nat \<Rightarrow> ikcpcb \<Rightarrow> ikcpcb" where
  "numbered wnd n kcp = kcp
     \<lparr>k_snd_queue := drop n (k_snd_queue kcp),
      k_snd_buf := k_snd_buf kcp @ new_segs kcp wnd (k_snd_nxt kcp) (take n (k_snd_queue kcp)),
      k_nsnd_que := k_nsnd_que kcp - of_nat n, k_nsnd_buf := k_nsnd_buf kcp + of_nat n,
      k_snd_nxt := k_snd_nxt kcp + of_nat n\<rparr>"

lemma new_segs_frame:
  "k_conv kcp' = k_conv kcp \<Longrightarrow> k_current kcp' = k_current kcp \<Longrightarrow> k_rcv_nxt kcp' = k_rcv_nxt kcp \<Longrightarrow>
   k_rx_rto kcp' = k_rx_rto kcp \<Longrightarrow> new_segs kcp' wnd sn q = new_segs kcp wnd sn q"
  by (induction q arbitrary: sn) (auto simp: flush_new_def)

lemma numbered_0 [simp]: "numbered wnd 0 kcp = kcp"
  by (simp add: numbered_def)

lemma flush_move_numbered:
  assumes "wdist (k_snd_una kcp) (k_snd_nxt kcp) < 2 ^ 31" and "unat cwnd < 2 ^ 31"
    and "k_snd_queue kcp = q"
  shows "flush_move cwnd wnd q kcp =
    numbered wnd (min (length q) (unat cwnd - wdist (k_snd_una kcp) (k_snd_nxt kcp))) kcp"
  using assms
proof (induction cwnd wnd q kcp rule: flush_move.induct)
  case (1 cwnd wnd kcp)
  then show ?case by simp
next
  case (2 cwnd wnd newseg q kcp)
  let ?d = "wdist (k_snd_una kcp) (k_snd_nxt kcp)"
  have "wdist (k_snd_una kcp) (k_snd_una kcp + cwnd) = unat cwnd"
    by (simp add: wdist_def)
  then have "itimediff (k_snd_nxt kcp) (k_snd_una kcp + cwnd) = int ?d - int (unat cwnd)"
    using itimediff_wdist [of "k_snd_una kcp" "k_snd_nxt kcp" "k_snd_una kcp + cwnd"] 2(2,3) by simp
  then have diff: "itimediff (k_snd_nxt kcp) (k_snd_una kcp + cwnd) < 0 \<longleftrightarrow> ?d < unat cwnd"
    by linarith
  show ?case
  proof (cases "?d < unat cwnd")
    case False
    with diff show ?thesis by simp
  next
    case True
    define kcp1 where "kcp1 = kcp\<lparr>k_snd_queue := q,
             k_snd_buf := k_snd_buf kcp @ [flush_new kcp wnd (k_snd_nxt kcp) newseg],
             k_nsnd_que := k_nsnd_que kcp - 1, k_nsnd_buf := k_nsnd_buf kcp + 1,
             k_snd_nxt := k_snd_nxt kcp + 1\<rparr>"
    have q1: "k_snd_queue kcp1 = q" by (simp add: kcp1_def)
    have d1: "wdist (k_snd_una kcp1) (k_snd_nxt kcp1) = Suc ?d"
      using wdist_shift [of "k_snd_una kcp" "k_snd_nxt kcp" 1] 2(2) by (simp add: kcp1_def)
    have step: "flush_move cwnd wnd (newseg # q) kcp = flush_move cwnd wnd q kcp1"
      using True diff by (simp add: kcp1_def)
    also have "\<dots> = numbered wnd (min (length q) (unat cwnd - Suc ?d)) kcp1"
      using 2(1) [folded kcp1_def] True diff d1 q1 2(3) by simp
    also have "\<dots> = numbered wnd (Suc (min (length q) (unat cwnd - Suc ?d))) kcp"
      using 2(4) new_segs_frame [of kcp1 kcp] by (simp add: numbered_def kcp1_def add.assoc)
    also have "Suc (min (length q) (unat cwnd - Suc ?d)) = min (length (newseg # q)) (unat cwnd - ?d)"
      using True by simp
    finally show ?thesis .
  qed
qed

lemma new_segs_spec:
  "length (new_segs kcp wnd sn q) = length q"
  "map sg_data (new_segs kcp wnd sn q) = map sg_data q"
  "map sg_frg (new_segs kcp wnd sn q) = map sg_frg q"
  "map sg_len (new_segs kcp wnd sn q) = map sg_len q"
  "map sg_sn (new_segs kcp wnd sn q) = map (\<lambda>i. sn + of_nat i) [0..<length q]"
  by (induction q arbitrary: sn) (auto simp: flush_new_def map_upt_Suc add.assoc simp del: upt_Suc)

lemma new_segs_set:
  "s \<in> set (new_segs kcp wnd sn q) \<Longrightarrow>
    \<exists>t i. t \<in> set q \<and> i < length q \<and> s = flush_new kcp wnd (sn + of_nat i) t"
proof (induction q arbitrary: sn)
  case (Cons t q)
  then consider "s = flush_new kcp wnd sn t" | "s \<in> set (new_segs kcp wnd (sn + 1) q)" by auto
  then show ?case
  proof cases
    case 1
    then show ?thesis by (intro exI [of _ t] exI [of _ 0]) simp
  next
    case 2
    then obtain u i where "u \<in> set q" "i < length q" "s = flush_new kcp wnd (sn + 1 + of_nat i) u"
      using Cons.IH by blast
    then show ?thesis by (intro exI [of _ u] exI [of _ "Suc i"]) (simp add: add.assoc)
  qed
qed simp

lemma new_segs_sorted:
  assumes "wdist base sn + length q < 2 ^ 32"
  shows "serial_sorted base (wdist base sn + length q) (new_segs kcp wnd sn q) \<and>
    (\<forall>s \<in> set (new_segs kcp wnd sn q). wdist base sn \<le> wdist base (sg_sn s))"
  using assms
proof (induction q arbitrary: sn)
  case (Cons t q)
  have next1: "wdist base (sn + 1) = Suc (wdist base sn)"
    using wdist_shift [of base sn 1] Cons.prems by simp
  then show ?case
    using Cons.IH [of "sn + 1"] Cons.prems by (auto simp: serial_sorted_Cons flush_new_def Suc_le_eq)
qed simp

lemma numbered_snd_inv:
  assumes "snd_inv kcp" and "n \<le> length (k_snd_queue kcp)"
    and "wdist (k_snd_una kcp) (k_snd_nxt kcp) + n < 2 ^ 16"
  shows "snd_inv (numbered wnd n kcp)"
proof -
  let ?una = "k_snd_una kcp" and ?nxt = "k_snd_nxt kcp"
  let ?new = "new_segs kcp wnd ?nxt (take n (k_snd_queue kcp))"
  have nxt: "wdist ?una (?nxt + of_nat n) = wdist ?una ?nxt + n"
    using assms(3) by (intro wdist_shift) simp
  have old: "serial_sorted ?una (wdist ?una ?nxt) (k_snd_buf kcp)"
    using assms(1) by (simp add: snd_inv_def)
  have new: "serial_sorted ?una (wdist ?una ?nxt + n) ?new"
    "\<forall>s \<in> set ?new. wdist ?una ?nxt \<le> wdist ?una (sg_sn s)"
    using new_segs_sorted [of ?una ?nxt "take n (k_snd_queue kcp)" kcp wnd] assms(2,3) by auto
  have "\<forall>s \<in> set (k_snd_buf kcp). \<forall>t \<in> set ?new. wdist ?una (sg_sn s) < wdist ?una (sg_sn t)"
    using old new(2) unfolding serial_sorted_def by (meson less_le_trans)
  then have "serial_sorted ?una (wdist ?una ?nxt + n) (k_snd_buf kcp @ ?new)"
    using new(1) serial_sorted_mono [OF old, of "wdist ?una ?nxt + n"] by (simp add: serial_sorted_append)
  moreover have "seg_ok s" if "s \<in> set ?new" for s
    using new_segs_set [OF that] assms(1)
    by (auto simp: flush_new_def seg_ok_def snd_inv_def dest: in_set_takeD)
  ultimately show ?thesis
    using assms nxt
    by (auto simp: snd_inv_def numbered_def new_segs_spec of_nat_diff dest: in_set_dropD)
qed

lemma numbered_inv:
  assumes "kcp_inv kcp" and "n \<le> length (k_snd_queue kcp)"
    and "wdist (k_snd_una kcp) (k_snd_nxt kcp) + n < 2 ^ 16"
  shows "kcp_inv (numbered wnd n kcp)"
  using assms numbered_snd_inv [of kcp n wnd] by (simp add: kcp_inv_def numbered_def)

lemma numbered_fit:
  assumes "snd_fit kcp"
  shows "snd_fit (numbered wnd n kcp)"
proof -
  have "fits kcp s" if "s \<in> set (new_segs kcp wnd sn (take n (k_snd_queue kcp)))" for s sn
    using new_segs_set [OF that] assms
    by (auto simp: flush_new_def fits_def seg_ok_def snd_fit_def dest: in_set_takeD)
  with assms show ?thesis
    by (auto simp: snd_fit_def numbered_def fits_def dest: in_set_dropD)
qed

section \<open>Transmission\<close>

definition marked :: "ikcpcb \<Rightarrow> u32 \<Rightarrow> u32 \<Rightarrow> u32 \<Rightarrow> ikcpseg \<Rightarrow> ikcpseg" where
  "marked kcp wnd resent rtomin s = flush_mark kcp wnd rtomin (flush_reason kcp resent s) s"

lemma flush_reason_frame [simp]:
  "flush_reason (kcp\<lparr>k_xmit := a\<rparr>) = flush_reason kcp" "flush_reason (kcp\<lparr>k_state := a\<rparr>) = flush_reason kcp"
  by (simp_all add: flush_reason_def fun_eq_iff)

lemma marked_frame [simp]:
  "marked (kcp\<lparr>k_xmit := a\<rparr>) = marked kcp" "marked (kcp\<lparr>k_state := a\<rparr>) = marked kcp"
  by (simp_all add: marked_def flush_mark_def flush_rto_def fun_eq_iff Let_def split: reason.split)

lemma marked_simps [simp]:
  "sg_sn (marked kcp wnd resent rtomin s) = sg_sn s"
  "sg_data (marked kcp wnd resent rtomin s) = sg_data s"
  "sg_len (marked kcp wnd resent rtomin s) = sg_len s"
  "sg_frg (marked kcp wnd resent rtomin s) = sg_frg s"
  "sg_conv (marked kcp wnd resent rtomin s) = sg_conv s"
  "sg_cmd (marked kcp wnd resent rtomin s) = sg_cmd s"
  by (simp_all add: marked_def flush_mark_def Let_def split: reason.split)

lemma marked_keep: "flush_reason kcp resent s = Keep \<Longrightarrow> marked kcp wnd resent rtomin s = s"
  by (simp add: marked_def flush_mark_def Let_def)

lemma flush_mark_Keep [simp]: "flush_mark kcp wnd rtomin Keep s = s"
  by (simp add: flush_mark_def Let_def)

lemma outgoing_frame [simp]:
  "outgoing P (kcp\<lparr>k_xmit := a\<rparr>) = outgoing P kcp" "outgoing P (kcp\<lparr>k_state := a\<rparr>) = outgoing P kcp"
  "fits (kcp\<lparr>k_xmit := a\<rparr>) = fits kcp" "fits (kcp\<lparr>k_state := a\<rparr>) = fits kcp"
  "cfg_inv (kcp\<lparr>k_xmit := a\<rparr>) = cfg_inv kcp" "cfg_inv (kcp\<lparr>k_state := a\<rparr>) = cfg_inv kcp"
  by (simp_all add: outgoing_def fits_def cfg_inv_def fun_eq_iff)

lemma marked_fits [simp]: "fits kcp (marked kcp' wnd resent rtomin s) = fits kcp s"
  by (simp add: fits_def seg_ok_def)

lemma flush_data_ok:
  assumes "cfg_inv kcp" and "k_output kcp" and "\<forall>s \<in> set rest. fits kcp s"
    and "\<forall>s \<in> set rest. P (marked kcp wnd resent rtomin s)" and "outgoing P kcp buf out"
  shows "\<exists>x st ch lo buf' out'.
    flush_data wnd resent rtomin passed rest kcp change lost buf out =
      Inr (kcp\<lparr>k_xmit := x, k_state := st,
               k_snd_buf := passed @ map (marked kcp wnd resent rtomin) rest\<rparr>, ch, lo, buf', out') \<and>
    outgoing P kcp buf' out' \<and>
    concat out' @ buf' = concat out @ buf @
      concat (map (wire \<circ> marked kcp wnd resent rtomin)
        (filter (\<lambda>s. flush_reason kcp resent s \<noteq> Keep) rest))"
  using assms
proof (induction rest arbitrary: passed kcp change lost buf out)
  case Nil
  then show ?case
    by (intro exI [of _ "k_xmit kcp"] exI [of _ "k_state kcp"] exI [of _ change] exI [of _ lost]
        exI [of _ buf] exI [of _ out]) simp
next
  case (Cons s rest)
  let ?why = "flush_reason kcp resent s" and ?s = "marked kcp wnd resent rtomin s"
  show ?case
  proof (cases "?why = Keep")
    case True
    then show ?thesis
      using Cons.IH [of kcp buf out "passed @ [s]" change lost] Cons.prems
      by (simp add: Let_def marked_keep flip: marked_def)
  next
    case False
    define kcp1 where "kcp1 = (if ?why = Timeout then kcp\<lparr>k_xmit := k_xmit kcp + 1\<rparr> else kcp)"
    define kcp2 where "kcp2 = (if sg_xmit ?s \<ge> k_dead_link kcp1 then kcp1\<lparr>k_state := - 1\<rparr> else kcp1)"
    have frame1: "cfg_inv kcp1" "k_output kcp1" "fits kcp1 ?s" "outgoing P kcp1 buf out"
      using Cons.prems by (simp_all add: kcp1_def)
    obtain buf1 out1 where put: "flush_put kcp1 ?s buf out = Inr (buf1, out1)"
      "outgoing P kcp1 buf1 out1" "concat out1 @ buf1 = concat out @ buf @ wire ?s"
      using flush_put_ok [OF frame1(1-3) _ frame1(4)] Cons.prems(4) by auto
    have frame2: "marked kcp2 = marked kcp" "flush_reason kcp2 = flush_reason kcp"
      "cfg_inv kcp2" "k_output kcp2" "\<forall>t \<in> set rest. fits kcp2 t" "outgoing P kcp2 = outgoing P kcp"
      "outgoing P kcp1 = outgoing P kcp"
      using Cons.prems by (simp_all add: kcp2_def kcp1_def)
    have same: "kcp2\<lparr>k_xmit := x, k_state := st, k_snd_buf := b\<rparr> =
        kcp\<lparr>k_xmit := x, k_state := st, k_snd_buf := b\<rparr>" for x st b
      by (simp add: kcp2_def kcp1_def)
    have P2: "\<forall>t \<in> set rest. P (marked kcp2 wnd resent rtomin t)" and out2: "outgoing P kcp2 buf1 out1"
      using Cons.prems(4) put(2) frame2(1,6,7) by simp_all
    from Cons.IH [OF frame2(3-5) P2 out2, of "passed @ [?s]"
        "if ?why = Fast then change + 1 else change" "lost \<or> ?why = Timeout"]
    obtain x st ch lo buf' out' where
      rec: "flush_data wnd resent rtomin (passed @ [?s]) rest kcp2
          (if ?why = Fast then change + 1 else change) (lost \<or> ?why = Timeout) buf1 out1 =
        Inr (kcp2\<lparr>k_xmit := x, k_state := st,
          k_snd_buf := (passed @ [?s]) @ map (marked kcp2 wnd resent rtomin) rest\<rparr>, ch, lo, buf', out')"
      "outgoing P kcp2 buf' out'"
      "concat out' @ buf' = (concat out1 @ buf1) @
        concat (map (wire \<circ> marked kcp2 wnd resent rtomin)
          (filter (\<lambda>s. flush_reason kcp2 resent s \<noteq> Keep) rest))"
      unfolding append_assoc by blast
    have "flush_data wnd resent rtomin passed (s # rest) kcp change lost buf out =
      flush_data wnd resent rtomin (passed @ [?s]) rest kcp2
          (if ?why = Fast then change + 1 else change) (lost \<or> ?why = Timeout) buf1 out1"
      using False put(1) by (simp add: Let_def flip: marked_def kcp1_def kcp2_def)
    then show ?thesis
      using rec False unfolding put(3) same frame2(1,2,6)
      by (intro exI [of _ x] exI [of _ st] exI [of _ ch] exI [of _ lo] exI [of _ buf'] exI [of _ out'])
        (simp add: comp_def)
  qed
qed

section \<open>The whole flush\<close>

definition resent_of :: "ikcpcb \<Rightarrow> u32" where
  "resent_of kcp = (if k_fastresend kcp > 0 then word_of_int (k_fastresend kcp) else - 1)"

definition rtomin_of :: "ikcpcb \<Rightarrow> u32" where
  "rtomin_of kcp = (if k_nodelay kcp = 0 then word_of_int (k_rx_rto kcp div 8) else 0)"

text \<open>How many queued segments a flush numbers, and the block just before transmission.\<close>

definition new_count :: "ikcpcb \<Rightarrow> nat" where
  "new_count kcp = min (length (k_snd_queue kcp))
     (unat (flush_window kcp) - wdist (k_snd_una kcp) (k_snd_nxt kcp))"

definition before_send :: "ikcpcb \<Rightarrow> ikcpcb" where
  "before_send kcp = numbered (ikcp_wnd_unused kcp) (new_count kcp) (headed kcp)"

definition sent_seg :: "ikcpcb \<Rightarrow> ikcpseg \<Rightarrow> ikcpseg" where
  "sent_seg kcp = marked (before_send kcp) (ikcp_wnd_unused kcp) (resent_of kcp) (rtomin_of kcp)"

lemma flush_window_headed [simp]: "flush_window (headed kcp) = flush_window kcp"
  by (simp add: flush_window_def Let_def)

lemma flush_window_le: "flush_window kcp \<le> k_snd_wnd kcp" "flush_window kcp \<le> k_rmt_wnd kcp"
  by (auto simp: flush_window_def imin_def Let_def)

lemma new_count_le:
  assumes "kcp_inv kcp"
  shows "new_count kcp \<le> length (k_snd_queue kcp)"
    and "wdist (k_snd_una kcp) (k_snd_nxt kcp) + new_count kcp \<le>
      max (wdist (k_snd_una kcp) (k_snd_nxt kcp)) (unat (flush_window kcp))"
    and "wdist (k_snd_una kcp) (k_snd_nxt kcp) + new_count kcp < 2 ^ 16"
proof -
  have "unat (flush_window kcp) < 2 ^ 16" and "wdist (k_snd_una kcp) (k_snd_nxt kcp) < 2 ^ 16"
    using assms flush_window_le(2) [of kcp]
    by (auto simp: kcp_inv_def snd_inv_def word_le_nat_alt)
  then show "wdist (k_snd_una kcp) (k_snd_nxt kcp) + new_count kcp < 2 ^ 16"
    by (auto simp: new_count_def)
qed (auto simp: new_count_def)

lemma flush_move_before:
  assumes "kcp_inv kcp"
  shows "flush_move (flush_window kcp) (ikcp_wnd_unused kcp) (k_snd_queue kcp) (headed kcp) =
    before_send kcp"
proof -
  have "unat (flush_window kcp) < 2 ^ 31" and "wdist (k_snd_una kcp) (k_snd_nxt kcp) < 2 ^ 31"
    using assms flush_window_le(2) [of kcp]
    by (auto simp: kcp_inv_def snd_inv_def word_le_nat_alt)
  then show ?thesis
    by (subst flush_move_numbered) (simp_all add: before_send_def new_count_def)
qed

lemma before_send_inv:
  assumes "kcp_inv kcp"
  shows "kcp_inv (before_send kcp)"
  using new_count_le [OF assms] headed_inv [OF assms] unfolding before_send_def
  by (intro numbered_inv) auto

lemma before_send_fit: "snd_fit kcp \<Longrightarrow> snd_fit (before_send kcp)"
  unfolding before_send_def
  by (rule numbered_fit) (simp add: snd_fit_def fits_def)

lemma before_send_simps [simp]:
  "k_mtu (before_send kcp) = k_mtu kcp" "k_output (before_send kcp) = k_output kcp"
  "k_snd_una (before_send kcp) = k_snd_una kcp" "k_ackcount (before_send kcp) = 0"
  "k_probe (before_send kcp) = 0" "k_conv (before_send kcp) = k_conv kcp"
  "k_snd_nxt (before_send kcp) = k_snd_nxt kcp + of_nat (new_count kcp)"
  "k_rcv_nxt (before_send kcp) = k_rcv_nxt kcp" "k_rcv_queue (before_send kcp) = k_rcv_queue kcp"
  "k_rcv_buf (before_send kcp) = k_rcv_buf kcp" "k_current (before_send kcp) = k_current kcp"
  "k_snd_queue (before_send kcp) = drop (new_count kcp) (k_snd_queue kcp)"
  by (simp_all add: before_send_def numbered_def)

lemma before_send_cfg:
  "k_fastresend (before_send kcp) = k_fastresend kcp" "k_nodelay (before_send kcp) = k_nodelay kcp"
  "k_rx_rto (before_send kcp) = k_rx_rto kcp"
  by (simp_all add: before_send_def numbered_def headed_def flush_probe_def Let_def)

lemma before_send_of [simp]:
  "resent_of (before_send kcp) = resent_of kcp" "rtomin_of (before_send kcp) = rtomin_of kcp"
  by (simp_all add: resent_of_def rtomin_of_def before_send_cfg)

text \<open>What the congestion control changes.\<close>

lemma flush_cwnd_frame [simp]:
  "kcp_inv (flush_cwnd c r ch lo kcp) = kcp_inv kcp" "snd_fit (flush_cwnd c r ch lo kcp) = snd_fit kcp"
  "k_snd_buf (flush_cwnd c r ch lo kcp) = k_snd_buf kcp"
  "k_snd_queue (flush_cwnd c r ch lo kcp) = k_snd_queue kcp"
  "k_snd_una (flush_cwnd c r ch lo kcp) = k_snd_una kcp"
  "k_snd_nxt (flush_cwnd c r ch lo kcp) = k_snd_nxt kcp"
  "k_ackcount (flush_cwnd c r ch lo kcp) = k_ackcount kcp"
  "k_probe (flush_cwnd c r ch lo kcp) = k_probe kcp" "k_mtu (flush_cwnd c r ch lo kcp) = k_mtu kcp"
  "k_output (flush_cwnd c r ch lo kcp) = k_output kcp" "k_conv (flush_cwnd c r ch lo kcp) = k_conv kcp"
  "k_rcv_nxt (flush_cwnd c r ch lo kcp) = k_rcv_nxt kcp"
  "k_rcv_queue (flush_cwnd c r ch lo kcp) = k_rcv_queue kcp"
  "k_rcv_buf (flush_cwnd c r ch lo kcp) = k_rcv_buf kcp"
  by (simp_all add: flush_cwnd_def Let_def snd_fit_def fits_def)

lemma serial_sorted_map:
  "(\<And>s. sg_sn (f s) = sg_sn s) \<Longrightarrow> serial_sorted base b (map f ss) = serial_sorted base b ss"
  by (simp add: serial_sorted_def sorted_wrt_map)

lemma sent_inv:
  assumes "kcp_inv kcp"
  shows "kcp_inv (kcp\<lparr>k_xmit := x, k_state := st,
    k_snd_buf := map (marked kcp' wnd resent rtomin) (k_snd_buf kcp)\<rparr>)"
  using assms by (auto simp: kcp_inv_def snd_inv_def rcv_inv_def ack_inv_def cfg_inv_def serial_sorted_map seg_ok_def)

text \<open>
  The flush of a well-formed block, in one statement: it returns, numbers \<open>new_count\<close>
  segments, and sends the control segments, the new segments and the ones that are due.
\<close>

lemma flush_exact:
  assumes "kcp_inv kcp" and "snd_fit kcp" and "k_output kcp" and "k_updated kcp \<noteq> 0"
    and P: "\<forall>s. control kcp s \<longrightarrow> P s" "\<forall>s \<in> set (k_snd_buf (before_send kcp)). P (sent_seg kcp s)"
  shows "\<exists>x st ch lo out pre.
    ikcp_flush kcp = Inr (flush_cwnd (flush_window kcp) (resent_of kcp) ch lo ((before_send kcp)\<lparr>k_xmit := x,
      k_state := st, k_snd_buf := map (sent_seg kcp) (k_snd_buf (before_send kcp))\<rparr>), out) \<and>
    (\<forall>d \<in> set out. d \<noteq> [] \<and> packed P (unat (k_mtu kcp)) d) \<and>
    concat out = pre @ concat (map (wire \<circ> sent_seg kcp)
      (filter (\<lambda>s. flush_reason (before_send kcp) (resent_of kcp) s \<noteq> Keep) (k_snd_buf (before_send kcp))))"
proof -
  let ?k = "before_send kcp"
  obtain buf out where head: "flush_head kcp = Inr (headed kcp, buf, out)" "outgoing P kcp buf out"
    using flush_head_ok [OF assms(1,3) P(1)] by blast
  have inv: "cfg_inv ?k" using before_send_inv [OF assms(1)] by (simp add: kcp_inv_def)
  have fit: "\<forall>s \<in> set (k_snd_buf ?k). fits ?k s"
    using before_send_fit [OF assms(2)] by (simp add: snd_fit_def)
  have og: "outgoing P ?k = outgoing P kcp" by (simp add: outgoing_def fun_eq_iff)
  have "outgoing P ?k buf out" using head(2) og by simp
  from flush_data_ok [OF inv _ fit P(2) [unfolded sent_seg_def] this, of "[]" 0 False]
  obtain x st ch lo buf' out' where data:
    "flush_data (ikcp_wnd_unused kcp) (resent_of kcp) (rtomin_of kcp) [] (k_snd_buf ?k) ?k 0 False buf out =
      Inr (?k\<lparr>k_xmit := x, k_state := st, k_snd_buf := map (sent_seg kcp) (k_snd_buf ?k)\<rparr>, ch, lo, buf', out')"
    "outgoing P kcp buf' out'"
    "concat out' @ buf' = (concat out @ buf) @ concat (map (wire \<circ> sent_seg kcp)
        (filter (\<lambda>s. flush_reason ?k (resent_of kcp) s \<noteq> Keep) (k_snd_buf ?k)))"
    using assms(3) og by (auto simp: sent_seg_def comp_def)
  define out2 where "out2 = (if buf' = [] then out' else out' @ [buf'])"
  have "ikcp_flush kcp = Inr (flush_cwnd (flush_window kcp) (resent_of kcp) ch lo
      (?k\<lparr>k_xmit := x, k_state := st, k_snd_buf := map (sent_seg kcp) (k_snd_buf ?k)\<rparr>), out2)"
    using assms(3,4) data(1)
    by (simp add: ikcp_flush_def Let_def head(1) flush_move_before [OF assms(1)] ikcp_output_def out2_def
        flip: resent_of_def rtomin_of_def)
  moreover have "\<forall>d \<in> set out2. d \<noteq> [] \<and> packed P (unat (k_mtu kcp)) d"
    using data(2) by (auto simp: outgoing_def out2_def)
  moreover have "concat out2 = concat out' @ buf'"
    by (simp add: out2_def)
  ultimately show ?thesis
    using data(3) by (intro exI [of _ x] exI [of _ st] exI [of _ ch] exI [of _ lo] exI [of _ out2]
        exI [of _ "concat out @ buf"]) simp
qed

section \<open>Properties of the flush\<close>

text \<open>A block with three segments in flight that are due, ready to flush.\<close>

definition ready_kcp :: ikcpcb where
  "ready_kcp = flight_kcp\<lparr>k_output := True, k_updated := 1, k_current := 400\<rparr>"

lemma ready_kcp_simps:
  "k_output ready_kcp" "k_updated ready_kcp = 1" "k_current ready_kcp = 400" "k_mtu ready_kcp = 1400"
  "k_snd_buf ready_kcp = [flight_seg (- 1), flight_seg 0, flight_seg 1]" "k_snd_queue ready_kcp = []"
  by (simp_all add: ready_kcp_def flight_kcp_def ikcp_create_def kcp_defs)

lemma ready_kcp_ok: "kcp_inv ready_kcp" "snd_fit ready_kcp"
proof -
  have "kcp_inv (flight_kcp\<lparr>k_output := True\<rparr>)"
    using flight_inv setoutput_inv [of flight_kcp True] by (simp add: ikcp_setoutput_def)
  then show "kcp_inv ready_kcp"
    by (simp add: ready_kcp_def)
  show "snd_fit ready_kcp"
    by (simp add: snd_fit_def fits_def ready_kcp_simps flight_seg_def seg_ok_def)
qed

text \<open>
  C2. A flush of a well-formed block whose waiting segments fit the current MTU returns: no
  store leaves the output buffer and no assertion fails. The block stays well-formed, no
  acknowledgement or probe stays pending, and every datagram is non-empty, no longer than
  the MTU and made of whole segments, each either a control segment of this block or a
  segment of its send buffer.
\<close>

theorem flush_sound:
  assumes "kcp_inv kcp" and "snd_fit kcp" and "k_output kcp" and "k_updated kcp \<noteq> 0"
  shows "\<exists>kcp' out. ikcp_flush kcp = Inr (kcp', out) \<and> kcp_inv kcp' \<and> snd_fit kcp' \<and>
    k_ackcount kcp' = 0 \<and> k_probe kcp' = 0 \<and>
    (\<forall>d \<in> set out. d \<noteq> [] \<and> length d \<le> unat (k_mtu kcp) \<and>
      (\<exists>ss. d = concat (map wire ss) \<and> (\<forall>s \<in> set ss. control kcp s \<or> s \<in> set (k_snd_buf kcp'))))"
proof -
  let ?buf = "map (sent_seg kcp) (k_snd_buf (before_send kcp))"
  from flush_exact [OF assms, of "\<lambda>s. control kcp s \<or> s \<in> set ?buf"]
  obtain x st ch lo out where
    flush: "ikcp_flush kcp = Inr (flush_cwnd (flush_window kcp) (resent_of kcp) ch lo
      ((before_send kcp)\<lparr>k_xmit := x, k_state := st, k_snd_buf := ?buf\<rparr>), out)"
    and out: "\<forall>d \<in> set out. d \<noteq> [] \<and> packed (\<lambda>s. control kcp s \<or> s \<in> set ?buf) (unat (k_mtu kcp)) d"
    by auto
  have "kcp_inv ((before_send kcp)\<lparr>k_xmit := x, k_state := st, k_snd_buf := ?buf\<rparr>)"
    unfolding sent_seg_def by (rule sent_inv [OF before_send_inv [OF assms(1)]])
  moreover have "snd_fit ((before_send kcp)\<lparr>k_xmit := x, k_state := st, k_snd_buf := ?buf\<rparr>)"
    using before_send_fit [OF assms(2)] by (auto simp: snd_fit_def fits_def sent_seg_def seg_ok_def)
  ultimately show ?thesis
    using flush out by (simp add: packed_def list_all_iff)
qed

theorem flush_sound_witness:
  "\<exists>kcp' out. ikcp_flush ready_kcp = Inr (kcp', out) \<and> kcp_inv kcp' \<and> (\<forall>d \<in> set out. length d \<le> 1400)"
  using flush_sound [OF ready_kcp_ok] by (fastforce simp: ready_kcp_simps)

lemma sent_seg_simps [simp]:
  "sg_sn (sent_seg kcp s) = sg_sn s" "sg_data (sent_seg kcp s) = sg_data s"
  "sg_frg (sent_seg kcp s) = sg_frg s" "sg_len (sent_seg kcp s) = sg_len s"
  "sg_cmd (sent_seg kcp s) = sg_cmd s" "sg_conv (sent_seg kcp s) = sg_conv s"
  by (simp_all add: sent_seg_def)

text \<open>The window, written out.\<close>

lemma unat_flush_window:
  "unat (flush_window kcp) =
     (if k_nocwnd kcp = 0 then min (unat (k_cwnd kcp)) (min (unat (k_snd_wnd kcp)) (unat (k_rmt_wnd kcp)))
      else min (unat (k_snd_wnd kcp)) (unat (k_rmt_wnd kcp)))"
  by (auto simp: flush_window_def imin_def Let_def word_le_nat_alt)

lemma new_segs_keys:
  "map (\<lambda>s. (sg_conv s, sg_cmd s, sg_sn s, sg_frg s, sg_data s)) (new_segs kcp wnd sn q) =
     map (\<lambda>i. (k_conv kcp, IKCP_CMD_PUSH, sn + of_nat i, sg_frg (q ! i), sg_data (q ! i))) [0..<length q]"
  by (induction q arbitrary: sn) (auto simp: flush_new_def map_upt_Suc add.assoc simp del: upt_Suc)

text \<open>
  C18. Flow control: a flush takes exactly as many segments from the front of the queue as the
  window (the smallest of the send window, the peer's window and, unless it is switched off,
  the congestion window) has room for, gives them the numbers that follow \<open>snd_nxt\<close> one by
  one together with the conversation and the command of data segments, and puts them in order
  behind the segments in flight, which keep their numbers; the numbers in flight never pass
  that window.
\<close>

theorem flush_respects_window:
  assumes "kcp_inv kcp" and "snd_fit kcp" and "k_output kcp" and "k_updated kcp \<noteq> 0"
    and "ikcp_flush kcp = Inr (kcp', out)"
    and "window = (if k_nocwnd kcp = 0 then min (unat (k_cwnd kcp)) (min (unat (k_snd_wnd kcp)) (unat (k_rmt_wnd kcp)))
      else min (unat (k_snd_wnd kcp)) (unat (k_rmt_wnd kcp)))"
    and "n = min (length (k_snd_queue kcp)) (window - wdist (k_snd_una kcp) (k_snd_nxt kcp))"
    and "key = (\<lambda>s. (sg_conv s, sg_cmd s, sg_sn s, sg_frg s, sg_data s))"
  shows "k_snd_una kcp' = k_snd_una kcp \<and> k_snd_nxt kcp' = k_snd_nxt kcp + of_nat n \<and>
    k_snd_queue kcp' = drop n (k_snd_queue kcp) \<and>
    map key (k_snd_buf kcp') = map key (k_snd_buf kcp) @
      map (\<lambda>i. (k_conv kcp, IKCP_CMD_PUSH, k_snd_nxt kcp + of_nat i,
                sg_frg (k_snd_queue kcp ! i), sg_data (k_snd_queue kcp ! i))) [0..<n] \<and>
    wdist (k_snd_una kcp') (k_snd_nxt kcp') \<le> max (wdist (k_snd_una kcp) (k_snd_nxt kcp)) window"
proof -
  have w: "window = unat (flush_window kcp)" by (simp add: assms(6) unat_flush_window)
  have n: "n = new_count kcp" using assms(7) by (simp add: new_count_def w)
  obtain x st ch lo where kcp': "kcp' = flush_cwnd (flush_window kcp) (resent_of kcp) ch lo
      ((before_send kcp)\<lparr>k_xmit := x, k_state := st,
        k_snd_buf := map (sent_seg kcp) (k_snd_buf (before_send kcp))\<rparr>)"
    using flush_exact [OF assms(1-4), of "\<lambda>_. True"] assms(5) by auto
  have "map key (k_snd_buf kcp') = map key (k_snd_buf (before_send kcp))"
    by (simp add: kcp' assms(8))
  also have "\<dots> = map key (k_snd_buf kcp) @
      map (\<lambda>i. (k_conv kcp, IKCP_CMD_PUSH, k_snd_nxt kcp + of_nat i,
                sg_frg (k_snd_queue kcp ! i), sg_data (k_snd_queue kcp ! i))) [0..<n]"
    using assms(7) by (simp add: before_send_def numbered_def assms(8) new_segs_keys flip: n)
  finally have segs: "map key (k_snd_buf kcp') = \<dots>" .
  have "wdist (k_snd_una kcp) (k_snd_nxt kcp + of_nat n) = wdist (k_snd_una kcp) (k_snd_nxt kcp) + n"
    using new_count_le(3) [OF assms(1)] by (intro wdist_shift) (simp add: n)
  also have "\<dots> \<le> max (wdist (k_snd_una kcp) (k_snd_nxt kcp)) window"
    using new_count_le(2) [OF assms(1)] by (simp add: n w)
  finally show ?thesis
    using segs by (simp add: kcp' n)
qed

text \<open>Three segments in flight and two queued: both are numbered.\<close>

theorem flush_respects_window_witness:
  "\<exists>kcp kcp' out. ikcp_flush kcp = Inr (kcp', out) \<and> length (k_snd_queue kcp) = 2 \<and> k_snd_queue kcp' = [] \<and>
     k_snd_nxt kcp' = k_snd_nxt kcp + 2 \<and>
     map sg_sn (k_snd_buf kcp') = [-1, 0, 1, k_snd_nxt kcp, k_snd_nxt kcp + 1]"
proof -
  define kcp where "kcp = ready_kcp\<lparr>k_snd_queue := [flight_seg 8, flight_seg 9], k_nsnd_que := 2, k_nocwnd := 1\<rparr>"
  have ok: "kcp_inv kcp" "snd_fit kcp" "k_output kcp" "k_updated kcp \<noteq> 0"
    using ready_kcp_ok by (auto simp: kcp_def ready_kcp_simps kcp_inv_defs snd_fit_def fits_def flight_seg_def seg_ok_def)
  then obtain kcp' out where flush: "ikcp_flush kcp = Inr (kcp', out)"
    using flush_exact [OF ok, of "\<lambda>_. True"] by auto
  have k: "k_snd_wnd kcp = 32" "k_rmt_wnd kcp = 128" "k_snd_una kcp = -1" "k_snd_nxt kcp = 2" "k_nocwnd kcp = 1"
    by (simp_all add: kcp_def ready_kcp_def flight_kcp_def ikcp_create_def kcp_defs)
  define key where "key = (\<lambda>s :: ikcpseg. (sg_conv s, sg_cmd s, sg_sn s, sg_frg s, sg_data s))"
  note w = flush_respects_window [OF ok flush refl refl key_def [unfolded atomize_eq]]
  then have "map (fst \<circ> snd \<circ> snd) (map key (k_snd_buf kcp')) = [-1, 0, 1, 2, 3]"
    by (simp add: k wdist_def) (simp add: kcp_def ready_kcp_simps key_def flight_seg_def upt_rec)
  then have "map sg_sn (k_snd_buf kcp') = [-1, 0, 1, 2, 3]" by (simp add: key_def comp_def)
  with w flush show ?thesis
    by (intro exI [of _ kcp] exI [of _ kcp'] exI [of _ out]) (simp add: k wdist_def, simp add: kcp_def)
qed

lemma sent_due:
  assumes "sg_xmit s = 0 \<or> itimediff (k_current kcp) (sg_resendts s) \<ge> 0"
  shows "flush_reason (before_send kcp) r s \<noteq> Keep" and "sg_ts (sent_seg kcp s) = k_current kcp"
proof -
  show *: "flush_reason (before_send kcp) r s \<noteq> Keep" for r
    using assms by (auto simp: flush_reason_def)
  then show "sg_ts (sent_seg kcp s) = k_current kcp"
    using * [of "resent_of kcp"]
    by (simp add: sent_seg_def marked_def flush_mark_def Let_def split: reason.split)
qed

text \<open>
  C23. Retransmission: every segment of the send buffer that has not been sent yet or whose
  deadline has passed is on the wire after a flush, stamped with the current time and with
  its number and payload unchanged, and stays in the send buffer until it is acknowledged.
\<close>

theorem flush_sends_due:
  assumes "kcp_inv kcp" and "snd_fit kcp" and "k_output kcp" and "k_updated kcp \<noteq> 0"
    and "ikcp_flush kcp = Inr (kcp', out)" and "s \<in> set (k_snd_buf kcp)"
    and "sg_xmit s = 0 \<or> itimediff (k_current kcp) (sg_resendts s) \<ge> 0"
  shows "\<exists>s' \<in> set (k_snd_buf kcp'). sg_sn s' = sg_sn s \<and> sg_frg s' = sg_frg s \<and>
    sg_data s' = sg_data s \<and> sg_ts s' = k_current kcp \<and>
    (\<exists>before after. concat out = before @ wire s' @ after)"
proof -
  let ?k = "before_send kcp"
  obtain x st ch lo pre where kcp': "kcp' = flush_cwnd (flush_window kcp) (resent_of kcp) ch lo
      (?k\<lparr>k_xmit := x, k_state := st, k_snd_buf := map (sent_seg kcp) (k_snd_buf ?k)\<rparr>)"
    and out: "concat out = pre @ concat (map (wire \<circ> sent_seg kcp)
      (filter (\<lambda>s. flush_reason ?k (resent_of kcp) s \<noteq> Keep) (k_snd_buf ?k)))"
    using flush_exact [OF assms(1-4), of "\<lambda>_. True"] assms(5) by auto
  have s: "s \<in> set (k_snd_buf ?k)"
    using assms(6) by (simp add: before_send_def numbered_def)
  then have "s \<in> set (filter (\<lambda>s. flush_reason ?k (resent_of kcp) s \<noteq> Keep) (k_snd_buf ?k))"
    using sent_due(1) [OF assms(7)] by simp
  then obtain xs ys where "filter (\<lambda>s. flush_reason ?k (resent_of kcp) s \<noteq> Keep) (k_snd_buf ?k) = xs @ s # ys"
    by (meson split_list)
  then have "concat out = (pre @ concat (map (wire \<circ> sent_seg kcp) xs)) @ wire (sent_seg kcp s) @
      concat (map (wire \<circ> sent_seg kcp) ys)"
    using out by simp
  then have "\<exists>before after. concat out = before @ wire (sent_seg kcp s) @ after"
    by blast
  moreover have "sent_seg kcp s \<in> set (k_snd_buf kcp')"
    using s by (simp add: kcp')
  ultimately show ?thesis
    using sent_due(2) [OF assms(7)] by (intro bexI [of _ "sent_seg kcp s"]) simp_all
qed

theorem flush_sends_due_witness:
  "\<exists>kcp' out before after s'. ikcp_flush ready_kcp = Inr (kcp', out) \<and> sg_sn s' = 0 \<and>
     sg_ts s' = 400 \<and> concat out = before @ wire s' @ after"
proof -
  have ready: "k_output ready_kcp" "k_updated ready_kcp \<noteq> 0"
    by (simp_all add: ready_kcp_simps)
  then obtain kcp' out where flush: "ikcp_flush ready_kcp = Inr (kcp', out)"
    using flush_exact [OF ready_kcp_ok, of "\<lambda>_. True"] by auto
  have "flight_seg 0 \<in> set (k_snd_buf ready_kcp)"
    and "itimediff (k_current ready_kcp) (sg_resendts (flight_seg 0)) \<ge> 0"
    by (simp_all add: ready_kcp_simps flight_seg_def itimediff_def)
  with flush_sends_due [OF ready_kcp_ok ready flush] flush show ?thesis
    by (fastforce simp: flight_seg_def ready_kcp_simps)
qed

section \<open>Scheduling\<close>

lemma itimediffI:
  "x - y = word_of_int v \<Longrightarrow> - (2 ^ 31) \<le> v \<Longrightarrow> v < 2 ^ 31 \<Longrightarrow> itimediff x y = v"
  by (metis i32_def i32_id itimediff_def)

lemma diff_itimediff: "x - y = word_of_int (itimediff x y)"
  by (simp add: itimediff_def)

lemma itimediff_shift:
  assumes "- (2 ^ 31) \<le> itimediff a b + e" and "itimediff a b + e < 2 ^ 31"
  shows "itimediff (a + word_of_int e) b = itimediff a b + e"
proof (rule itimediffI [OF _ assms])
  have "a + word_of_int e - b = (a - b) + word_of_int e" by simp
  also have "\<dots> = word_of_int (itimediff a b + e)"
    by (subst diff_itimediff) simp
  finally show "a + word_of_int e - b = word_of_int (itimediff a b + e)" .
qed

lemma itimediff_minus: "- (2 ^ 31) < itimediff a b \<Longrightarrow> itimediff b a = - itimediff a b"
proof (rule itimediffI)
  have "b - a = - (a - b)" by simp
  also have "\<dots> = word_of_int (- itimediff a b)"
    by (subst diff_itimediff) simp
  finally show "b - a = word_of_int (- itimediff a b)" .
qed (use itimediff_range [of a b] in auto)

lemma check_loop_spec:
  "check_loop current q tm = Some r \<Longrightarrow>
     r \<le> tm \<and> (0 < tm \<longrightarrow> 0 < r) \<and> (\<forall>s \<in> set q. 0 < itimediff (sg_resendts s) current \<and> r \<le> itimediff (sg_resendts s) current)"
proof (induction q arbitrary: tm)
  case (Cons s q)
  then show ?case by (fastforce simp: Let_def split: if_splits)
qed simp

lemma flush_data_ts_flush:
  "flush_data wnd resent rtomin passed rest kcp change lost buf out = Inr (kcp', r) \<Longrightarrow>
     k_ts_flush kcp' = k_ts_flush kcp"
  by (induction wnd resent rtomin passed rest kcp change lost buf out rule: flush_data.induct)
    (fastforce simp: Let_def split: if_splits sum.splits)+

lemma flush_move_ts_flush: "k_ts_flush (flush_move cwnd wnd q kcp) = k_ts_flush kcp"
  by (induction cwnd wnd q kcp rule: flush_move.induct) auto

lemma flush_head_ts_flush: "flush_head kcp = Inr (kcp', r) \<Longrightarrow> k_ts_flush kcp' = k_ts_flush kcp"
  by (auto simp: flush_head_def flush_probe_def Let_def split: sum.splits)

lemma flush_cwnd_ts_flush: "k_ts_flush (flush_cwnd c r ch lo kcp) = k_ts_flush kcp"
  by (simp add: flush_cwnd_def Let_def)

lemma flush_ts_flush: "ikcp_flush kcp = Inr (kcp', out) \<Longrightarrow> k_ts_flush kcp' = k_ts_flush kcp"
  by (auto simp: ikcp_flush_def Let_def flush_cwnd_ts_flush
      dest!: flush_data_ts_flush flush_head_ts_flush split: sum.splits if_splits prod.splits)
    (simp_all add: flush_move_ts_flush)

text \<open>The time of the next flush that \<open>ikcp_update\<close> computes from \<open>ts_flush\<close> and the clock.\<close>

definition next_flush :: "u32 \<Rightarrow> u32 \<Rightarrow> u32 \<Rightarrow> u32" where
  "next_flush ts interval current =
     (let slap = itimediff current ts
      in if slap \<ge> 10000 \<or> slap < -10000 then current + interval
         else if slap < 0 then ts
         else if itimediff current (ts + interval) \<ge> 0 then current + interval
         else ts + interval)"

lemma itimediff_interval:
  assumes "k \<le> (5000 :: u32)"
  shows "itimediff (current + k) current = uint k"
    and "- 10000 \<le> itimediff current ts \<Longrightarrow> itimediff current ts \<le> 10000 \<Longrightarrow>
      itimediff (ts + k) current = uint k - itimediff current ts \<and>
      itimediff current (ts + k) = itimediff current ts - uint k"
proof -
  define v where "v = uint k"
  have v: "v \<le> 5000" "0 \<le> v" "k = word_of_int v"
    using assms by (simp_all add: word_le_def v_def)
  show "itimediff (current + k) current = uint k"
    unfolding v_def [symmetric] using itimediff_shift [of current current v] v by simp
  assume ts: "- 10000 \<le> itimediff current ts" "itimediff current ts \<le> 10000"
  then have 1: "itimediff ts current = - itimediff current ts"
    by (intro itimediff_minus) simp
  have 2: "itimediff (ts + k) current = v - itimediff current ts"
    using itimediff_shift [of ts current v] v ts 1 by simp
  moreover have "itimediff current (ts + k) = - itimediff (ts + k) current"
    using 2 v ts by (intro itimediff_minus) simp
  ultimately show "itimediff (ts + k) current = uint k - itimediff current ts \<and>
      itimediff current (ts + k) = itimediff current ts - uint k"
    unfolding v_def [symmetric] by simp
qed

lemma next_flush_future:
  assumes "10 \<le> k" and "k \<le> (5000 :: u32)"
  shows "0 < itimediff (next_flush ts k current) current \<and> itimediff (next_flush ts k current) current \<le> 10000"
proof -
  have k: "10 \<le> uint k" "uint k \<le> 5000" using assms by (simp_all add: word_le_def)
  note int1 = itimediff_interval(1) [OF assms(2)] and int2 = itimediff_interval(2) [OF assms(2)]
  have minus: "itimediff ts current = - itimediff current ts" if "- 10000 \<le> itimediff current ts"
    using that by (intro itimediff_minus) simp
  consider "itimediff current ts \<ge> 10000 \<or> itimediff current ts < -10000"
    | "- 10000 \<le> itimediff current ts" "itimediff current ts < 0"
    | "0 \<le> itimediff current ts" "itimediff current ts < 10000" by linarith
  then show ?thesis
  proof cases
    case 1
    then show ?thesis using k by (simp add: next_flush_def int1)
  next
    case 2
    then show ?thesis using minus by (simp add: next_flush_def)
  next
    case 3
    then show ?thesis using k int2 [of current ts] by (simp add: next_flush_def int1)
  qed
qed

lemma update_ts_flush:
  assumes "ikcp_update kcp current = Inr (kcp', out)" and "10 \<le> k_interval kcp" and "k_interval kcp \<le> 5000"
  shows "k_ts_flush kcp' =
    next_flush (if k_updated kcp = 0 then current else k_ts_flush kcp) (k_interval kcp) current"
proof -
  have "10 \<le> uint (k_interval kcp)" using assms(2) by (simp add: word_le_def)
  moreover have "itimediff current (current + k_interval kcp) = - uint (k_interval kcp)"
    using itimediff_interval(2) [OF assms(3), of current current] by simp
  ultimately show ?thesis
    using assms(1)
    by (auto simp: ikcp_update_def next_flush_def Let_def dest!: flush_ts_flush split: if_splits)
qed

text \<open>
  The clock of \<open>ikcp_update\<close>: after every call, whatever the time passed to it and
  whatever was scheduled before, the next flush lies in the future and at most 10 seconds
  away.
\<close>

theorem update_schedule:
  assumes "10 \<le> k_interval kcp" and "k_interval kcp \<le> 5000"
    and "ikcp_update kcp current = Inr (kcp', out)"
  shows "0 < itimediff (k_ts_flush kcp') current \<and> itimediff (k_ts_flush kcp') current \<le> 10000"
  unfolding update_ts_flush [OF assms(3,1,2)] by (rule next_flush_future [OF assms(1,2)])

theorem update_schedule_witness:
  "\<exists>kcp' out. ikcp_update (ready_kcp\<lparr>k_updated := 0, k_snd_buf := []\<rparr>) 4294967290 = Inr (kcp', out) \<and>
     0 < itimediff (k_ts_flush kcp') 4294967290"
proof -
  let ?k = "ready_kcp\<lparr>k_updated := 0, k_snd_buf := []\<rparr>"
  have "\<exists>kcp' out. ikcp_update ?k 4294967290 = Inr (kcp', out)"
    by (simp add: ready_kcp_def flight_kcp_def ikcp_create_def kcp_defs ikcp_update_def ikcp_flush_def
        itimediff_def flush_head_def flush_probe_def flush_cmd_def Let_def)
  then obtain kcp' out where run: "ikcp_update ?k 4294967290 = Inr (kcp', out)" by blast
  moreover have "10 \<le> k_interval ?k" "k_interval ?k \<le> 5000"
    by (simp_all add: ready_kcp_def flight_kcp_def ikcp_create_def kcp_defs)
  ultimately show ?thesis using update_schedule by blast
qed

text \<open>
  C28. \<open>ikcp_check\<close> can be relied on to sleep: its answer is at most one interval ahead, and
  at every moment from now up to but not including that answer a call of \<open>ikcp_update\<close> would
  only note the time, sending nothing, with no segment in flight due for retransmission.
\<close>

theorem check_idle:
  assumes "unat e < unat (ikcp_check kcp current - current)"
  shows "unat (ikcp_check kcp current - current) \<le> unat (k_interval kcp) \<and>
    ikcp_update kcp (current + e) = Inr (kcp\<lparr>k_current := current + e\<rparr>, []) \<and>
    (\<forall>s \<in> set (k_snd_buf kcp). itimediff (sg_resendts s) (current + e) > 0)"
proof -
  define ts where "ts = k_ts_flush kcp"
  have upd: "k_updated kcp \<noteq> 0" and slap: "- 10000 \<le> itimediff current ts" "itimediff current ts < 0"
    using assms by (auto simp: ikcp_check_def ts_def Let_def split: if_splits)
  then obtain tm where loop: "check_loop current (k_snd_buf kcp) 2147483647 = Some tm"
    using assms by (auto simp: ikcp_check_def ts_def Let_def split: option.splits if_splits)
  have flush: "itimediff ts current = - itimediff current ts"
    using slap by (intro itimediff_minus) simp
  define w where "w = (if tm < itimediff ts current then tm else itimediff ts current)"
  have tm: "0 < tm" "\<forall>s \<in> set (k_snd_buf kcp). 0 < itimediff (sg_resendts s) current \<and> tm \<le> itimediff (sg_resendts s) current"
    using check_loop_spec [OF loop] by auto
  have w: "0 < w" "w \<le> tm" "w \<le> itimediff ts current" "uint (word_of_int w :: u32) = w"
    using tm(1) flush slap by (auto simp: w_def uint_word_of_int)
  have check: "ikcp_check kcp current - current =
      (if word_of_int w \<ge> k_interval kcp then k_interval kcp else word_of_int w)"
    using upd slap loop by (simp add: ikcp_check_def w_def ts_def Let_def)
  have iv: "unat (ikcp_check kcp current - current) \<le> unat (k_interval kcp)"
    and "e < word_of_int w"
    using assms unfolding check by (auto simp: word_le_nat_alt word_less_nat_alt split: if_splits)
  then obtain v where e: "v < w" "0 \<le> v" "e = word_of_int v"
    using w(4) that [of "uint e"] by (simp add: word_less_def)
  have "itimediff (current + e) ts = itimediff current ts + v"
    using itimediff_shift [of current ts v] e w(3) flush slap by simp
  then have quiet: "- 10000 \<le> itimediff (current + e) ts" "itimediff (current + e) ts < 0"
    using slap e w(3) flush by linarith+
  have "itimediff (sg_resendts s) (current + e) > 0" if "s \<in> set (k_snd_buf kcp)" for s
  proof -
    have d: "0 < itimediff (sg_resendts s) current" "w \<le> itimediff (sg_resendts s) current"
      using tm(2) that w(2) by auto
    then have m: "itimediff current (sg_resendts s) = - itimediff (sg_resendts s) current"
      by (intro itimediff_minus) simp
    have "itimediff (current + e) (sg_resendts s) = v - itimediff (sg_resendts s) current"
      using itimediff_shift [of current "sg_resendts s" v] e d m itimediff_range [of "sg_resendts s" current]
      by simp
    then show ?thesis
      using itimediff_minus [of "current + e" "sg_resendts s"] e d itimediff_range [of "sg_resendts s" current]
      by simp
  qed
  then show ?thesis
    using iv quiet upd by (simp add: ikcp_update_def ts_def Let_def)
qed

theorem check_idle_witness:
  "ikcp_check (ready_kcp\<lparr>k_ts_flush := 420\<rparr>) 280 = 300 \<and>
   ikcp_update (ready_kcp\<lparr>k_ts_flush := 420\<rparr>) 285 = Inr (ready_kcp\<lparr>k_ts_flush := 420, k_current := 285\<rparr>, [])"
proof -
  let ?k = "ready_kcp\<lparr>k_ts_flush := 420\<rparr>"
  have c: "ikcp_check ?k 280 = 300"
    by (simp add: ikcp_check_def ready_kcp_def flight_kcp_def flight_seg_def ikcp_create_def kcp_defs
        itimediff_def Let_def)
  then have "unat (5 :: u32) < unat (ikcp_check ?k 280 - 280)" by simp
  from check_idle [OF this] show ?thesis by (simp add: c)
qed

text \<open>
  Probing a closed window: while the peer announces a window of 0, the first flush arms
  a timer of 7 seconds; each time the timer has run out a probe is requested and the wait
  grows by half, from at least 10.5 seconds up to the limit of 120 seconds, with the next
  deadline that far ahead; an open window stops the timer.
\<close>

theorem probe_backoff:
  assumes "k_probe_wait kcp \<le> IKCP_PROBE_LIMIT"
  shows "k_probe_wait (flush_probe kcp) \<le> IKCP_PROBE_LIMIT \<and>
    (k_rmt_wnd kcp \<noteq> 0 \<longrightarrow> k_probe_wait (flush_probe kcp) = 0 \<and> k_probe (flush_probe kcp) = k_probe kcp) \<and>
    (k_rmt_wnd kcp = 0 \<and> k_probe_wait kcp = 0 \<longrightarrow>
       k_probe_wait (flush_probe kcp) = 7000 \<and> k_probe (flush_probe kcp) = k_probe kcp \<and>
       itimediff (k_ts_probe (flush_probe kcp)) (k_current kcp) = 7000) \<and>
    (k_rmt_wnd kcp = 0 \<and> k_probe_wait kcp \<noteq> 0 \<and> itimediff (k_current kcp) (k_ts_probe kcp) \<ge> 0 \<longrightarrow>
       k_probe (flush_probe kcp) = k_probe kcp OR IKCP_ASK_SEND \<and>
       10500 \<le> k_probe_wait (flush_probe kcp) \<and> k_probe_wait kcp \<le> k_probe_wait (flush_probe kcp) \<and>
       itimediff (k_ts_probe (flush_probe kcp)) (k_current kcp) = uint (k_probe_wait (flush_probe kcp)))"
proof -
  have later: "itimediff (t + w) t = uint w" if "unat w < 2 ^ 31" for t w
    using sint_small [OF that] by (simp add: itimediff_def)
  define w where "w = (if k_probe_wait kcp < IKCP_PROBE_INIT then IKCP_PROBE_INIT else k_probe_wait kcp)"
  have w: "7000 \<le> unat w" "unat w \<le> 120000" "k_probe_wait kcp \<le> w"
    using assms by (auto simp: w_def kcp_defs word_le_nat_alt word_less_nat_alt)
  have grow: "unat (w + w div 2) = unat w + unat w div 2"
    using w by (simp add: unat_word_ariths unat_div)
  define w' where "w' = (if w + w div 2 > IKCP_PROBE_LIMIT then IKCP_PROBE_LIMIT else w + w div 2)"
  have "10500 \<le> unat w' \<and> unat w' \<le> 120000 \<and> unat w \<le> unat w'"
    using w grow by (auto simp: w'_def kcp_defs word_less_nat_alt)
  then have w': "10500 \<le> w'" "w' \<le> IKCP_PROBE_LIMIT" "k_probe_wait kcp \<le> w'" "unat w' < 2 ^ 31"
    using w(3) by (auto simp: kcp_defs word_le_nat_alt)
  have due: "flush_probe kcp = kcp\<lparr>k_probe_wait := w', k_ts_probe := k_current kcp + w',
      k_probe := k_probe kcp OR IKCP_ASK_SEND\<rparr>"
    if "k_rmt_wnd kcp = 0" "k_probe_wait kcp \<noteq> 0" "itimediff (k_current kcp) (k_ts_probe kcp) \<ge> 0"
    using that by (simp add: flush_probe_def w'_def w_def Let_def)
  show ?thesis
  proof (cases "k_rmt_wnd kcp = 0 \<and> k_probe_wait kcp \<noteq> 0 \<and> itimediff (k_current kcp) (k_ts_probe kcp) \<ge> 0")
    case True
    then show ?thesis using due w' later [of w'] by simp
  next
    case False
    then show ?thesis
      using assms later [of 7000] by (auto simp: flush_probe_def kcp_defs)
  qed
qed

theorem probe_backoff_witness:
  "k_probe_wait (flush_probe (ready_kcp\<lparr>k_rmt_wnd := 0, k_probe_wait := 100000, k_ts_probe := 399\<rparr>)) \<le> 120000"
  using probe_backoff [of "ready_kcp\<lparr>k_rmt_wnd := 0, k_probe_wait := 100000, k_ts_probe := 399\<rparr>"]
  by (simp add: kcp_defs)

end
