(* ===== verification/Std_String.thy ===== *)
theory Std_String
  imports Prelude "HOL-Library.Sublist"
begin

text \<open>
  Strings of the C and C++ components as lists of bytes, with the operations of
  \<open>std::string\<close> and \<open><ctype.h>\<close> that the sources call, and the facts about them that several
  components share. \<open>bs\<close> turns a literal into bytes.
\<close>

definition bs :: "string \<Rightarrow> byte list" where
  "bs s = map of_char s"

text \<open>What ends a call abnormally: a failed assertion, or an access the standard leaves undefined.\<close>

datatype fault =
    Assert_failed      \<comment> \<open>a failed \<open>assert\<close>\<close>
  | Out_of_bounds      \<comment> \<open>an index or iterator outside a container or array\<close>
  | Use_after_free     \<comment> \<open>an access through a pointer to freed memory\<close>
  | Uncaught           \<comment> \<open>an exception nobody handles\<close>
  | Unconstructed      \<comment> \<open>a member function called on an object that was never constructed\<close>
  | Diverges           \<comment> \<open>a call that does not return\<close>

section \<open>Searching\<close>

text \<open>\<open>std::string::find\<close>: the first position at which the pattern occurs.\<close>

fun find_sub :: "byte list \<Rightarrow> byte list \<Rightarrow> nat option" where
  "find_sub d [] = (if d = [] then Some 0 else None)"
| "find_sub d (x # xs) = (if prefix d (x # xs) then Some 0 else map_option Suc (find_sub d xs))"

fun find_first_not_of :: "byte list \<Rightarrow> byte list \<Rightarrow> nat option" where
  "find_first_not_of cs [] = None"
| "find_first_not_of cs (x # xs) =
     (if x \<notin> set cs then Some 0 else map_option Suc (find_first_not_of cs xs))"

fun find_last_not_of :: "byte list \<Rightarrow> byte list \<Rightarrow> nat option" where
  "find_last_not_of cs [] = None"
| "find_last_not_of cs (x # xs) =
     (case find_last_not_of cs xs of
        Some i \<Rightarrow> Some (Suc i)
      | None \<Rightarrow> if x \<notin> set cs then Some 0 else None)"

text \<open>\<open>isalnum\<close> in the C locale.\<close>

definition isalnum :: "byte \<Rightarrow> bool" where
  "isalnum c \<longleftrightarrow> (48 \<le> c \<and> c \<le> 57) \<or> (65 \<le> c \<and> c \<le> 90) \<or> (97 \<le> c \<and> c \<le> 122)"

text \<open>The string a pointer to \<open>char\<close> denotes: the bytes before the first NUL of the memory it points to.\<close>

definition cstr :: "byte list \<Rightarrow> fault + byte list" where
  "cstr mem = (if 0 \<in> set mem then Inr (takeWhile (\<lambda>b. b \<noteq> 0) mem) else Inl Out_of_bounds)"

section \<open>Facts\<close>

lemma takeWhile_prefix: "P x \<Longrightarrow> takeWhile (\<lambda>b. \<not> P b) (xs @ x # ys) = takeWhile (\<lambda>b. \<not> P b) xs"
  by (induction xs) auto

lemma takeWhile_shorter: "x \<in> set xs \<Longrightarrow> \<not> P x \<Longrightarrow> length (takeWhile P xs) < length xs"
  by (induction xs) auto

lemma cstr_NUL: "cstr (xs @ 0 # ys) = Inr (takeWhile (\<lambda>b. b \<noteq> 0) xs)"
  using takeWhile_prefix [of "\<lambda>b. b = 0" 0 xs ys] by (simp add: cstr_def)

lemma cstr_plain: "0 \<notin> set xs \<Longrightarrow> cstr (xs @ 0 # ys) = Inr xs"
  by (auto simp: cstr_NUL takeWhile_eq_all_conv)

lemma find_sub_Some:
  "find_sub d s = Some k \<Longrightarrow> k + length d \<le> length s \<and> take (length d) (drop k s) = d \<and>
     (\<forall>j < k. take (length d) (drop j s) \<noteq> d)"
proof (induction d s arbitrary: k rule: find_sub.induct)
  case (2 d x xs)
  show ?case
  proof (cases "prefix d (x # xs)")
    case True
    then have "k = 0" using 2 by simp
    moreover have "length d \<le> length (x # xs)"
      using True by (rule prefix_length_le)
    ultimately show ?thesis using True by (auto simp: prefix_def)
  next
    case False
    then obtain k' where k': "find_sub d xs = Some k'" "k = Suc k'" using 2 by auto
    have "take (length d) (drop j (x # xs)) \<noteq> d" if "j < k" for j
    proof (cases j)
      case 0
      with False show ?thesis by (metis drop0 take_is_prefix)
    next
      case (Suc i)
      with 2(1) [OF False k'(1)] k'(2) that show ?thesis by simp
    qed
    with 2(1) [OF False k'(1)] k'(2) show ?thesis by simp
  qed
qed (auto split: if_splits)

lemma find_sub_first:
  assumes "take (length d) (drop k s) = d" and "k + length d \<le> length s"
    and "\<And>j. j < k \<Longrightarrow> take (length d) (drop j s) \<noteq> d"
  shows "find_sub d s = Some k"
  using assms
proof (induction s arbitrary: k)
  case (Cons x xs)
  show ?case
  proof (cases k)
    case 0
    then show ?thesis using Cons.prems(1) by (metis drop0 find_sub.simps(2) take_is_prefix)
  next
    case (Suc i)
    have "\<not> prefix d (x # xs)"
      using Cons.prems(3) [of 0] Suc by (auto simp: prefix_def)
    moreover have "find_sub d xs = Some i"
      using Cons.prems Suc by (intro Cons.IH) force+
    ultimately show ?thesis using Suc by simp
  qed
qed simp

lemma find_sub_None: "find_sub d s = None \<Longrightarrow> \<not> sublist d s"
  by (induction d s rule: find_sub.induct) (auto simp: sublist_Cons_right split: if_splits)

lemma find_first_not_of_dropWhile:
  "find_first_not_of cs s = (if \<forall>x \<in> set s. x \<in> set cs then None
     else Some (length (takeWhile (\<lambda>x. x \<in> set cs) s)))"
  by (induction s) auto

lemma find_last_not_of_rev:
  "find_last_not_of cs s = (if \<forall>x \<in> set s. x \<in> set cs then None
     else Some (length s - 1 - length (takeWhile (\<lambda>x. x \<in> set cs) (rev s))))"
proof (induction s)
  case (Cons x xs)
  have "length (takeWhile (\<lambda>x. x \<in> set cs) (rev xs)) < length xs" if "\<exists>y \<in> set xs. y \<notin> set cs"
    using that
    by (metis length_rev length_takeWhile_le le_neq_implies_less set_rev set_takeWhileD takeWhile_eq_take take_all)
  with Cons show ?case
    by (auto simp: takeWhile_append split: if_splits)
qed simp

section \<open>Numbers\<close>

text \<open>\<open>to_string\<close> of a number that is not negative.\<close>

fun to_string :: "nat \<Rightarrow> byte list" where
  "to_string n = (if n < 10 then [] else to_string (n div 10)) @ [48 + of_nat (n mod 10)]"

declare to_string.simps [simp del]

end
