(* ===== verification/Kcp_Net.thy ===== *)
theory Kcp_Net
  imports Kcp_Time Kcp_Send Kcp_Input Kcp_Flush Std_String "HOL-Library.AList"
begin

text \<open>
  Sessions over KCP, \<open>src/kcp-cpp/KCPNet.cpp\<close> and \<open>KCPNet.h\<close>: a client with its two threads, a server
  that keeps a session per peer in a map, time-outs by heart beats and the exchange of time packets.
  The build takes KCP from its own repository, so its functions are the parameter \<open>K\<close>, a record of
  operations; \<open>learn_kcp\<close> is the one of \<open>src/kcp_learn/ikcp.c\<close>. What the
  application passes in (\<open>rValidate\<close>, whether there are callbacks) and what the sockets and the clock
  deliver are arguments. One round of a thread's loop is one function, composed of the sections
  between locking and unlocking the mutex.
\<close>

section \<open>KCP as the sessions see it\<close>

record 'k kcp_api =
  api_create :: "u32 \<Rightarrow> 'k option"
  api_output :: "'k \<Rightarrow> 'k"                        \<comment> \<open>set the output callback\<close>
  api_nodelay :: "'k \<Rightarrow> int \<Rightarrow> int \<Rightarrow> int \<Rightarrow> int \<Rightarrow> 'k \<times> int"
  api_setmtu :: "'k \<Rightarrow> int \<Rightarrow> 'k \<times> int"
  api_wndsize :: "'k \<Rightarrow> int \<Rightarrow> int \<Rightarrow> 'k \<times> int"
  api_send :: "'k \<Rightarrow> byte list \<Rightarrow> kcp_fault + 'k \<times> int"
  api_input :: "'k \<Rightarrow> byte list \<Rightarrow> kcp_fault + 'k \<times> int"
  api_recv :: "'k \<Rightarrow> int \<Rightarrow> kcp_fault + 'k \<times> int \<times> byte list"
  api_update :: "'k \<Rightarrow> u32 \<Rightarrow> kcp_fault + 'k \<times> byte list list"
  api_check :: "'k \<Rightarrow> u32 \<Rightarrow> u32"

definition learn_kcp :: "(nat \<Rightarrow> bool) \<Rightarrow> ikcpcb kcp_api" where
  "learn_kcp alloc =
     \<lparr>api_create = ikcp_create alloc, api_output = (\<lambda>kcp. ikcp_setoutput kcp True), api_nodelay = ikcp_nodelay,
      api_setmtu = ikcp_setmtu alloc, api_wndsize = ikcp_wndsize,
      api_send = (\<lambda>kcp b. ikcp_send alloc kcp b (int (length b))), api_input = ikcp_input alloc,
      api_recv = (\<lambda>kcp. ikcp_recv kcp True), api_update = ikcp_update, api_check = ikcp_check\<rparr>"

definition KCP_MAX_BYTES :: nat where "KCP_MAX_BYTES = 4096"
definition HEART_BEAT_DISTANCE :: u64 where "HEART_BEAT_DISTANCE = 500"
definition HEART_BEAT_TIME_OUT :: u64 where "HEART_BEAT_TIME_OUT = 10"
definition TIME_PACKETS_BURST_DISTANCE_MS :: u64 where "TIME_PACKETS_BURST_DISTANCE_MS = 100"
definition TIME_PACKETS_NORMAL_DISTANCE_MS :: u64 where "TIME_PACKETS_NORMAL_DISTANCE_MS = 1000"

record KCPSettings =
  mNoDelay :: bool
  mInterval :: int
  mResend :: int
  mFlow :: bool
  mMtu :: int
  mSndWnd :: int
  mRcvWnd :: int

definition default_settings :: KCPSettings where
  "default_settings = \<lparr>mNoDelay = False, mInterval = 10, mResend = 0, mFlow = True, mMtu = 1472,
     mSndWnd = 32, mRcvWnd = 32\<rparr>"

text \<open>The object of the application in a context is opaque.\<close>

record KCPContext =
  mObject :: nat
  mUnsafePointer :: nat
  mValue :: u64
  mID :: u64
  mSettings :: KCPSettings
  mKCPSocket :: "byte list"

definition make_context :: "byte list \<Rightarrow> KCPContext" where
  "make_context lKey = \<lparr>mObject = 0, mUnsafePointer = 0, mValue = 0, mID = 10, mSettings = default_settings,
     mKCPSocket = lKey\<rparr>"

text \<open>The calls of the application's functions, in order.\<close>

datatype call = Got_data "byte list" "byte list" | Disconnected "byte list"

text \<open>What client and server do alike: apply settings, and hand a datagram to KCP.\<close>

definition apply_settings :: "'k kcp_api \<Rightarrow> KCPSettings \<Rightarrow> 'k \<Rightarrow> 'k \<times> int" where
  "apply_settings K rSettings kcp =
     (let (kcp, lResult) = api_nodelay K kcp (of_bool (mNoDelay rSettings)) (mInterval rSettings)
            (mResend rSettings) (of_bool (\<not> mFlow rSettings))
      in if lResult \<noteq> 0 then (kcp, lResult)
         else let (kcp, lResult) = api_setmtu K kcp (mMtu rSettings)
              in if lResult \<noteq> 0 then (kcp, lResult)
                 else api_wndsize K kcp (mSndWnd rSettings) (mRcvWnd rSettings))"

definition feed :: "'k kcp_api \<Rightarrow> 'k \<Rightarrow> byte list \<Rightarrow> kcp_fault + 'k \<times> int \<times> byte list" where
  "feed K kcp d =
     (case api_input K kcp d of
        Inl f \<Rightarrow> Inl f
      | Inr (kcp, rc) \<Rightarrow> api_recv K kcp (int KCP_MAX_BYTES))"

text \<open>A datagram fills the front of the receive buffer; what an earlier one left behind it stays.\<close>

definition received :: "byte list \<Rightarrow> byte list \<Rightarrow> byte list" where
  "received d buf = d @ drop (length d) buf"

definition is_time :: "byte list \<Rightarrow> bool" where
  "is_time buf \<longleftrightarrow> get64 0 buf = TIME_PREAMBLE_V1"

section \<open>The client\<close>

record 'k client =
  cl_KCP :: "'k option"
  cl_time :: client_time
  cl_ConnectionTimeOut :: u64
  cl_HeartBeatIntervalTrigger :: u64
  cl_NetworkThreadRunning :: bool
  cl_receiveBuffer :: "byte list"
  cl_sent :: "byte list list"
  cl_calls :: "call list"

definition configureClient :: "'k kcp_api \<Rightarrow> 'k client \<Rightarrow> KCPSettings \<Rightarrow> byte list \<Rightarrow> u16 \<Rightarrow> u32 \<Rightarrow> 'k client \<times> int" where
  "configureClient K c rSettings lIP lPort lID =
     (if lIP = [] then (c, 1)
      else if lPort = 0 then (c, 1)
      else if lID = 0 then (c, 1)
      else case api_create K lID of
             None \<Rightarrow> (c\<lparr>cl_KCP := None\<rparr>, 1)
           | Some kcp \<Rightarrow>
               let kcp = api_output K kcp;
                   c = c\<lparr>cl_NetworkThreadRunning := True\<rparr>;
                   (kcp, lResult) = apply_settings K rSettings kcp
               in (c\<lparr>cl_KCP := Some kcp\<rparr>, lResult))"

definition sendDataClient :: "'k kcp_api \<Rightarrow> 'k client \<Rightarrow> byte list \<Rightarrow> kcp_fault + 'k client \<times> int" where
  "sendDataClient K c pData =
     (case cl_KCP c of
        None \<Rightarrow> Inl Null_deref
      | Some kcp \<Rightarrow>
          (case api_send K kcp pData of
             Inl f \<Rightarrow> Inl f
           | Inr (kcp, rc) \<Rightarrow> Inr (c\<lparr>cl_KCP := Some kcp\<rparr>, rc)))"

text \<open>One round of \<open>netWorkerClient\<close>; an empty datagram stands for the end or an error of the socket.\<close>

definition netWorkerClient :: "'k kcp_api \<Rightarrow> bool \<Rightarrow> 'k client \<Rightarrow> byte list \<Rightarrow> u64 \<Rightarrow> kcp_fault + 'k client" where
  "netWorkerClient K rGotData c datagram now =
     (let d = take KCP_MAX_BYTES datagram
      in if d = [] \<or> \<not> cl_NetworkThreadRunning c then Inr (c\<lparr>cl_NetworkThreadRunning := False\<rparr>)
         else let c = c\<lparr>cl_receiveBuffer := received d (cl_receiveBuffer c)\<rparr>
         in if is_time (cl_receiveBuffer c)
            then let (tm, buf) = answer_time (cl_time c) (cl_receiveBuffer c) now
                 in Inr (c\<lparr>cl_time := tm, cl_receiveBuffer := buf, cl_sent := cl_sent c @ [take 56 buf],
                           cl_ConnectionTimeOut := HEART_BEAT_TIME_OUT\<rparr>)
            else let c = c\<lparr>cl_ConnectionTimeOut := HEART_BEAT_TIME_OUT\<rparr>
                 in case cl_KCP c of
                      None \<Rightarrow> Inl Null_deref
                    | Some kcp \<Rightarrow>
                        (case feed K kcp d of
                           Inl f \<Rightarrow> Inl f
                         | Inr (kcp, lRcv, lBuffer) \<Rightarrow>
                             Inr (c\<lparr>cl_KCP := Some kcp,
                                    cl_calls := (if lRcv > 0 \<and> rGotData then cl_calls c @ [Got_data [] lBuffer]
                                                 else cl_calls c)\<rparr>)))"

text \<open>
  One round of \<open>kcpNudgeWorkerClient\<close> at \<open>lTimeNowus\<close> microseconds after its start, with the
  milliseconds it sleeps before the next.
\<close>

definition client_heart_beat :: "bool \<Rightarrow> 'k client \<Rightarrow> u64 \<Rightarrow> 'k client" where
  "client_heart_beat rDisconnect c lTimeNowms =
     (if lTimeNowms > cl_HeartBeatIntervalTrigger c
      then let c = c\<lparr>cl_HeartBeatIntervalTrigger := cl_HeartBeatIntervalTrigger c + HEART_BEAT_DISTANCE\<rparr>;
               c = (if cl_ConnectionTimeOut c = 0 \<and> rDisconnect
                    then c\<lparr>cl_calls := cl_calls c @ [Disconnected []], cl_ConnectionTimeOut := HEART_BEAT_TIME_OUT\<rparr>
                    else c)
           in c\<lparr>cl_ConnectionTimeOut := cl_ConnectionTimeOut c - 1\<rparr>
      else c)"

definition kcpNudgeWorkerClient :: "'k kcp_api \<Rightarrow> bool \<Rightarrow> 'k client \<Rightarrow> u64 \<Rightarrow> kcp_fault + 'k client \<times> u32" where
  "kcpNudgeWorkerClient K rDisconnect c lTimeNowus =
     (let c = c\<lparr>cl_time := nudge_time (cl_time c) lTimeNowus\<rparr>;
          lTimeNowms = lTimeNowus div 1000;
          c = client_heart_beat rDisconnect c lTimeNowms
      in case cl_KCP c of
           None \<Rightarrow> Inl Null_deref
         | Some kcp \<Rightarrow>
             (case api_update K kcp (ucast lTimeNowms) of
                Inl f \<Rightarrow> Inl f
              | Inr (kcp, out) \<Rightarrow>
                  Inr (c\<lparr>cl_KCP := Some kcp, cl_sent := cl_sent c @ out\<rparr>,
                       ucast (ucast (api_check K kcp (ucast lTimeNowms)) - lTimeNowms))))"

text \<open>
  How the destructors wait for a thread: at most ten looks at its flag, with a pause between them.
  The values of the flag at the successive looks are given; the result tells whether the thread had
  ended, and how many pauses were made.
\<close>

fun join_wait :: "nat \<Rightarrow> (nat \<Rightarrow> bool) \<Rightarrow> nat \<Rightarrow> bool \<times> nat" where
  "join_wait 0 running i = (\<not> running i, i)"
| "join_wait (Suc lDeadLock) running i =
     (if running i
      then if lDeadLock = 0 then (False, i + 1) else join_wait lDeadLock running (i + 1)
      else (True, i))"

definition client_quit :: "bool \<Rightarrow> 'k client \<Rightarrow> 'k client" where
  "client_quit rDisconnect c = c\<lparr>cl_calls := cl_calls c @ (if rDisconnect then [Disconnected []] else [])\<rparr>"

text \<open>
  The destructors read the flag of the network thread once before the loop. The block is released also
  when a thread has not ended, which the second result tells.
\<close>

definition client_destroy :: "'k client \<Rightarrow> (nat \<Rightarrow> bool) \<Rightarrow> (nat \<Rightarrow> bool) \<Rightarrow> 'k client \<times> bool" where
  "client_destroy c netRunning nudgeRunning =
     (let net = (if netRunning 0 then fst (join_wait 10 netRunning 1) else True);
          nudge = fst (join_wait 10 nudgeRunning 0)
      in (c\<lparr>cl_KCP := None\<rparr>, net \<and> nudge))"

section \<open>The server\<close>

text \<open>A peer: textual address and port.\<close>

type_synonym peer = "byte list \<times> u16"

definition key_of :: "peer \<Rightarrow> byte list" where
  "key_of p = fst p @ bs '':'' @ to_string (unat (snd p))"

record 'k server_data =
  mKCPServer :: 'k
  mKCPContext :: KCPContext
  mDestination :: peer
  mConnectionTimeOut :: u64
  sd_time :: time_state

record 'k net_server =
  mKCPMap :: "(byte list \<times> 'k server_data) list"
  mDropAll :: bool
  mCTX :: "KCPContext option"
  mHeartBeatIntervalTrigger :: u64
  mSendTimeIntervalTriggerLow :: u64
  mSendTimeIntervalTriggerHi :: u64
  mNetworkThreadRunning :: bool
  receiveBuffer :: "byte list"
  net_sent :: "(peer \<times> byte list) list"
  net_calls :: "call list"

text \<open>
  The functions of the application: \<open>rValidate\<close> with the context it leaves behind, or its refusal, and
  whether \<open>rGotData\<close> and \<open>rDisconnect\<close> are there.
\<close>

record callbacks =
  rGotData :: bool
  rDisconnect :: bool
  rValidate :: "(byte list \<Rightarrow> u16 \<Rightarrow> KCPContext \<Rightarrow> KCPContext option) option"

definition configureServer :: "'k net_server \<Rightarrow> byte list \<Rightarrow> u16 \<Rightarrow> KCPContext option \<Rightarrow> 'k net_server \<times> int" where
  "configureServer s lIP lPort pCTX =
     (let s = s\<lparr>mCTX := pCTX\<rparr>
      in if lIP = [] then (s, 1)
         else if lPort = 0 then (s, 1)
         else (s\<lparr>mNetworkThreadRunning := True\<rparr>, 0))"

definition sendDataServer :: "'k kcp_api \<Rightarrow> 'k net_server \<Rightarrow> byte list \<Rightarrow> KCPContext \<Rightarrow> kcp_fault + 'k net_server \<times> int" where
  "sendDataServer K s pData pCTX =
     (case map_of (mKCPMap s) (mKCPSocket pCTX) of
        None \<Rightarrow> Inr (s, -1)
      | Some sd \<Rightarrow>
          (case api_send K (mKCPServer sd) pData of
             Inl f \<Rightarrow> Inl f
           | Inr (kcp, lStatus) \<Rightarrow>
               Inr (s\<lparr>mKCPMap := AList.update (mKCPSocket pCTX) (sd\<lparr>mKCPServer := kcp\<rparr>) (mKCPMap s)\<rparr>, lStatus)))"

subsection \<open>The nudge thread\<close>

definition udpOutputServer :: "bool \<Rightarrow> peer \<Rightarrow> byte list list \<Rightarrow> (peer \<times> byte list) list" where
  [simp]: "udpOutputServer dropAll dest out = (if dropAll then [] else map (Pair dest) out)"

text \<open>
  The loop body for one session: it is dropped (\<open>None\<close>) or updated, with the proposed sleep, what is
  sent to the peer and the calls of the application. \<open>udpOutputServer\<close> drops what KCP sends when
  \<open>mDropAll\<close> is set; time packets are sent all the same.
\<close>

definition nudge_session :: "'k kcp_api \<Rightarrow> bool \<Rightarrow> bool \<Rightarrow> bool \<Rightarrow> bool \<Rightarrow> bool \<Rightarrow> u64 \<Rightarrow> u64 \<Rightarrow> byte list \<Rightarrow>
    'k server_data \<Rightarrow> kcp_fault + ('k server_data option \<times> u32 \<times> (peer \<times> byte list) list \<times> call list)" where
  "nudge_session K disconnect dropAll ltimeOutFlag lSendTimeLowFreq lSendTimeHiFreq lTimeNow nowus key sd =
     (if ltimeOutFlag \<and> mConnectionTimeOut sd = 0 \<and> disconnect
      then Inr (None, -1, [], [Disconnected key])
      else let sd = (if ltimeOutFlag then sd\<lparr>mConnectionTimeOut := mConnectionTimeOut sd - 1\<rparr> else sd)
           in case api_update K (mKCPServer sd) (ucast lTimeNow) of
                Inl f \<Rightarrow> Inl f
              | Inr (kcp, out) \<Rightarrow>
                  let sd = sd\<lparr>mKCPServer := kcp\<rparr>;
                      lTimeSleepCandidate = ucast (ucast (api_check K kcp (ucast lTimeNow)) - lTimeNow);
                      out = udpOutputServer dropAll (mDestination sd) out;
                      time = (if \<not> mClientGotCorrection (sd_time sd) \<and> lSendTimeHiFreq \<or>
                                 mClientGotCorrection (sd_time sd) \<and> lSendTimeLowFreq
                              then [(mDestination sd, sendTimePacket (sd_time sd) nowus)] else [])
                  in Inr (Some sd, lTimeSleepCandidate, out @ time, []))"

fun nudge_sessions :: "'k kcp_api \<Rightarrow> bool \<Rightarrow> bool \<Rightarrow> bool \<Rightarrow> bool \<Rightarrow> bool \<Rightarrow> u64 \<Rightarrow> u64 \<Rightarrow>
    (byte list \<times> 'k server_data) list \<Rightarrow> u32 \<Rightarrow>
    kcp_fault + ((byte list \<times> 'k server_data) list \<times> u32 \<times> (peer \<times> byte list) list \<times> call list)" where
  "nudge_sessions K disc drp hb lo hi now nowus [] lowest = Inr ([], lowest, [], [])"
| "nudge_sessions K disc drp hb lo hi now nowus ((key, sd) # rest) lowest =
     (case nudge_session K disc drp hb lo hi now nowus key sd of
        Inl f \<Rightarrow> Inl f
      | Inr (r, candidate, out, calls) \<Rightarrow>
          (case nudge_sessions K disc drp hb lo hi now nowus rest (if candidate < lowest then candidate else lowest) of
             Inl f \<Rightarrow> Inl f
           | Inr (rest', lowest', out', calls') \<Rightarrow>
               Inr ((case r of None \<Rightarrow> [] | Some sd' \<Rightarrow> [(key, sd')]) @ rest', lowest', out @ out', calls @ calls')))"

text \<open>One round, \<open>lTimeNow\<close> milliseconds after the start, with the milliseconds it sleeps before the next.\<close>

definition kcpNudgeWorkerServer :: "'k kcp_api \<Rightarrow> callbacks \<Rightarrow> 'k net_server \<Rightarrow> u64 \<Rightarrow> u64 \<Rightarrow> kcp_fault + 'k net_server \<times> u32" where
  "kcpNudgeWorkerServer K cb s lTimeNow nowus =
     (let hb = (lTimeNow > mHeartBeatIntervalTrigger s);
          s = (if hb then s\<lparr>mHeartBeatIntervalTrigger := mHeartBeatIntervalTrigger s + HEART_BEAT_DISTANCE\<rparr> else s);
          lo = (lTimeNow > mSendTimeIntervalTriggerLow s);
          s = (if lo then s\<lparr>mSendTimeIntervalTriggerLow := mSendTimeIntervalTriggerLow s + TIME_PACKETS_NORMAL_DISTANCE_MS\<rparr>
               else s);
          hi = (lTimeNow > mSendTimeIntervalTriggerHi s);
          s = (if hi then s\<lparr>mSendTimeIntervalTriggerHi := mSendTimeIntervalTriggerHi s + TIME_PACKETS_BURST_DISTANCE_MS\<rparr>
               else s)
      in case nudge_sessions K (rDisconnect cb) (mDropAll s) hb lo hi lTimeNow nowus (mKCPMap s) (-1) of
           Inl f \<Rightarrow> Inl f
         | Inr (m, lTimeSleepLowest, out, calls) \<Rightarrow>
             Inr (s\<lparr>mKCPMap := m, net_sent := net_sent s @ out, net_calls := net_calls s @ calls\<rparr>,
                  if lTimeSleepLowest \<noteq> -1 then lTimeSleepLowest else 10))"

subsection \<open>The network thread\<close>

text \<open>The sections of a round for a new peer: create, configure, hand over the datagram.\<close>

definition net_create :: "'k kcp_api \<Rightarrow> 'k net_server \<Rightarrow> byte list \<Rightarrow> KCPContext \<Rightarrow> peer \<Rightarrow> kcp_fault + 'k net_server" where
  "net_create K s lKey lx from =
     (case api_create K (ucast (mID lx)) of
        None \<Rightarrow> Inl Abort
      | Some kcp \<Rightarrow>
          let lConnection = \<lparr>mKCPServer = api_output K kcp, mKCPContext = lx, mDestination = from,
                mConnectionTimeOut = HEART_BEAT_TIME_OUT, sd_time = time_start\<rparr>
          in Inr (s\<lparr>mKCPMap := AList.update lKey lConnection (mKCPMap s)\<rparr>))"

definition configureInternal :: "'k kcp_api \<Rightarrow> 'k net_server \<Rightarrow> KCPContext \<Rightarrow> 'k net_server \<times> int" where
  "configureInternal K s pCTX =
     (case map_of (mKCPMap s) (mKCPSocket pCTX) of
        None \<Rightarrow> (s, 0)
      | Some sd \<Rightarrow>
          let (kcp, lResult) = apply_settings K (mSettings pCTX) (mKCPServer sd)
          in (s\<lparr>mKCPMap := AList.update (mKCPSocket pCTX) (sd\<lparr>mKCPServer := kcp\<rparr>) (mKCPMap s)\<rparr>, lResult))"

definition net_feed :: "'k kcp_api \<Rightarrow> callbacks \<Rightarrow> 'k net_server \<Rightarrow> byte list \<Rightarrow> byte list \<Rightarrow> kcp_fault + 'k net_server" where
  "net_feed K cb s lKey d =
     (case map_of (mKCPMap s) lKey of
        None \<Rightarrow> Inl Null_deref
      | Some sd \<Rightarrow>
          (case feed K (mKCPServer sd) d of
             Inl f \<Rightarrow> Inl f
           | Inr (kcp, lRcv, lBuffer) \<Rightarrow>
               Inr (s\<lparr>mKCPMap := AList.update lKey (sd\<lparr>mKCPServer := kcp\<rparr>) (mKCPMap s),
                      net_calls := (if lRcv > 0 \<and> rGotData cb then net_calls s @ [Got_data lKey lBuffer]
                                    else net_calls s)\<rparr>)))"

text \<open>The section for a known peer.\<close>

definition net_known :: "'k kcp_api \<Rightarrow> callbacks \<Rightarrow> 'k net_server \<Rightarrow> byte list \<Rightarrow> 'k server_data \<Rightarrow> byte list \<Rightarrow> u64 \<Rightarrow>
    kcp_fault + 'k net_server" where
  "net_known K cb s lKey sd d now =
     (if is_time (receiveBuffer s)
      then let sd = sd\<lparr>sd_time := got_time (packet_at (receiveBuffer s)) now (sd_time sd)\<rparr>
           in Inr (s\<lparr>receiveBuffer := put64 32 now (receiveBuffer s),
                     mKCPMap := AList.update lKey sd (mKCPMap s)\<rparr>)
      else net_feed K cb
             (s\<lparr>mKCPMap := AList.update lKey (sd\<lparr>mConnectionTimeOut := HEART_BEAT_TIME_OUT\<rparr>) (mKCPMap s)\<rparr>) lKey d)"

definition new_context :: "'k net_server \<Rightarrow> byte list \<Rightarrow> KCPContext" where
  "new_context s lKey =
     (let lx = make_context lKey
      in case mCTX s of
           None \<Rightarrow> lx
         | Some ctx \<Rightarrow> lx\<lparr>mUnsafePointer := mUnsafePointer ctx, mValue := mValue ctx, mObject := mObject ctx\<rparr>)"

definition net_new :: "'k kcp_api \<Rightarrow> callbacks \<Rightarrow> 'k net_server \<Rightarrow> byte list \<Rightarrow> peer \<Rightarrow> byte list \<Rightarrow> kcp_fault + 'k net_server" where
  "net_new K cb s lKey from d =
     (let lx = new_context s lKey
      in case (case rValidate cb of None \<Rightarrow> Some lx | Some validate \<Rightarrow> validate (fst from) (snd from) lx) of
           None \<Rightarrow> Inr s
         | Some lx \<Rightarrow>
             (case net_create K s lKey lx from of
                Inl f \<Rightarrow> Inl f
              | Inr s \<Rightarrow>
                  let (s, lResult) = configureInternal K s lx
                  in if is_time (receiveBuffer s) then Inr s else net_feed K cb s lKey d))"

definition netWorkerServer :: "'k kcp_api \<Rightarrow> callbacks \<Rightarrow> 'k net_server \<Rightarrow> byte list \<Rightarrow> peer \<Rightarrow> u64 \<Rightarrow> kcp_fault + 'k net_server" where
  "netWorkerServer K cb s datagram lFromWho now =
     (let d = take KCP_MAX_BYTES datagram
      in if d = [] \<or> \<not> mNetworkThreadRunning s then Inr (s\<lparr>mNetworkThreadRunning := False\<rparr>)
         else let s = s\<lparr>receiveBuffer := received d (receiveBuffer s)\<rparr>
         in if mDropAll s then Inr s
            else let lKey = key_of lFromWho
                 in case map_of (mKCPMap s) lKey of
                      None \<Rightarrow> net_new K cb s lKey lFromWho d
                    | Some sd \<Rightarrow> net_known K cb s lKey sd d now)"

text \<open>The end of the nudge thread and the destructor.\<close>

definition nudge_quit :: "callbacks \<Rightarrow> 'k net_server \<Rightarrow> 'k net_server" where
  "nudge_quit cb s = s\<lparr>net_calls := net_calls s @ (if rDisconnect cb then map (Disconnected \<circ> fst) (mKCPMap s) else [])\<rparr>"

definition server_destroy :: "'k net_server \<Rightarrow> (nat \<Rightarrow> bool) \<Rightarrow> (nat \<Rightarrow> bool) \<Rightarrow> 'k net_server \<times> bool" where
  "server_destroy s netRunning nudgeRunning =
     (let net = (if netRunning 0 then fst (join_wait 10 netRunning 1) else True);
          nudge = fst (join_wait 10 nudgeRunning 0)
      in (s\<lparr>mKCPMap := []\<rparr>, net \<and> nudge))"

section \<open>Runs of the server\<close>

text \<open>A datagram arrives, the nudge thread makes a round, or the application sends to the session of a key.\<close>

datatype server_event = Arrive "byte list" peer u64 | Nudge u64 u64 | Send "byte list" "byte list"

fun server_step :: "'k kcp_api \<Rightarrow> callbacks \<Rightarrow> server_event \<Rightarrow> 'k net_server \<Rightarrow> kcp_fault + 'k net_server" where
  "server_step K cb (Arrive d p now) s = netWorkerServer K cb s d p now"
| "server_step K cb (Nudge t us) s = map_sum id fst (kcpNudgeWorkerServer K cb s t us)"
| "server_step K cb (Send key b) s = map_sum id fst (sendDataServer K s b (make_context key))"

fun server_run :: "'k kcp_api \<Rightarrow> callbacks \<Rightarrow> server_event list \<Rightarrow> 'k net_server \<Rightarrow> kcp_fault + 'k net_server" where
  "server_run K cb [] s = Inr s"
| "server_run K cb (e # es) s = (case server_step K cb e s of Inl f \<Rightarrow> Inl f | Inr s' \<Rightarrow> server_run K cb es s')"

definition server_start :: "KCPContext option \<Rightarrow> byte list \<Rightarrow> 'k net_server" where
  "server_start ctx buf = \<lparr>mKCPMap = [], mDropAll = False, mCTX = ctx, mHeartBeatIntervalTrigger = 0,
     mSendTimeIntervalTriggerLow = 0, mSendTimeIntervalTriggerHi = 0, mNetworkThreadRunning = True,
     receiveBuffer = buf, net_sent = [], net_calls = []\<rparr>"

text \<open>What concerns the session of a key.\<close>

fun concerns :: "byte list \<Rightarrow> server_event \<Rightarrow> bool" where
  "concerns k (Arrive d p now) = (key_of p = k)"
| "concerns k (Nudge t us) = True"
| "concerns k (Send key b) = (key = k)"

fun call_key :: "call \<Rightarrow> byte list" where
  "call_key (Got_data k b) = k"
| "call_key (Disconnected k) = k"

definition sent_to :: "byte list \<Rightarrow> (peer \<times> byte list) list \<Rightarrow> (peer \<times> byte list) list" where
  "sent_to k = filter (\<lambda>(p, d). key_of p = k)"

definition calls_for :: "byte list \<Rightarrow> call list \<Rightarrow> call list" where
  "calls_for k = filter (\<lambda>c. call_key c = k)"

lemma sent_to_simps [simp]: "sent_to k [] = []" "sent_to k (xs @ ys) = sent_to k xs @ sent_to k ys"
  by (simp_all add: sent_to_def)

lemma calls_for_simps [simp]: "calls_for k [] = []" "calls_for k (xs @ ys) = calls_for k xs @ calls_for k ys"
  "calls_for k [c] = (if call_key c = k then [c] else [])"
  by (simp_all add: calls_for_def)

text \<open>The sessions are filed under the keys of their peers.\<close>

definition filed :: "(byte list \<times> 'k server_data) list \<Rightarrow> bool" where
  "filed m \<longleftrightarrow> distinct (map fst m) \<and> (\<forall>(k, sd) \<in> set m. key_of (mDestination sd) = k)"

lemma filed_Nil [simp]: "filed []"
  by (simp add: filed_def)

lemma filed_Cons: "filed ((k, sd) # m) \<longleftrightarrow> k \<notin> fst ` set m \<and> key_of (mDestination sd) = k \<and> filed m"
  by (auto simp: filed_def)

lemma filed_update:
  assumes "filed m" and "key_of (mDestination sd) = k"
  shows "filed (AList.update k sd m)"
proof -
  have "key_of (mDestination sd') = k'" if "map_of (AList.update k sd m) k' = Some sd'" for k' sd'
    using that assms by (auto simp: update_conv' filed_def split: if_splits dest: map_of_SomeD)
  moreover have d: "distinct (map fst (AList.update k sd m))"
    using assms(1) by (simp add: filed_def distinct_update)
  ultimately show ?thesis by (auto simp: filed_def)
qed

lemma filed_lookup: "filed m \<Longrightarrow> map_of m k = Some sd \<Longrightarrow> key_of (mDestination sd) = k"
  by (auto simp: filed_def dest: map_of_SomeD)

lemma nudge_session_dest:
  assumes "nudge_session K disc drp hb lo hi now us k sd = Inr (r, c, out, calls)"
  shows "\<forall>x \<in> set out. fst x = mDestination sd" and "\<forall>x \<in> set calls. call_key x = k"
    and "r = Some sd' \<Longrightarrow> mDestination sd' = mDestination sd"
  using assms by (auto simp: nudge_session_def Let_def split: if_splits sum.splits prod.splits)

lemma nudge_sessions_view:
  assumes "nudge_sessions K disc drp hb lo hi now us m low = Inr (m', low', out, calls)" and "filed m"
  shows "filed m' \<and> fst ` set m' \<subseteq> fst ` set m \<and>
    (case map_of m k of
       None \<Rightarrow> map_of m' k = None \<and> sent_to k out = [] \<and> calls_for k calls = []
     | Some sd \<Rightarrow> \<exists>c. nudge_session K disc drp hb lo hi now us k sd =
         Inr (map_of m' k, c, sent_to k out, calls_for k calls))"
  using assms
proof (induction m arbitrary: low m' low' out calls)
  case (Cons x m)
  obtain j sd where x: "x = (j, sd)" by (cases x)
  from Cons.prems x obtain r c o1 c1 m2 low2 o2 c2 where
    s: "nudge_session K disc drp hb lo hi now us j sd = Inr (r, c, o1, c1)"
    and rest: "nudge_sessions K disc drp hb lo hi now us m (if c < low then c else low) = Inr (m2, low2, o2, c2)"
    and res: "m' = (case r of None \<Rightarrow> [] | Some sd' \<Rightarrow> [(j, sd')]) @ m2" "out = o1 @ o2" "calls = c1 @ c2"
    by (auto split: sum.splits prod.splits)
  have f: "filed m" "j \<notin> fst ` set m" "key_of (mDestination sd) = j" using Cons.prems x by (auto simp: filed_Cons)
  note IH = Cons.IH [OF rest f(1)]
  have none: "sent_to k o1 = (if k = j then o1 else [])" "calls_for k c1 = (if k = j then c1 else [])"
    using nudge_session_dest(1,2) [OF s] f(3) by (auto simp: sent_to_def calls_for_def filter_id_conv filter_empty_conv)
  have "map_of m2 j = None" using IH f(2) by (auto simp: map_of_eq_None_iff)
  then have lookup: "map_of m' k = (if k = j then r else map_of m2 k)"
    by (auto simp: res split: option.split)
  have filed: "filed m'"
    using IH f nudge_session_dest(3) [OF s] by (auto simp: res filed_Cons split: option.split)
  show ?case
  proof (cases "k = j")
    case True
    have mk: "map_of m k = None" using f(2) True by (simp add: map_of_eq_None_iff)
    have z: "sent_to k o2 = []" "calls_for k c2 = []" using IH unfolding mk by simp_all
    show ?thesis using filed IH True s none lookup z by (auto simp: x res split: option.split)
  next
    case False
    then show ?thesis
      using filed IH none lookup by (auto simp: x res split: option.split)
  qed
qed simp

section \<open>One session by itself\<close>

text \<open>
  The specification of a session: what the server would do if this peer were its only one. There is no
  map and no receive buffer that others have written to.
\<close>

record 'k session =
  ss_data :: "'k server_data option"
  ss_heart :: u64
  ss_low :: u64
  ss_hi :: u64
  ss_sent :: "(peer \<times> byte list) list"
  ss_calls :: "call list"

definition session_feed :: "'k kcp_api \<Rightarrow> callbacks \<Rightarrow> byte list \<Rightarrow> 'k server_data \<Rightarrow> byte list \<Rightarrow>
    kcp_fault + 'k server_data option \<times> call list" where
  "session_feed K cb key sd d =
     (case feed K (mKCPServer sd) d of
        Inl f \<Rightarrow> Inl f
      | Inr (kcp, n, b) \<Rightarrow>
          Inr (Some (sd\<lparr>mKCPServer := kcp\<rparr>), if n > 0 \<and> rGotData cb then [Got_data key b] else []))"

definition session_new :: "'k kcp_api \<Rightarrow> callbacks \<Rightarrow> KCPContext \<Rightarrow> peer \<Rightarrow> byte list \<Rightarrow>
    kcp_fault + 'k server_data option \<times> call list" where
  "session_new K cb lx from d =
     (case (case rValidate cb of None \<Rightarrow> Some lx | Some validate \<Rightarrow> validate (fst from) (snd from) lx) of
        None \<Rightarrow> Inr (None, [])
      | Some lx \<Rightarrow>
          (case api_create K (ucast (mID lx)) of
             None \<Rightarrow> Inl Abort
           | Some kcp \<Rightarrow>
               let sd = \<lparr>mKCPServer = fst (apply_settings K (mSettings lx) (api_output K kcp)), mKCPContext = lx,
                     mDestination = from, mConnectionTimeOut = HEART_BEAT_TIME_OUT, sd_time = time_start\<rparr>
               in if is_time d then Inr (Some sd, []) else session_feed K cb (key_of from) sd d))"

definition session_arrive :: "'k kcp_api \<Rightarrow> callbacks \<Rightarrow> KCPContext \<Rightarrow> 'k server_data option \<Rightarrow> peer \<Rightarrow> byte list \<Rightarrow> u64 \<Rightarrow>
    kcp_fault + 'k server_data option \<times> call list" where
  "session_arrive K cb lx data from d now =
     (case data of
        None \<Rightarrow> session_new K cb lx from d
      | Some sd \<Rightarrow>
          if is_time d then Inr (Some (sd\<lparr>sd_time := got_time (packet_at d) now (sd_time sd)\<rparr>), [])
          else session_feed K cb (key_of from) (sd\<lparr>mConnectionTimeOut := HEART_BEAT_TIME_OUT\<rparr>) d)"

fun session_step :: "'k kcp_api \<Rightarrow> callbacks \<Rightarrow> KCPContext option \<Rightarrow> server_event \<Rightarrow> 'k session \<Rightarrow> kcp_fault + 'k session" where
  "session_step K cb ctx (Arrive d p now) ss =
     (case session_arrive K cb (new_context (server_start ctx [] :: 'k net_server) (key_of p)) (ss_data ss) p
             (take KCP_MAX_BYTES d) now of
        Inl f \<Rightarrow> Inl f
      | Inr (data, calls) \<Rightarrow> Inr (ss\<lparr>ss_data := data, ss_calls := ss_calls ss @ calls\<rparr>))"
| "session_step K cb ctx (Nudge t us) ss =
     (let hb = (t > ss_heart ss); lo = (t > ss_low ss); hi = (t > ss_hi ss);
          ss = ss\<lparr>ss_heart := (if hb then ss_heart ss + HEART_BEAT_DISTANCE else ss_heart ss),
                 ss_low := (if lo then ss_low ss + TIME_PACKETS_NORMAL_DISTANCE_MS else ss_low ss),
                 ss_hi := (if hi then ss_hi ss + TIME_PACKETS_BURST_DISTANCE_MS else ss_hi ss)\<rparr>
      in case ss_data ss of
           None \<Rightarrow> Inr ss
         | Some sd \<Rightarrow>
             (case nudge_session K (rDisconnect cb) False hb lo hi t us (key_of (mDestination sd)) sd of
                Inl f \<Rightarrow> Inl f
              | Inr (data, _, out, calls) \<Rightarrow>
                  Inr (ss\<lparr>ss_data := data, ss_sent := ss_sent ss @ out, ss_calls := ss_calls ss @ calls\<rparr>)))"
| "session_step K cb ctx (Send key b) ss =
     (case ss_data ss of
        None \<Rightarrow> Inr ss
      | Some sd \<Rightarrow>
          (case api_send K (mKCPServer sd) b of
             Inl f \<Rightarrow> Inl f
           | Inr (kcp, rc) \<Rightarrow> Inr (ss\<lparr>ss_data := Some (sd\<lparr>mKCPServer := kcp\<rparr>)\<rparr>)))"

fun session_run :: "'k kcp_api \<Rightarrow> callbacks \<Rightarrow> KCPContext option \<Rightarrow> server_event list \<Rightarrow> 'k session \<Rightarrow> kcp_fault + 'k session" where
  "session_run K cb ctx [] ss = Inr ss"
| "session_run K cb ctx (e # es) ss =
     (case session_step K cb ctx e ss of Inl f \<Rightarrow> Inl f | Inr ss' \<Rightarrow> session_run K cb ctx es ss')"


text \<open>The part of the server's state that belongs to a key.\<close>

definition view :: "byte list \<Rightarrow> 'k net_server \<Rightarrow> 'k session" where
  "view k s = \<lparr>ss_data = map_of (mKCPMap s) k, ss_heart = mHeartBeatIntervalTrigger s,
     ss_low = mSendTimeIntervalTriggerLow s, ss_hi = mSendTimeIntervalTriggerHi s,
     ss_sent = sent_to k (net_sent s), ss_calls = calls_for k (net_calls s)\<rparr>"

text \<open>
  Datagrams that are read whole before a decision is made: long enough for the preamble, and a time
  packet also for its fields. Shorter ones are read together with what an earlier datagram left in the
  buffer.
\<close>

fun sized :: "server_event \<Rightarrow> bool" where
  "sized (Arrive d p now) = (56 \<le> length d \<or> 8 \<le> length d \<and> \<not> is_time d)"
| "sized _ = True"

definition keeps_key :: "callbacks \<Rightarrow> bool" where
  "keeps_key cb \<longleftrightarrow> (case rValidate cb of None \<Rightarrow> True
     | Some f \<Rightarrow> \<forall>ip port c c'. f ip port c = Some c' \<longrightarrow> mKCPSocket c' = mKCPSocket c)"

definition running :: "KCPContext option \<Rightarrow> 'k net_server \<Rightarrow> bool" where
  "running ctx s \<longleftrightarrow> filed (mKCPMap s) \<and> \<not> mDropAll s \<and> mCTX s = ctx \<and> mNetworkThreadRunning s"

lemma is_time_front: "8 \<le> length d \<Longrightarrow> is_time (received d buf) = is_time d"
  by (simp add: is_time_def get64_def received_def)

lemma is_time_take: "8 \<le> n \<Longrightarrow> is_time (take n d) = is_time d"
  by (simp add: is_time_def get64_def min_def)

lemma packet_at_front: "56 \<le> length d \<Longrightarrow> packet_at (received d buf) = packet_at d"
  by (simp add: packet_at_def get64_def received_def drop_append)

lemma packet_at_take: "56 \<le> n \<Longrightarrow> packet_at (take n d) = packet_at d"
  by (simp add: packet_at_def get64_def drop_take min_def)

lemma new_context_start: "mCTX s = ctx \<Longrightarrow> new_context s k = new_context (server_start ctx [] :: 'k net_server) k"
  for s :: "'k net_server"
  by (simp add: new_context_def server_start_def)

lemma socket_new_context: "mKCPSocket (new_context s k) = k"
  by (simp add: new_context_def make_context_def Let_def split: option.split)

text \<open>A datagram changes the session of its peer as the specification says, and nothing else.\<close>

lemma net_feed_session:
  assumes "map_of (mKCPMap s) k = Some sd"
  shows "net_feed K cb s k d =
    (case session_feed K cb k sd d of
       Inl f \<Rightarrow> Inl f
     | Inr (data, calls) \<Rightarrow>
         Inr (s\<lparr>mKCPMap := AList.update k (the data) (mKCPMap s), net_calls := net_calls s @ calls\<rparr>))"
  using assms by (auto simp: net_feed_def session_feed_def split: sum.split prod.split)

lemma net_new_session:
  assumes "keeps_key cb" and "key_of from = k" and "is_time (receiveBuffer s) = is_time d"
  shows "net_new K cb s k from d =
    (case session_new K cb (new_context s k) from d of
       Inl f \<Rightarrow> Inl f
     | Inr (None, calls) \<Rightarrow> Inr s
     | Inr (Some sd, calls) \<Rightarrow>
         Inr (s\<lparr>mKCPMap := AList.update k sd (mKCPMap s), net_calls := net_calls s @ calls\<rparr>))"
proof (cases "case rValidate cb of None \<Rightarrow> Some (new_context s k)
    | Some validate \<Rightarrow> validate (fst from) (snd from) (new_context s k)")
  case None
  then show ?thesis by (simp add: net_new_def session_new_def)
next
  case (Some lx)
  then have k: "mKCPSocket lx = k"
    using assms(1) socket_new_context [of s k] by (auto simp: keeps_key_def split: option.splits)
  show ?thesis
  proof (cases "api_create K (ucast (mID lx))")
    case None
    then show ?thesis using Some by (simp add: net_new_def session_new_def net_create_def)
  next
    case kcp: (Some kcp)
    then show ?thesis
      using Some k assms(2,3)
      by (simp add: net_new_def session_new_def net_create_def configureInternal_def Let_def update_conv'
          case_prod_beta update_last net_feed_session session_feed_def split: sum.split prod.split)
  qed
qed

lemma session_feed_frame:
  assumes "session_feed K cb k sd d = Inr (data, calls)"
  shows "\<exists>kcp. data = Some (sd\<lparr>mKCPServer := kcp\<rparr>)" and "\<forall>c \<in> set calls. call_key c = k"
  using assms by (auto simp: session_feed_def split: sum.splits prod.splits if_splits)

lemma session_new_frame:
  assumes "session_new K cb lx p d = Inr (data, calls)"
  shows "case data of None \<Rightarrow> calls = [] | Some sd \<Rightarrow> mDestination sd = p" and "\<forall>c \<in> set calls. call_key c = key_of p"
  using assms
  by (auto simp: session_new_def Let_def split: option.splits if_splits dest: session_feed_frame)

lemma view_update:
  assumes "running ctx s" and "key_of (mDestination sd) = k" and "\<forall>c \<in> set calls. call_key c = k"
    and "s' = s\<lparr>receiveBuffer := b, mKCPMap := AList.update k sd (mKCPMap s), net_calls := net_calls s @ calls\<rparr>"
  shows "running ctx s'" and "view k s' = (view k s)\<lparr>ss_data := Some sd, ss_calls := ss_calls (view k s) @ calls\<rparr>"
    and "j \<noteq> k \<Longrightarrow> view j s' = view j s"
proof -
  show "running ctx s'" using assms filed_update by (auto simp: running_def)
  have "calls_for k calls = calls" "j \<noteq> k \<Longrightarrow> calls_for j calls = []"
    using assms(3) by (auto simp: calls_for_def filter_id_conv filter_empty_conv)
  then show "view k s' = (view k s)\<lparr>ss_data := Some sd, ss_calls := ss_calls (view k s) @ calls\<rparr>"
    and "j \<noteq> k \<Longrightarrow> view j s' = view j s"
    by (simp_all add: view_def assms(4) update_conv')
qed

lemma arrive_session:
  fixes s :: "'k net_server"
  assumes "running ctx s" and "sized (Arrive d p now)" and "keeps_key cb" and "netWorkerServer K cb s d p now = Inr s'"
  shows "running ctx s' \<and>
    session_step K cb ctx (Arrive d p now) (view (key_of p) s) = Inr (view (key_of p) s') \<and>
    (\<forall>j. j \<noteq> key_of p \<longrightarrow> view j s' = view j s)"
proof -
  let ?d = "take KCP_MAX_BYTES d" and ?k = "key_of p"
  define s1 where "s1 = s\<lparr>receiveBuffer := received ?d (receiveBuffer s)\<rparr>"
  have len: "8 \<le> length ?d" "is_time d \<Longrightarrow> 56 \<le> length ?d" using assms(2) by (auto simp: KCP_MAX_BYTES_def)
  have time: "is_time (receiveBuffer s1) = is_time ?d" "is_time ?d = is_time d"
    using is_time_front [OF len(1)] by (simp_all add: s1_def is_time_take KCP_MAX_BYTES_def)
  have pkt: "is_time d \<Longrightarrow> packet_at (receiveBuffer s1) = packet_at ?d"
    using packet_at_front [OF len(2)] by (simp add: s1_def)
  have r1: "running ctx s1" "view j s1 = view j s" for j using assms(1) by (simp_all add: s1_def running_def view_def)
  have d: "?d \<noteq> []" using len(1) by auto
  have w: "(case map_of (mKCPMap s1) ?k of None \<Rightarrow> net_new K cb s1 ?k p ?d
      | Some sd \<Rightarrow> net_known K cb s1 ?k sd ?d now) = Inr s'"
    using assms(1,4) d unfolding netWorkerServer_def running_def Let_def s1_def by simp
  have ctx: "new_context s1 ?k = new_context (server_start ctx [] :: 'k net_server) ?k"
    using r1(1) by (intro new_context_start) (simp add: running_def)
  note upd = view_update [OF r1(1), of _ ?k]
  show ?thesis
  proof (cases "map_of (mKCPMap s1) ?k")
    case None
    from w None obtain data calls where
      n: "session_new K cb (new_context s1 ?k) p ?d = Inr (data, calls)"
      and s': "s' = (case data of None \<Rightarrow> s1
        | Some sd \<Rightarrow> s1\<lparr>mKCPMap := AList.update ?k sd (mKCPMap s1), net_calls := net_calls s1 @ calls\<rparr>)"
      using net_new_session [OF assms(3) refl time(1), of K p] by (auto split: sum.splits option.splits)
    note fr = session_new_frame [OF n]
    have step: "session_step K cb ctx (Arrive d p now) (view ?k s) =
        Inr ((view ?k s1)\<lparr>ss_data := data, ss_calls := ss_calls (view ?k s1) @ calls\<rparr>)"
      using None n [unfolded ctx] by (simp add: session_arrive_def view_def s1_def)
    show ?thesis
    proof (cases data)
      case None
      then have "(view ?k s1)\<lparr>ss_data := data, ss_calls := ss_calls (view ?k s1) @ calls\<rparr> = view ?k s1"
        using fr \<open>map_of (mKCPMap s1) ?k = None\<close> by (simp add: view_def)
      with step None show ?thesis using s' r1 by (simp del: session_step.simps)
    next
      case (Some sd)
      then show ?thesis
        using upd [of sd calls s' "receiveBuffer s1"] fr s' r1 step by (simp del: session_step.simps)
    qed
  next
    case (Some sd)
    have key: "key_of (mDestination sd) = ?k" using Some r1(1) by (auto simp: running_def dest: filed_lookup)
    show ?thesis
    proof (cases "is_time d")
      case True
      define sd' where "sd' = sd\<lparr>sd_time := got_time (packet_at ?d) now (sd_time sd)\<rparr>"
      have "s' = s1\<lparr>receiveBuffer := put64 32 now (receiveBuffer s1),
          mKCPMap := AList.update ?k sd' (mKCPMap s1), net_calls := net_calls s1 @ []\<rparr>"
        using w Some True time pkt [OF True] by (auto simp: net_known_def Let_def sd'_def)
      note u = upd [OF _ _ this]
      have "session_step K cb ctx (Arrive d p now) (view ?k s) =
          Inr ((view ?k s1)\<lparr>ss_data := Some sd', ss_calls := ss_calls (view ?k s1) @ []\<rparr>)"
        using Some True time(2) by (simp add: session_arrive_def view_def s1_def sd'_def)
      then show ?thesis using u key r1 by (simp add: sd'_def del: session_step.simps)
    next
      case False
      let ?sd = "sd\<lparr>mConnectionTimeOut := HEART_BEAT_TIME_OUT\<rparr>"
      let ?s = "s1\<lparr>mKCPMap := AList.update ?k ?sd (mKCPMap s1)\<rparr>"
      have "net_feed K cb ?s ?k ?d = Inr s'" using w Some False time by (simp add: net_known_def)
      moreover have "map_of (mKCPMap ?s) ?k = Some ?sd" by (simp add: update_conv')
      ultimately obtain data calls where
        f: "session_feed K cb ?k ?sd ?d = Inr (data, calls)"
        and s': "s' = s1\<lparr>receiveBuffer := receiveBuffer s1,
          mKCPMap := AList.update ?k (the data) (mKCPMap s1), net_calls := net_calls s1 @ calls\<rparr>"
        using net_feed_session [of ?s ?k ?sd K cb ?d] by (auto simp: update_last split: sum.splits)
      obtain kcp where data: "data = Some (?sd\<lparr>mKCPServer := kcp\<rparr>)" using session_feed_frame(1) [OF f] by blast
      have step: "session_step K cb ctx (Arrive d p now) (view ?k s) =
          Inr ((view ?k s1)\<lparr>ss_data := data, ss_calls := ss_calls (view ?k s1) @ calls\<rparr>)"
        using Some f False time(2) by (simp add: session_arrive_def view_def s1_def)
      show ?thesis
        using upd [OF _ session_feed_frame(2) [OF f] s'] key r1 step by (simp add: data del: session_step.simps)
    qed
  qed
qed

lemma kcpNudgeWorkerServer_eq:
  "kcpNudgeWorkerServer K cb s t us =
     (let hb = (t > mHeartBeatIntervalTrigger s); lo = (t > mSendTimeIntervalTriggerLow s);
          hi = (t > mSendTimeIntervalTriggerHi s)
      in case nudge_sessions K (rDisconnect cb) (mDropAll s) hb lo hi t us (mKCPMap s) (-1) of
           Inl f \<Rightarrow> Inl f
         | Inr (m, low, out, calls) \<Rightarrow>
             Inr (s\<lparr>mHeartBeatIntervalTrigger := (if hb then mHeartBeatIntervalTrigger s + HEART_BEAT_DISTANCE
                      else mHeartBeatIntervalTrigger s),
                    mSendTimeIntervalTriggerLow := (if lo then mSendTimeIntervalTriggerLow s + TIME_PACKETS_NORMAL_DISTANCE_MS
                      else mSendTimeIntervalTriggerLow s),
                    mSendTimeIntervalTriggerHi := (if hi then mSendTimeIntervalTriggerHi s + TIME_PACKETS_BURST_DISTANCE_MS
                      else mSendTimeIntervalTriggerHi s),
                    mKCPMap := m, net_sent := net_sent s @ out, net_calls := net_calls s @ calls\<rparr>,
                  if low \<noteq> -1 then low else 10))"
  by (cases "t > mHeartBeatIntervalTrigger s"; cases "t > mSendTimeIntervalTriggerLow s";
      cases "t > mSendTimeIntervalTriggerHi s")
    (simp_all add: kcpNudgeWorkerServer_def Let_def split: sum.split prod.split)

lemma nudge_session_step:
  fixes s :: "'k net_server"
  assumes "running ctx s" and "server_step K cb (Nudge t us) s = Inr s'"
  shows "running ctx s' \<and> session_step K cb ctx (Nudge t us) (view k s) = Inr (view k s')"
proof -
  let ?hb = "mHeartBeatIntervalTrigger s < t" and ?lo = "mSendTimeIntervalTriggerLow s < t"
    and ?hi = "mSendTimeIntervalTriggerHi s < t"
  have r: "filed (mKCPMap s)" "\<not> mDropAll s" using assms(1) by (simp_all add: running_def)
  obtain m low out calls where
    n: "nudge_sessions K (rDisconnect cb) False ?hb ?lo ?hi t us (mKCPMap s) (-1) = Inr (m, low, out, calls)"
    using assms(2) r(2) by (auto simp: kcpNudgeWorkerServer_eq Let_def split: sum.splits)
  have s': "s' = s\<lparr>mHeartBeatIntervalTrigger := (if ?hb then mHeartBeatIntervalTrigger s + HEART_BEAT_DISTANCE
        else mHeartBeatIntervalTrigger s),
      mSendTimeIntervalTriggerLow := (if ?lo then mSendTimeIntervalTriggerLow s + TIME_PACKETS_NORMAL_DISTANCE_MS
        else mSendTimeIntervalTriggerLow s),
      mSendTimeIntervalTriggerHi := (if ?hi then mSendTimeIntervalTriggerHi s + TIME_PACKETS_BURST_DISTANCE_MS
        else mSendTimeIntervalTriggerHi s),
      mKCPMap := m, net_sent := net_sent s @ out, net_calls := net_calls s @ calls\<rparr>"
    using assms(2) r(2) n by (auto simp: kcpNudgeWorkerServer_eq Let_def)
  note v = nudge_sessions_view [OF n r(1), of k]
  have run: "running ctx s'" using assms(1) v by (simp add: s' running_def)
  show ?thesis
  proof (cases "map_of (mKCPMap s) k")
    case None
    then show ?thesis using v run by (simp add: view_def s' Let_def)
  next
    case (Some sd)
    then obtain c where c: "nudge_session K (rDisconnect cb) False ?hb ?lo ?hi t us k sd =
        Inr (map_of m k, c, sent_to k out, calls_for k calls)" using v by auto
    have "key_of (mDestination sd) = k" using filed_lookup [OF r(1) Some] .
    then show ?thesis using Some c run by (simp add: view_def s' Let_def)
  qed
qed

lemma send_session_step:
  fixes s :: "'k net_server"
  assumes "running ctx s" and "server_step K cb (Send key b) s = Inr s'"
  shows "running ctx s' \<and> session_step K cb ctx (Send key b) (view key s) = Inr (view key s') \<and>
    (\<forall>j. j \<noteq> key \<longrightarrow> view j s' = view j s)"
proof (cases "map_of (mKCPMap s) key")
  case None
  then show ?thesis using assms by (simp add: sendDataServer_def make_context_def view_def)
next
  case (Some sd)
  then obtain kcp rc where snd: "api_send K (mKCPServer sd) b = Inr (kcp, rc)"
    and s': "s' = s\<lparr>receiveBuffer := receiveBuffer s, mKCPMap := AList.update key (sd\<lparr>mKCPServer := kcp\<rparr>) (mKCPMap s),
      net_calls := net_calls s @ []\<rparr>"
    using assms(2) by (auto simp: sendDataServer_def make_context_def split: sum.splits)
  have "key_of (mDestination sd) = key" using Some assms(1) by (auto simp: running_def dest: filed_lookup)
  moreover have "session_step K cb ctx (Send key b) (view key s) =
      Inr ((view key s)\<lparr>ss_data := Some (sd\<lparr>mKCPServer := kcp\<rparr>), ss_calls := ss_calls (view key s) @ []\<rparr>)"
    using Some snd by (simp add: view_def)
  ultimately show ?thesis
    using view_update [OF assms(1) _ _ s'] by (simp del: session_step.simps)
qed

lemma server_step_session:
  assumes "running ctx s" and "sized e" and "keeps_key cb" and "server_step K cb e s = Inr s'"
  shows "running ctx s' \<and>
    (if concerns k e then session_step K cb ctx e (view k s) = Inr (view k s') else view k s' = view k s)"
proof (cases e)
  case (Arrive d p now)
  then show ?thesis using arrive_session [of ctx s d p now cb K s'] assms by (auto simp del: session_step.simps sized.simps)
next
  case (Nudge t us)
  then show ?thesis using nudge_session_step assms by (metis concerns.simps(2))
next
  case (Send key b)
  then show ?thesis using send_session_step [OF assms(1)] assms(4) by (metis concerns.simps(3))
qed

lemma server_run_session:
  assumes "server_run K cb es s = Inr s'" and "running ctx s" and "list_all sized es" and "keeps_key cb"
  shows "session_run K cb ctx (filter (concerns k) es) (view k s) = Inr (view k s')"
  using assms
proof (induction es arbitrary: s)
  case (Cons e es)
  then obtain s1 where s1: "server_step K cb e s = Inr s1" "server_run K cb es s1 = Inr s'"
    by (auto split: sum.splits)
  have "sized e" "list_all sized es" using Cons.prems(3) by simp_all
  note st = server_step_session [OF Cons.prems(2) this(1) Cons.prems(4) s1(1), of k]
  then show ?case using Cons.IH [OF s1(2) _ \<open>list_all sized es\<close> Cons.prems(4)]
    by (auto simp del: session_step.simps)
qed simp

lemma server_run_running:
  "server_run K cb es s = Inr s' \<Longrightarrow> running ctx s \<Longrightarrow> list_all sized es \<Longrightarrow> keeps_key cb \<Longrightarrow> running ctx s'"
  by (induction es arbitrary: s) (auto split: sum.splits dest: server_step_session)

section \<open>A small run\<close>

definition demo_cb :: callbacks where
  "demo_cb = \<lparr>rGotData = True, rDisconnect = True, rValidate = None\<rparr>"

text \<open>A trivial transport in place of KCP: it hands on every datagram and sends nothing.\<close>

definition demo_api :: "byte list kcp_api" where
  "demo_api = \<lparr>api_create = (\<lambda>conv. Some []), api_output = id, api_nodelay = (\<lambda>k a b c d. (k, 0)),
     api_setmtu = (\<lambda>k m. (k, 0)), api_wndsize = (\<lambda>k a b. (k, 0)), api_send = (\<lambda>k b. Inr (k, 0)),
     api_input = (\<lambda>k d. Inr (d, 0)), api_recv = (\<lambda>k n. Inr ([], int (length k), k)),
     api_update = (\<lambda>k t. Inr (k, [])), api_check = (\<lambda>k t. t + 10)\<rparr>"

definition demo_peers :: "peer \<times> peer" where
  "demo_peers = ((bs ''10.0.0.1'', 7000), (bs ''10.0.0.2'', 7000))"



lemma demo_cb_keeps: "keeps_key demo_cb"
  by (simp add: keeps_key_def demo_cb_def)


lemmas server_eval = netWorkerServer_def server_start_def KCP_MAX_BYTES_def net_new_def Let_def
  demo_cb_def net_create_def demo_api_def configureInternal_def new_context_def make_context_def
  apply_settings_def net_feed_def feed_def kcpNudgeWorkerServer_eq nudge_session_def HEART_BEAT_TIME_OUT_def


lemma demo_nudge: "\<exists>s'. server_step demo_api cb (Nudge t us) s = Inr s'"
proof -
  have "\<exists>r. nudge_sessions demo_api disc drp hb lo hi t us m low = Inr r" for disc drp hb lo hi m low
  proof (induction m arbitrary: low)
    case (Cons x m)
    have "api_update demo_api k u = Inr (k, [])" for k u by (simp add: demo_api_def)
    then have "\<exists>y. nudge_session demo_api disc drp hb lo hi t us (fst x) (snd x) = Inr y"
      unfolding nudge_session_def Let_def by simp
    then obtain y where "nudge_session demo_api disc drp hb lo hi t us (fst x) (snd x) = Inr y" ..
    moreover obtain r where "nudge_sessions demo_api disc drp hb lo hi t us m (if fst (snd y) < low then fst (snd y) else low) = Inr r"
      using Cons by blast
    ultimately show ?case by (cases x; cases y; cases r) (auto split: if_splits)
  qed simp
  then obtain r where "nudge_sessions demo_api (rDisconnect cb) (mDropAll s) (t > mHeartBeatIntervalTrigger s)
      (t > mSendTimeIntervalTriggerLow s) (t > mSendTimeIntervalTriggerHi s) t us (mKCPMap s) (-1) = Inr r" by blast
  then show ?thesis by (cases r) (simp add: kcpNudgeWorkerServer_eq)
qed

definition demo_session :: "byte list server_data" where
  "demo_session = \<lparr>mKCPServer = [], mKCPContext = make_context (key_of (fst demo_peers)),
     mDestination = fst demo_peers, mConnectionTimeOut = 10, sd_time = time_start\<rparr>"

definition demo_idle :: "byte list net_server" where
  "demo_idle = (server_start None [])\<lparr>mKCPMap := [(key_of (fst demo_peers), demo_session)]\<rparr>"

section \<open>Properties of the sessions\<close>



text \<open>The heart beats in a sequence of events when the next one is due behind time \<open>h\<close>.\<close>

fun beats :: "u64 \<Rightarrow> server_event list \<Rightarrow> nat" where
  "beats h [] = 0"
| "beats h (Nudge t us # es) = (if t > h then Suc (beats (h + HEART_BEAT_DISTANCE) es) else beats h es)"
| "beats h (e # es) = beats h es"

fun quiet :: "byte list \<Rightarrow> server_event \<Rightarrow> bool" where
  "quiet k (Arrive d p now) = (key_of p = k \<longrightarrow> is_time d)"
| "quiet k _ = True"

lemma beats_filter: "beats h (filter (concerns k) es) = beats h es"
  by (induction h es rule: beats.induct) auto

lemma nudge_session_keep:
  assumes "nudge_session K disc drp hb lo hi t us k sd = Inr (r, c, out, calls)"
    and "hb \<longrightarrow> mConnectionTimeOut sd \<noteq> 0"
  shows "calls = [] \<and> (\<exists>sd'. r = Some sd' \<and>
    mConnectionTimeOut sd' = (if hb then mConnectionTimeOut sd - 1 else mConnectionTimeOut sd))"
  using assms by (auto simp: nudge_session_def Let_def split: if_splits sum.splits prod.splits)

lemma session_idle:
  assumes "session_run K cb ctx es ss = Inr ss'" and "ss_data ss = Some sd"
    and "beats (ss_heart ss) es \<le> unat (mConnectionTimeOut sd)"
    and "list_all (quiet k) es" and "list_all (concerns k) es"
  shows "\<exists>sd'. ss_data ss' = Some sd' \<and>
    unat (mConnectionTimeOut sd') = unat (mConnectionTimeOut sd) - beats (ss_heart ss) es \<and> ss_calls ss' = ss_calls ss"
  using assms
proof (induction es arbitrary: ss sd)
  case (Cons e es)
  then obtain s1 where s1: "session_step K cb ctx e ss = Inr s1" "session_run K cb ctx es s1 = Inr ss'"
    by (auto split: sum.splits simp del: session_step.simps)
  note IH = Cons.IH [OF s1(2)]
  show ?case
  proof (cases e)
    case (Arrive d p now)
    then have "is_time (take KCP_MAX_BYTES d)" using Cons.prems(4,5) by (simp add: is_time_take KCP_MAX_BYTES_def)
    then have "s1 = ss\<lparr>ss_data := Some (sd\<lparr>sd_time := got_time (packet_at (take KCP_MAX_BYTES d)) now (sd_time sd)\<rparr>)\<rparr>"
      using s1(1) Cons.prems(2) Arrive by (auto simp: session_arrive_def)
    then show ?thesis using IH Cons.prems Arrive by simp
  next
    case (Nudge t us)
    let ?hb = "ss_heart ss < t"
    from s1(1) Cons.prems(2) Nudge obtain r c out calls where
      n: "nudge_session K (rDisconnect cb) False ?hb (ss_low ss < t) (ss_hi ss < t) t us (key_of (mDestination sd)) sd =
        Inr (r, c, out, calls)"
      and s1': "ss_data s1 = r" "ss_calls s1 = ss_calls ss @ calls"
        "ss_heart s1 = (if ?hb then ss_heart ss + HEART_BEAT_DISTANCE else ss_heart ss)"
      by (auto simp: Let_def split: sum.splits)
    have "?hb \<longrightarrow> mConnectionTimeOut sd \<noteq> 0" using Cons.prems(3) Nudge by auto
    from nudge_session_keep [OF n this] obtain sd' where
      sd': "calls = []" "r = Some sd'" "mConnectionTimeOut sd' = (if ?hb then mConnectionTimeOut sd - 1 else mConnectionTimeOut sd)"
      by blast
    have u: "unat (mConnectionTimeOut sd') = (if ?hb then unat (mConnectionTimeOut sd) - 1 else unat (mConnectionTimeOut sd))"
      using sd'(3) \<open>?hb \<longrightarrow> _\<close> by (simp add: unat_minus_one)
    show ?thesis
      using IH [of sd'] s1' sd' u Cons.prems(3,4,5) Nudge by (auto split: if_splits)
  next
    case (Send key b)
    then obtain kcp where "s1 = ss\<lparr>ss_data := Some (sd\<lparr>mKCPServer := kcp\<rparr>)\<rparr>"
      using s1(1) Cons.prems(2) by (auto split: sum.splits)
    then show ?thesis using IH Cons.prems Send by simp
  qed
qed simp

text \<open>
  C13. Time-out of a session. After the last data of a peer its session survives ten heart beats, however
  many other events there are, and the eleventh removes it and reports it to the application; neither
  data the application sends nor the peer's answers to time packets prolong its life.
\<close>

theorem idle_session_dropped:
  assumes "running ctx s" and "map_of (mKCPMap s) k = Some sd" and "mConnectionTimeOut sd = HEART_BEAT_TIME_OUT"
    and "server_run K cb es s = Inr s1" and "beats (mHeartBeatIntervalTrigger s) es = 10"
    and "list_all (quiet k) es" and "list_all sized es" and "keeps_key cb" and "rDisconnect cb"
    and "server_step K cb (Nudge t us) s1 = Inr s2" and "t > mHeartBeatIntervalTrigger s1"
  shows "map_of (mKCPMap s1) k \<noteq> None \<and> map_of (mKCPMap s2) k = None \<and>
    calls_for k (net_calls s2) = calls_for k (net_calls s) @ [Disconnected k]"
proof -
  note run = server_run_session [OF assms(4,1,7,8), of k]
  have "list_all (quiet k) (filter (concerns k) es)" "list_all (concerns k) (filter (concerns k) es)"
    using assms(6) by (auto simp: list_all_iff)
  from session_idle [OF run _ _ this, of sd] obtain sd' where
    sd': "map_of (mKCPMap s1) k = Some sd'" "mConnectionTimeOut sd' = 0" "calls_for k (net_calls s1) = calls_for k (net_calls s)"
    using assms(2,3,5) by (auto simp: view_def beats_filter HEART_BEAT_TIME_OUT_def unat_eq_zero)
  note r1 = server_run_running [OF assms(4,1,7,8)]
  note step = nudge_session_step [OF r1 assms(10), of k]
  have "key_of (mDestination sd') = k" using sd'(1) r1 by (auto simp: running_def dest: filed_lookup)
  then show ?thesis
    using step sd' assms(9,11) by (auto simp: view_def nudge_session_def Let_def)
qed

theorem idle_session_dropped_witness:
  "\<exists>s1 s2. server_run demo_api demo_cb (map (\<lambda>i. Nudge (500 * of_nat i + 1) 0) [0..<10]) demo_idle = Inr s1 \<and>
     server_step demo_api demo_cb (Nudge 5001 0) s1 = Inr s2 \<and>
     map_of (mKCPMap s1) (key_of (fst demo_peers)) \<noteq> None \<and> map_of (mKCPMap s2) (key_of (fst demo_peers)) = None"
proof -
  let ?es = "map (\<lambda>i. Nudge (500 * of_nat i + 1) 0) [0..<10]" and ?k = "key_of (fst demo_peers)"
  obtain s1 where s1: "server_run demo_api demo_cb ?es demo_idle = Inr s1" "mHeartBeatIntervalTrigger s1 = 5000"
    by (simp add: upt_rec demo_idle_def demo_session_def server_eval HEART_BEAT_DISTANCE_def time_start_def
        TIME_PACKETS_NORMAL_DISTANCE_MS_def TIME_PACKETS_BURST_DISTANCE_MS_def)
  obtain s2 where s2: "server_step demo_api demo_cb (Nudge 5001 0) s1 = Inr s2"
    using demo_nudge by blast
  have "running None demo_idle" "map_of (mKCPMap demo_idle) ?k = Some demo_session"
    "mConnectionTimeOut demo_session = HEART_BEAT_TIME_OUT" "beats (mHeartBeatIntervalTrigger demo_idle) ?es = 10"
    "list_all (quiet ?k) ?es" "list_all sized ?es" "rDisconnect demo_cb"
    by (simp_all add: running_def demo_idle_def server_start_def filed_Cons demo_session_def HEART_BEAT_TIME_OUT_def
        upt_rec HEART_BEAT_DISTANCE_def demo_cb_def)
  from idle_session_dropped [OF this(1,2,3) s1(1) this(4,5,6) demo_cb_keeps this(7) s2] s1 s2 show ?thesis by auto
qed

text \<open>
  Setting up a session is safe against the other threads. Between the sections in which the network
  thread creates a session, configures it and hands it the first datagram the mutex is free; whatever
  rounds of the nudge thread and sends of the application come in between, the session is still there in
  the end unless eleven heart beats have passed.
\<close>

theorem setup_not_lost:
  assumes "running ctx s" and "key_of from = k" and "mKCPSocket lx = k" and "keeps_key cb"
    and "net_create K s k lx from = Inr s1"
    and "server_run K cb es s1 = Inr s2" and "configureInternal K s2 lx = (s3, rc)"
    and "server_run K cb es' s3 = Inr s4"
    and "\<forall>e \<in> set (es @ es'). \<forall>d p now. e \<noteq> Arrive d p now"
    and "beats (mHeartBeatIntervalTrigger s1) es + beats (mHeartBeatIntervalTrigger s3) es' \<le> 10"
  shows "map_of (mKCPMap s4) k \<noteq> None \<and> (net_feed K cb s4 k d = Inl Null_deref \<longrightarrow>
    (\<exists>sd. map_of (mKCPMap s4) k = Some sd \<and> feed K (mKCPServer sd) d = Inl Null_deref))"
proof -
  obtain sd1 where s1: "s1 = s\<lparr>receiveBuffer := receiveBuffer s, mKCPMap := AList.update k sd1 (mKCPMap s),
      net_calls := net_calls s @ []\<rparr>" "mConnectionTimeOut sd1 = HEART_BEAT_TIME_OUT" "mDestination sd1 = from"
    using assms(5) by (auto simp: net_create_def Let_def split: option.splits)
  have other: "\<forall>e \<in> set fs. quiet k e \<and> sized e" if "set fs \<subseteq> set (es @ es')" for fs
  proof
    fix e assume "e \<in> set fs"
    then have "e \<in> set (es @ es')" using that by blast
    with assms(9) have "\<forall>d p now. e \<noteq> Arrive d p now" by blast
    then show "quiet k e \<and> sized e" by (cases e) auto
  qed
  have idle: "\<exists>sd'. map_of (mKCPMap t') k = Some sd' \<and>
      unat (mConnectionTimeOut sd') = unat (mConnectionTimeOut sd) - beats (mHeartBeatIntervalTrigger t) fs \<and> running ctx t'"
    if "set fs \<subseteq> set (es @ es')" "server_run K cb fs t = Inr t'" "running ctx t" "map_of (mKCPMap t) k = Some sd"
      "beats (mHeartBeatIntervalTrigger t) fs \<le> unat (mConnectionTimeOut sd)" for fs t t' sd
  proof -
    have z: "list_all sized fs" "list_all (quiet k) (filter (concerns k) fs)" "list_all (concerns k) (filter (concerns k) fs)"
      using other [OF that(1)] by (auto simp: list_all_iff)
    from session_idle [OF server_run_session [OF that(2,3) z(1) assms(4)] _ _ z(2,3), of sd]
    show ?thesis using that server_run_running [OF that(2,3) z(1) assms(4)] by (auto simp: view_def beats_filter)
  qed
  have r1: "running ctx s1" "map_of (mKCPMap s1) k = Some sd1"
    using view_update(1) [OF assms(1) _ _ s1(1)] s1 assms(2) by (simp_all add: update_conv')
  have "unat (mConnectionTimeOut sd1) = 10" by (simp add: s1(2) HEART_BEAT_TIME_OUT_def)
  with idle [OF _ assms(6) r1] assms(10) obtain sd2 where
    sd2: "map_of (mKCPMap s2) k = Some sd2" "running ctx s2"
      "unat (mConnectionTimeOut sd2) = 10 - beats (mHeartBeatIntervalTrigger s1) es" by auto
  define sd3 where "sd3 = sd2\<lparr>mKCPServer := fst (apply_settings K (mSettings lx) (mKCPServer sd2))\<rparr>"
  have s3: "s3 = s2\<lparr>receiveBuffer := receiveBuffer s2, mKCPMap := AList.update k sd3 (mKCPMap s2), net_calls := net_calls s2 @ []\<rparr>"
    using assms(3,7) sd2(1) by (auto simp: configureInternal_def sd3_def Let_def case_prod_beta)
  have "key_of (mDestination sd3) = k" using sd2(1,2) by (auto simp: sd3_def running_def dest: filed_lookup)
  then have r3: "running ctx s3" "map_of (mKCPMap s3) k = Some sd3"
    using view_update(1) [OF sd2(2) _ _ s3] by (simp_all add: s3 update_conv')
  have "unat (mConnectionTimeOut sd3) = 10 - beats (mHeartBeatIntervalTrigger s1) es" by (simp add: sd3_def sd2(3))
  with assms(10) have "beats (mHeartBeatIntervalTrigger s3) es' \<le> unat (mConnectionTimeOut sd3)" by linarith
  with idle [OF _ assms(8) r3] have "\<exists>sd4. map_of (mKCPMap s4) k = Some sd4" by auto
  then show ?thesis by (auto simp: net_feed_def split: sum.splits prod.splits)
qed

theorem setup_not_lost_witness:
  "\<exists>s1 s2. net_create demo_api (server_start None []) (key_of (fst demo_peers)) (make_context (key_of (fst demo_peers)))
       (fst demo_peers) = Inr s1 \<and> server_run demo_api demo_cb [Nudge 1 0] s1 = Inr s2 \<and>
     map_of (mKCPMap (fst (configureInternal demo_api s2 (make_context (key_of (fst demo_peers))))))
       (key_of (fst demo_peers)) \<noteq> None"
proof -
  let ?k = "key_of (fst demo_peers)"
  have r: "running None (server_start None [])" "mKCPSocket (make_context ?k) = ?k"
    by (simp_all add: running_def server_start_def make_context_def)
  obtain s1 where s1: "net_create demo_api (server_start None []) ?k (make_context ?k) (fst demo_peers) = Inr s1"
    by (simp add: net_create_def demo_api_def)
  obtain s2 where "server_step demo_api demo_cb (Nudge 1 0) s1 = Inr s2" using demo_nudge by blast
  then have s2: "server_run demo_api demo_cb [Nudge 1 0] s1 = Inr s2" by simp
  obtain s3 rc where s3: "configureInternal demo_api s2 (make_context ?k) = (s3, rc)" by fastforce
  have "beats (mHeartBeatIntervalTrigger s1) [Nudge 1 0] + beats (mHeartBeatIntervalTrigger s3) [] \<le> 10" by simp
  from setup_not_lost [OF r(1) refl r(2) demo_cb_keeps s1 s2 s3, of "[]" s3, OF _ _ this] s1 s2 s3
  show ?thesis by auto
qed

text \<open>
  Runts are misread. The test for a time packet looks at the first eight bytes of the receive buffer,
  however many of them the datagram has. When the buffer still holds a time packet (of any peer) and a
  known peer sends a shorter datagram that agrees with its beginning, the server takes the old packet
  for an answer of this peer: it enters its estimate, and the data is not handed to KCP.
\<close>

theorem runt_misread:
  assumes "running ctx s" and "receiveBuffer s = packet_bytes p @ rest" and "timePreamble p = TIME_PREAMBLE_V1"
    and "0 < n" and "n < 8" and "map_of (mKCPMap s) (key_of q) = Some sd"
  shows "\<exists>s'. netWorkerServer K cb s (take n (packet_bytes p)) q now = Inr s' \<and>
    map_of (mKCPMap s') (key_of q) = Some (sd\<lparr>sd_time := got_time p now (sd_time sd)\<rparr>)"
proof -
  let ?d = "take n (packet_bytes p)"
  have l: "length ?d = n" "?d \<noteq> []" "take KCP_MAX_BYTES ?d = ?d"
    using assms(4,5) length_packet_bytes [of p] by (auto simp: KCP_MAX_BYTES_def simp del: length_packet_bytes)
  have "received ?d (receiveBuffer s) = packet_bytes p @ rest"
    using l(1) assms(2,5) by (simp add: received_def)
  moreover have "is_time (packet_bytes p @ rest)"
    using arg_cong [OF packet_at_bytes [of p rest], of timePreamble] assms(3)
    by (simp add: is_time_def packet_at_def [of "packet_bytes p @ rest"])
  moreover note packet_at_bytes [of p rest]
  ultimately show ?thesis
    using assms(1,6) l by (simp add: netWorkerServer_def running_def net_known_def Let_def update_conv')
qed

theorem runt_misread_witness:
  "\<exists>s'. netWorkerServer demo_api demo_cb (demo_idle\<lparr>receiveBuffer := packet_bytes time_packet @ []\<rparr>)
       (take 1 (packet_bytes time_packet)) (fst demo_peers) 9 = Inr s' \<and>
     map_of (mKCPMap s') (key_of (fst demo_peers)) =
       Some (demo_session\<lparr>sd_time := got_time time_packet 9 (sd_time demo_session)\<rparr>)"
  by (rule runt_misread [of None])
    (simp_all add: running_def demo_idle_def server_start_def filed_Cons demo_session_def time_packet_def)

end
