(* ===== verification/Kcp_System.thy ===== *)
theory Kcp_System
  imports Kcp_Send Kcp_Input Kcp_Flush
begin

text \<open>
  Two control blocks of \<open>src/kcp_learn/ikcp.c\<close> and a network between them. The datagrams of
  both may be delayed, reordered, duplicated and lost. The result is the end-to-end guarantee of
  the protocol, in both directions: what one application has read is a prefix of what the other
  one has handed over. The second part of the theory shows a sequence of calls
  that makes the flush write behind its buffer.
\<close>

section \<open>Relations that the input keeps\<close>

text \<open>
  A relation between control blocks that every part of \<open>ikcp_input\<close> respects is respected by
  the whole function.
\<close>

locale input_parts =
  fixes R :: "ikcpcb \<Rightarrow> ikcpcb \<Rightarrow> bool"
  assumes R_refl: "R kcp kcp"
    and R_trans: "R a b \<Longrightarrow> R b c \<Longrightarrow> R a c"
    and rmt_wnd: "R kcp (kcp\<lparr>k_rmt_wnd := w\<rparr>)"
    and una: "R kcp (ikcp_parse_una kcp u)"
    and shrink: "R kcp (ikcp_shrink_buf kcp)"
    and ack: "R kcp (input_ack kcp h)"
    and push: "input_push alloc kcp h data = Inr kcp' \<Longrightarrow> R kcp kcp'"
    and wask: "R kcp (kcp\<lparr>k_probe := p\<rparr>)"
    and fastack: "R kcp (ikcp_parse_fastack kcp sn ts)"
    and cwnd: "R kcp (input_cwnd u kcp)"
begin

fun at_end :: "ikcpcb \<Rightarrow> input_end \<Rightarrow> bool" where
  "at_end kcp (Return kcp' rc) = R kcp kcp'"
| "at_end kcp (Leave kcp' flag maxack latest_ts) = R kcp kcp'"
| "at_end kcp (Fault f) = True"

lemma at_end_trans: "R a b \<Longrightarrow> at_end b e \<Longrightarrow> at_end a e"
  by (cases e) (auto intro: R_trans)

lemma loop: "at_end kcp (input_loop alloc kcp data flag maxack latest_ts)"
proof (induction "length data" arbitrary: kcp data flag maxack latest_ts rule: less_induct)
  case less
  show ?case
  proof (cases "ikcp_decode_header data")
    case None
    then show ?thesis by (simp add: input_loop.simps R_refl)
  next
    case (Some r)
    obtain h data' where r: "r = (h, data')" by force
    define kcp1 where
      "kcp1 = ikcp_shrink_buf (ikcp_parse_una (kcp\<lparr>k_rmt_wnd := ucast (h_wnd h)\<rparr>) (h_una h))"
    define rest where "rest = drop (unat (h_len h)) data'"
    have R1: "R kcp kcp1"
      unfolding kcp1_def by (rule R_trans [OF R_trans [OF rmt_wnd una] shrink])
    have "length rest < length data"
      using decode_header_length [of data h data'] Some r by (simp add: rest_def)
    then have again: "at_end kcp (input_loop alloc k rest f m t)" if "R kcp1 k" for k f m t
      using less [of rest k f m t] at_end_trans [OF R_trans [OF R1 that]] by blast
    note unfold = input_loop.simps [of alloc kcp data flag maxack latest_ts, unfolded Some r
        option.case prod.case Let_def, folded kcp1_def rest_def]
    show ?thesis
      using again [OF ack] again [OF wask] again [OF R_refl] again [OF push]
      by (subst unfold) (auto simp: R_refl split: sum.split)
  qed
qed

lemma input: "ikcp_input alloc kcp data = Inr (kcp', rc) \<Longrightarrow> R kcp kcp'"
  using loop [of kcp alloc data False 0 0] R_refl [of kcp] R_trans [OF _ cwnd]
    R_trans [OF R_trans [OF _ fastack] cwnd]
  by (cases "input_loop alloc kcp data False 0 0")
    (auto simp: ikcp_input_def Let_def split: if_splits)

end

section \<open>The sender\<close>

text \<open>
  \<open>narrower kcp kcp'\<close>: the second block has the same send queue and numbering, and each of its
  segments in flight is one of the first block's.
\<close>

definition same_seg :: "ikcpseg \<Rightarrow> ikcpseg \<Rightarrow> bool" where
  "same_seg s t \<longleftrightarrow> sg_sn s = sg_sn t \<and> core s = core t \<and> sg_cmd s = sg_cmd t \<and> sg_len s = sg_len t"

definition narrower :: "ikcpcb \<Rightarrow> ikcpcb \<Rightarrow> bool" where
  "narrower kcp kcp' \<longleftrightarrow>
     k_snd_queue kcp' = k_snd_queue kcp \<and> k_snd_nxt kcp' = k_snd_nxt kcp \<and>
     k_stream kcp' = k_stream kcp \<and> k_output kcp' = k_output kcp \<and> k_mtu kcp' = k_mtu kcp \<and>
     (\<forall>s \<in> set (k_snd_buf kcp'). \<exists>t \<in> set (k_snd_buf kcp). same_seg s t)"

lemma narrowerI:
  assumes "k_snd_queue kcp' = k_snd_queue kcp" "k_snd_nxt kcp' = k_snd_nxt kcp"
    "k_stream kcp' = k_stream kcp" "k_output kcp' = k_output kcp" "k_mtu kcp' = k_mtu kcp"
    "set (k_snd_buf kcp') \<subseteq> set (k_snd_buf kcp)"
  shows "narrower kcp kcp'"
  using assms by (auto simp: narrower_def same_seg_def)

lemma narrower_trans: "narrower a b \<Longrightarrow> narrower b c \<Longrightarrow> narrower a c"
  by (fastforce simp: narrower_def same_seg_def)

lemma una_loop_subset: "set (fst (parse_una_loop una buf n)) \<subseteq> set buf"
  by (induction una buf n rule: parse_una_loop.induct) auto

lemma ack_loop_subset: "set (fst (parse_ack_loop sn buf n)) \<subseteq> set buf"
  by (induction sn buf n rule: parse_ack_loop.induct) (auto split: prod.splits)

lemma fastack_loop_same: "s \<in> set (fastack_loop sn buf) \<Longrightarrow> \<exists>t \<in> set buf. same_seg s t"
  by (induction sn buf rule: fastack_loop.induct) (auto simp: same_seg_def core_def split: if_splits)

lemma update_ack_narrower: "narrower kcp (ikcp_update_ack kcp rtt)"
  by (rule narrowerI) (auto simp: ikcp_update_ack_def Let_def)

lemma parse_ack_narrower: "narrower kcp (ikcp_parse_ack kcp sn)"
  using ack_loop_subset [of sn "k_snd_buf kcp" "k_nsnd_buf kcp"]
  by (intro narrowerI) (auto simp: ikcp_parse_ack_def split: prod.splits)

lemma shrink_narrower: "narrower kcp (ikcp_shrink_buf kcp)"
  by (intro narrowerI) (auto simp: ikcp_shrink_buf_def split: list.splits)

lemma una_narrower: "narrower kcp (ikcp_parse_una kcp u)"
  using una_loop_subset [of u "k_snd_buf kcp" "k_nsnd_buf kcp"]
  by (intro narrowerI) (auto simp: ikcp_parse_una_def split: prod.splits)

lemma fastack_narrower: "narrower kcp (ikcp_parse_fastack kcp sn ts)"
proof -
  have "\<exists>t \<in> set buf. same_seg s t" if "s \<in> set buf" for s buf
    using that by (auto simp: same_seg_def)
  then show ?thesis
    using fastack_loop_same by (auto simp: narrower_def ikcp_parse_fastack_def)
qed

lemma input_ack_narrower: "narrower kcp (input_ack kcp h)"
proof -
  have "narrower kcp (ikcp_shrink_buf (ikcp_parse_ack kcp sn))" for sn kcp
    by (rule narrower_trans [OF parse_ack_narrower shrink_narrower])
  note pa = this
  show ?thesis
    unfolding input_ack_def Let_def
    by (cases "itimediff (k_current kcp) (h_ts h) \<ge> 0")
      (simp_all add: pa narrower_trans [OF update_ack_narrower pa])
qed

text \<open>The fields the receiving side of \<open>tracks\<close> speaks about.\<close>

definition same_rcv :: "ikcpcb \<Rightarrow> ikcpcb \<Rightarrow> bool" where
  "same_rcv kcp kcp' \<longleftrightarrow> k_rcv_queue kcp' = k_rcv_queue kcp \<and> k_rcv_nxt kcp' = k_rcv_nxt kcp \<and>
     k_rcv_buf kcp' = k_rcv_buf kcp"

lemma ack_push_frame:
  "ikcp_ack_push alloc kcp sn ts = Inr kcp' \<Longrightarrow> narrower kcp kcp' \<and> same_rcv kcp kcp'"
  by (auto simp: ikcp_ack_push_def Let_def same_rcv_def split: if_splits option.splits intro!: narrowerI)

lemma move_rcv_buf_narrower: "narrower kcp (move_rcv_buf buf kcp)"
  by (induction buf kcp rule: move_rcv_buf.induct) (auto simp: narrower_def same_seg_def)

lemma parse_data_narrower: "narrower kcp (ikcp_parse_data kcp s)"
proof -
  have "narrower kcp (kcp\<lparr>k_rcv_buf := b, k_nrcv_buf := n\<rparr>)" for b n
    by (rule narrowerI) simp_all
  then show ?thesis
    using narrower_trans [OF _ move_rcv_buf_narrower] narrowerI [of kcp kcp]
    by (auto simp: ikcp_parse_data_def Let_def split: option.split)
qed

lemma push_narrower: "input_push alloc kcp h data = Inr kcp' \<Longrightarrow> narrower kcp kcp'"
  using narrowerI [of kcp kcp]
  by (auto simp: input_push_def dest!: ack_push_frame intro: narrower_trans [OF _ parse_data_narrower]
      split: sum.splits if_splits)

lemma cwnd_narrower: "narrower kcp (input_cwnd u kcp)"
  by (rule narrowerI) (simp_all add: input_cwnd_def Let_def)

interpretation sender_parts: input_parts narrower
proof
  show "narrower a c" if "narrower a b" "narrower b c" for a b c
    using that by (rule narrower_trans)
  show "narrower kcp kcp'" if "input_push alloc kcp h data = Inr kcp'" for alloc kcp h data kcp'
    using that by (rule push_narrower)
  show "narrower kcp (kcp\<lparr>k_rmt_wnd := w\<rparr>)" "narrower kcp (kcp\<lparr>k_probe := w\<rparr>)" "narrower kcp kcp" for kcp w
    by (rule narrowerI; simp)+
qed (rule una_narrower shrink_narrower input_ack_narrower fastack_narrower cwnd_narrower)+

text \<open>
  The sender has numbered the segments \<open>L\<close> so far: what is in flight carries its number's
  entry of \<open>L\<close>, and every fragment number fits its byte on the wire.
\<close>

definition tx_ok :: "(u32 \<times> byte list) list \<Rightarrow> ikcpcb \<Rightarrow> bool" where
  "tx_ok L kcp \<longleftrightarrow> kcp_inv kcp \<and> snd_fit kcp \<and> k_stream kcp = 0 \<and> k_output kcp \<and>
     k_snd_nxt kcp = of_nat (length L) \<and>
     (\<forall>s \<in> set (k_snd_buf kcp). sg_cmd s = IKCP_CMD_PUSH \<and> sg_frg s < 256 \<and>
        (\<exists>i < length L. sg_sn s = of_nat i \<and> core s = L ! i)) \<and>
     (\<forall>s \<in> set (k_snd_queue kcp). sg_frg s < 256)"

lemma narrower_tx_ok:
  assumes "tx_ok L kcp" and "narrower kcp kcp'" and "kcp_inv kcp'"
  shows "tx_ok L kcp'"
proof -
  have buf: "\<exists>t \<in> set (k_snd_buf kcp). same_seg s t" if "s \<in> set (k_snd_buf kcp')" for s
    using assms(2) that by (simp add: narrower_def)
  have "fits kcp' s" if "s \<in> set (k_snd_buf kcp')" for s
    using buf [OF that] assms(1,2)
    by (auto simp: tx_ok_def snd_fit_def fits_def seg_ok_def same_seg_def core_def narrower_def)
  then have "snd_fit kcp'"
    using assms(1,2) by (auto simp: snd_fit_def tx_ok_def narrower_def fits_def)
  then show ?thesis
    using assms buf by (fastforce simp: tx_ok_def narrower_def same_seg_def core_def)
qed

text \<open>Every input, also a forged one, leaves the sender's bookkeeping intact.\<close>

lemma input_tx_ok:
  assumes "tx_ok L kcp" and "\<forall>n. alloc n" and "unat (k_ackcount kcp) + length d div 24 < 2 ^ 31"
    and "ikcp_input alloc kcp d = Inr (kcp', rc)"
  shows "tx_ok L kcp'"
proof -
  have inv: "kcp_inv kcp" using assms(1) by (simp add: tx_ok_def)
  have "input_end_ok (input_loop alloc kcp d False 0 0)"
    by (rule input_loop_ok [OF assms(2) inv assms(3)])
  then have "kcp_inv kcp'"
    using assms(4) inv
    by (cases "input_loop alloc kcp d False 0 0")
      (auto simp: ikcp_input_def Let_def input_cwnd_inv fastack_inv split: if_splits)
  then show ?thesis
    using narrower_tx_ok [OF assms(1)] sender_parts.input [OF assms(4)] by blast
qed

text \<open>A segment of the stream, or a segment without data, as it may stand on the wire.\<close>

definition good :: "(u32 \<times> byte list) list \<Rightarrow> ikcpseg \<Rightarrow> bool" where
  "good L s \<longleftrightarrow> seg_ok s \<and> sg_cmd s \<in> {IKCP_CMD_PUSH, IKCP_CMD_ACK, IKCP_CMD_WASK, IKCP_CMD_WINS} \<and> ((ucast (ucast (sg_cmd s) :: byte) :: u32) = IKCP_CMD_PUSH \<longrightarrow>
     sg_frg s < 256 \<and> (\<exists>i < length L. sg_sn s = of_nat i \<and> core s = L ! i))"

definition good_datagram :: "(u32 \<times> byte list) list \<Rightarrow> byte list \<Rightarrow> bool" where
  "good_datagram L d \<longleftrightarrow> d \<noteq> [] \<and> (\<exists>ss. d = concat (map wire ss) \<and> list_all (good L) ss)"

lemma good_mono: "good L s \<Longrightarrow> good (L @ M) s"
  by (auto simp: good_def nth_append intro: less_le_trans)

lemma good_datagram_mono: "good_datagram L d \<Longrightarrow> good_datagram (L @ M) d"
  using good_mono unfolding good_datagram_def list_all_iff by blast

lemma control_good: "control kcp s \<Longrightarrow> good L s"
  by (cases s) (auto simp: control_def flush_seg_def good_def seg_ok_def kcp_defs)

lemma new_segs_nth:
  "i < length q \<Longrightarrow> new_segs kcp wnd sn q ! i = flush_new kcp wnd (sn + of_nat i) (q ! i)"
  by (induction q arbitrary: sn i) (auto simp: nth_Cons add.assoc split: nat.split)

lemma before_send_stream:
  assumes "tx_ok L kcp" and "s \<in> set (k_snd_buf (before_send kcp))"
    and "L' = L @ map core (take (new_count kcp) (k_snd_queue kcp))"
  shows "sg_cmd s = IKCP_CMD_PUSH \<and> sg_frg s < 256 \<and> (\<exists>i < length L'. sg_sn s = of_nat i \<and> core s = L' ! i)"
proof (cases "s \<in> set (k_snd_buf kcp)")
  case True
  then obtain i where "i < length L" "sg_sn s = of_nat i" "core s = L ! i" "sg_cmd s = IKCP_CMD_PUSH" "sg_frg s < 256"
    using assms(1) by (auto simp: tx_ok_def)
  then show ?thesis
    by (auto simp: assms(3) nth_append intro!: exI [of _ i])
next
  case False
  let ?q = "take (new_count kcp) (k_snd_queue kcp)"
  have "s \<in> set (new_segs (headed kcp) (ikcp_wnd_unused kcp) (k_snd_nxt kcp) ?q)"
    using assms(2) False by (simp add: before_send_def numbered_def)
  then obtain i where i: "i < length ?q"
      "s = flush_new (headed kcp) (ikcp_wnd_unused kcp) (k_snd_nxt kcp + of_nat i) (?q ! i)"
    by (metis in_set_conv_nth new_segs_nth new_segs_spec(1))
  have "?q ! i \<in> set (k_snd_queue kcp)"
    using i(1) by (meson in_set_takeD nth_mem)
  then show ?thesis
    using i assms(1) by (auto simp: assms(3) tx_ok_def flush_new_def core_def nth_append
        intro!: exI [of _ "length L + i"])
qed

lemma flush_tx_ok:
  assumes "tx_ok L kcp" and "ikcp_flush kcp = Inr (kcp', out)"
  shows "\<exists>n. k_snd_queue kcp' = drop n (k_snd_queue kcp) \<and> n \<le> length (k_snd_queue kcp) \<and>
    tx_ok (L @ map core (take n (k_snd_queue kcp))) kcp' \<and> same_rcv kcp kcp' \<and>
    (\<forall>d \<in> set out. good_datagram (L @ map core (take n (k_snd_queue kcp))) d)"
proof (cases "k_updated kcp = 0")
  case True
  then show ?thesis
    using assms by (intro exI [of _ 0]) (simp add: ikcp_flush_def same_rcv_def)
next
  case False
  define L' where "L' = L @ map core (take (new_count kcp) (k_snd_queue kcp))"
  have inv: "kcp_inv kcp" "snd_fit kcp" "k_output kcp" using assms(1) by (auto simp: tx_ok_def)
  have stream: "sg_cmd s = IKCP_CMD_PUSH \<and> sg_frg s < 256 \<and> (\<exists>i < length L'. sg_sn s = of_nat i \<and> core s = L' ! i)"
    if "s \<in> set (k_snd_buf (before_send kcp))" for s
    using before_send_stream [OF assms(1) that L'_def] .
  have ok: "\<forall>s \<in> set (k_snd_buf (before_send kcp)). seg_ok s"
    using before_send_inv [OF inv(1)] by (simp add: kcp_inv_def snd_inv_def)
  then have good: "\<forall>s \<in> set (k_snd_buf (before_send kcp)). good L' (sent_seg kcp s)"
    using stream by (auto simp: good_def seg_ok_def core_def)
  from flush_exact [OF inv False, of "good L'"] control_good good assms(2)
  obtain x st ch lo where kcp': "kcp' = flush_cwnd (flush_window kcp) (resent_of kcp) ch lo
      ((before_send kcp)\<lparr>k_xmit := x, k_state := st,
        k_snd_buf := map (sent_seg kcp) (k_snd_buf (before_send kcp))\<rparr>)"
    and out: "\<forall>d \<in> set out. d \<noteq> [] \<and> packed (good L') (unat (k_mtu kcp)) d" by auto
  have "kcp_inv kcp'" "snd_fit kcp'"
    using sent_inv [OF before_send_inv [OF inv(1)]]
      before_send_fit [OF inv(2)]
    by (auto simp: kcp' sent_seg_def snd_fit_def fits_def seg_ok_def)
  moreover have "k_stream kcp' = k_stream kcp"
    by (simp add: kcp' flush_cwnd_def before_send_def numbered_def headed_def flush_probe_def Let_def)
  moreover have "length L' = length L + new_count kcp"
    using new_count_le(1) [OF inv(1)] by (simp add: L'_def)
  ultimately have "tx_ok L' kcp'"
    using assms(1) stream by (auto simp: tx_ok_def kcp' core_def dest: in_set_dropD)
  moreover have "\<forall>d \<in> set out. good_datagram L' d"
    using out by (auto simp: packed_def good_datagram_def)
  ultimately show ?thesis
    using new_count_le(1) [OF inv(1)] by (intro exI [of _ "new_count kcp"]) (simp add: kcp' L'_def same_rcv_def)
qed

lemma tx_ok_clock [simp]:
  "tx_ok L (kcp\<lparr>k_current := t\<rparr>) = tx_ok L kcp" "tx_ok L (kcp\<lparr>k_updated := u\<rparr>) = tx_ok L kcp"
  "tx_ok L (kcp\<lparr>k_ts_flush := t\<rparr>) = tx_ok L kcp"
  by (simp_all add: tx_ok_def snd_fit_def fits_def)

lemma same_rcv_clock [simp]:
  "same_rcv kcp kcp" "same_rcv kcp (k\<lparr>k_current := t\<rparr>) = same_rcv kcp k"
  "same_rcv kcp (k\<lparr>k_updated := u\<rparr>) = same_rcv kcp k" "same_rcv kcp (k\<lparr>k_ts_flush := t\<rparr>) = same_rcv kcp k"
  by (simp_all add: same_rcv_def)

lemma update_tx_ok:
  assumes "tx_ok L kcp" and "ikcp_update kcp t = Inr (kcp', out)"
  shows "\<exists>n. k_snd_queue kcp' = drop n (k_snd_queue kcp) \<and> n \<le> length (k_snd_queue kcp) \<and>
    tx_ok (L @ map core (take n (k_snd_queue kcp))) kcp' \<and> same_rcv kcp kcp' \<and>
    (\<forall>d \<in> set out. good_datagram (L @ map core (take n (k_snd_queue kcp))) d)"
proof -
  have flush: ?thesis if "ikcp_flush k = Inr (kcp', out)" "k_snd_queue k = k_snd_queue kcp" "tx_ok L k" "same_rcv kcp k" for k
    using flush_tx_ok [OF that(3,1)] that(2,4) by (simp add: same_rcv_def)
  show ?thesis
  proof (cases "kcp' = kcp\<lparr>k_current := t\<rparr> \<and> out = []")
    case True
    then show ?thesis using assms(1) by (intro exI [of _ 0]) (simp add: same_rcv_def)
  next
    case False
    then show ?thesis
      using assms by (auto simp: ikcp_update_def Let_def split: if_splits intro: flush)
  qed
qed

lemma frags_small: "n \<le> 256 \<Longrightarrow> s \<in> set (frags mss n False b) \<Longrightarrow> sg_frg s < 256"
proof (induction mss n False b rule: frags.induct)
  case (2 mss r b)
  have "unat (of_nat r :: u32) = r" using "2.prems"(1) by (intro unat_of_nat32) simp
  then have "(of_nat r :: u32) < 256" using "2.prems"(1) by (simp add: word_less_nat_alt)
  with 2 show ?case by (auto simp: seg_new_def)
qed simp

lemma send_tx_ok:
  assumes "tx_ok L kcp" and "\<forall>n. alloc n" and "length b < 2 ^ 31"
    and "ikcp_send alloc kcp b (int (length b)) = Inr (kcp', rc)"
  shows "tx_ok L kcp' \<and> same_rcv kcp kcp' \<and> concat (map sg_data (k_snd_queue kcp')) =
    concat (map sg_data (k_snd_queue kcp)) @ (if rc = 0 then b else [])"
proof -
  define m where "m = unat (k_mss kcp)"
  define n where "n = frag_count m (length b)"
  have cfg: "cfg_inv kcp" and stream: "k_stream kcp = 0"
    using assms(1) by (auto simp: tx_ok_def kcp_inv_def)
  have m: "0 < m" "m < 2 ^ 30" "m = unat (k_mtu kcp) - 24" "24 \<le> unat (k_mtu kcp)"
    using mss_bounds(1-3) [OF cfg] cfg by (auto simp: m_def cfg_inv_def)
  note send = send_message_eq [OF cfg assms(2) stream assms(3), folded m_def n_def]
  show ?thesis
  proof (cases "n \<ge> 128")
    case True
    then show ?thesis using send assms(1,4) by (simp add: same_rcv_def)
  next
    case False
    then have kcp': "kcp' = kcp\<lparr>k_snd_queue := k_snd_queue kcp @ frags m n False b,
        k_nsnd_que := k_nsnd_que kcp + of_nat n\<rparr>" "rc = 0"
      using send assms(4) by auto
    have frag: "seg_ok s \<and> 24 + length (sg_data s) \<le> unat (k_mtu kcp) \<and> sg_frg s < 256"
      if "s \<in> set (frags m n False b)" for s
      using frags_ok [of m s n False b] frags_small [of n s m b] that m False by auto
    have "snd_inv kcp'" "snd_fit kcp'"
      using assms(1) frag by (auto simp: tx_ok_def kcp_inv_def snd_inv_def snd_fit_def fits_def kcp' add.commute)
    then have "tx_ok L kcp'"
      using assms(1) frag by (auto simp: tx_ok_def kcp_inv_def kcp')
    moreover have "concat (map sg_data (frags m n False b)) = b"
      using frag_count_enough [OF m(1), of "length b"] by (intro frags_data) (simp add: n_def)
    ultimately show ?thesis by (simp add: kcp' same_rcv_def)
  qed
qed

section \<open>The receiver\<close>

text \<open>The streams that begin with the segments numbered so far.\<close>

definition ext :: "(u32 \<times> byte list) list \<Rightarrow> (nat \<Rightarrow> u32 \<times> byte list) \<Rightarrow> bool" where
  "ext L S \<longleftrightarrow> (\<forall>i < length L. S i = L ! i)"

text \<open>
  The receiver agrees with every stream that begins with \<open>L\<close>; it cannot hold anything that
  has not been sent.
\<close>

definition rx_ok :: "(u32 \<times> byte list) list \<Rightarrow> nat \<Rightarrow> ikcpcb \<Rightarrow> bool" where
  "rx_ok L n kcp \<longleftrightarrow> kcp_inv kcp \<and> n \<le> length L \<and> (\<forall>S. ext L S \<longrightarrow> tracks S n kcp)"

definition stream_of :: "(u32 \<times> byte list) list \<Rightarrow> u32 \<Rightarrow> nat \<Rightarrow> u32 \<times> byte list" where
  "stream_of L x i = (if i < length L then L ! i else (x, []))"

lemma ext_stream_of: "ext L (stream_of L x)"
  by (simp add: ext_def stream_of_def)

lemma rx_bound:
  assumes "rx_ok L n kcp"
  shows "n + length (k_rcv_queue kcp) \<le> length L"
proof (rule ccontr)
  assume "\<not> ?thesis"
  then have q: "length (k_rcv_queue kcp) > 0" "n + (length (k_rcv_queue kcp) - 1) \<ge> length L"
    using assms by (auto simp: rx_ok_def)
  let ?i = "length (k_rcv_queue kcp) - 1"
  have "core (k_rcv_queue kcp ! ?i) = stream_of L x (n + ?i)" for x
  proof -
    have "tracks (stream_of L x) n kcp"
      using assms ext_stream_of by (simp add: rx_ok_def)
    then have "map core (k_rcv_queue kcp) ! ?i = map (stream_of L x) [n..<n + length (k_rcv_queue kcp)] ! ?i"
      by (simp add: tracks_def Let_def)
    with q(1) show ?thesis by simp
  qed
  moreover have "stream_of L x (n + ?i) = (x, [])" for x
    using q(2) by (simp add: stream_of_def)
  ultimately have "(0, []) = (1 :: u32, [] :: byte list)"
    by metis
  then show False by simp
qed

lemma rx_ok_append: "rx_ok L n kcp \<Longrightarrow> rx_ok (L @ M) n kcp"
  by (auto simp: rx_ok_def ext_def nth_append)

lemma same_rcv_tracks: "same_rcv kcp kcp' \<Longrightarrow> tracks S n kcp' = tracks S n kcp"
  by (simp add: same_rcv_def tracks_def)

lemma same_rcv_trans: "same_rcv a b \<Longrightarrow> same_rcv b c \<Longrightarrow> same_rcv a c"
  by (simp add: same_rcv_def)

lemma parts_same_rcv:
  "same_rcv kcp (ikcp_parse_una kcp u)" "same_rcv kcp (ikcp_shrink_buf kcp)"
  "same_rcv kcp (ikcp_parse_ack kcp sn)" "same_rcv kcp (ikcp_update_ack kcp rtt)"
  "same_rcv kcp (ikcp_parse_fastack kcp sn ts)" "same_rcv kcp (input_cwnd u kcp)"
  by (auto simp: same_rcv_def ikcp_parse_una_def ikcp_shrink_buf_def ikcp_parse_ack_def
      ikcp_update_ack_def ikcp_parse_fastack_def input_cwnd_def Let_def split: prod.split list.split)

lemma input_ack_same_rcv: "same_rcv kcp (input_ack kcp h)"
  unfolding input_ack_def Let_def
  by (cases "itimediff (k_current kcp) (h_ts h) \<ge> 0") (use parts_same_rcv in \<open>auto simp: same_rcv_def\<close>)

lemma rx_ok_same: "rx_ok L n kcp \<Longrightarrow> same_rcv kcp kcp' \<Longrightarrow> kcp_inv kcp' \<Longrightarrow> rx_ok L n kcp'"
  by (simp add: rx_ok_def same_rcv_tracks)

lemma rx_ok_parse_data:
  assumes "rx_ok L n kcp" and "seg_ok seg" and "i < length L" and "sg_sn seg = of_nat i"
    and "core seg = L ! i" and "length L < 2 ^ 31"
  shows "rx_ok L n (ikcp_parse_data kcp seg)"
proof -
  have inv: "kcp_inv kcp" "rcv_inv kcp" using assms(1) by (auto simp: rx_ok_def kcp_inv_def)
  have "tracks S n (ikcp_parse_data kcp seg)" if S: "ext L S" for S
  proof (rule tracks_parse_data)
    show "tracks S n kcp" using assms(1) S by (simp add: rx_ok_def)
    show "genuine S (n + length (k_rcv_queue kcp)) seg i"
      using assms rx_bound [OF assms(1)] S by (auto simp: genuine_def ext_def)
  qed (rule inv)
  then show ?thesis
    using assms(1) parse_data_inv [OF inv(1) assms(2)] by (simp add: rx_ok_def)
qed

text \<open>The segment that the parser builds from the bytes of a segment is that segment.\<close>

definition header_of :: "ikcpseg \<Rightarrow> seg_header" where
  "header_of s = \<lparr>h_conv = sg_conv s, h_cmd = ucast (sg_cmd s), h_frg = ucast (sg_frg s),
     h_wnd = ucast (sg_wnd s), h_ts = sg_ts s, h_sn = sg_sn s, h_una = sg_una s, h_len = sg_len s\<rparr>"

lemma decode_wire: "ikcp_decode_header (wire s @ rest) = Some (header_of s, sg_data s @ rest)"
  using decode_encode [of s "sg_data s @ rest"] by (simp add: wire_def header_of_def)

lemma input_seg_wire:
  assumes "seg_ok s" and "sg_frg s < 256"
  shows "core (input_seg (header_of s) (sg_data s @ rest)) = core s"
    and "sg_sn (input_seg (header_of s) (sg_data s @ rest)) = sg_sn s"
    and "drop (unat (h_len (header_of s))) (sg_data s @ rest) = rest"
proof -
  have "unat (sg_frg s) < 256" using assms(2) by (simp add: word_less_nat_alt)
  then have "(ucast (ucast (sg_frg s) :: byte) :: u32) = sg_frg s"
    by (simp add: word_unat_eq_iff unsigned_ucast_eq unsigned_take_bit_eq take_bit_nat_eq_self_iff)
  then show "core (input_seg (header_of s) (sg_data s @ rest)) = core s"
    using assms(1) by (simp add: core_def input_seg_def header_of_def seg_ok_def)
qed (use assms(1) in \<open>auto simp: input_seg_def header_of_def seg_ok_def\<close>)

text \<open>Parsing a datagram of the sender keeps the receiver in step with the stream.\<close>

fun rx_end :: "(u32 \<times> byte list) list \<Rightarrow> nat \<Rightarrow> input_end \<Rightarrow> bool" where
  "rx_end L n (Return kcp rc) = rx_ok L n kcp"
| "rx_end L n (Leave kcp flag maxack latest_ts) = rx_ok L n kcp"
| "rx_end L n (Fault f) = False"

lemma push_rx_ok:
  assumes "rx_ok L n kcp" and "\<forall>m. alloc m" and "unat (k_ackcount kcp) < 2 ^ 31" and "length L < 2 ^ 31"
    and "good L s" and "(ucast (ucast (sg_cmd s) :: byte) :: u32) = IKCP_CMD_PUSH"
  shows "\<exists>kcp'. input_push alloc kcp (header_of s) (sg_data s @ rest) = Inr kcp' \<and> rx_ok L n kcp' \<and>
    unat (k_ackcount kcp') \<le> unat (k_ackcount kcp) + 1"
proof -
  let ?seg = "input_seg (header_of s) (sg_data s @ rest)"
  obtain i where s: "seg_ok s" "sg_frg s < 256" "i < length L" "sg_sn s = of_nat i" "core s = L ! i"
    using assms(5,6) by (auto simp: good_def)
  have inv: "kcp_inv kcp" using assms(1) by (simp add: rx_ok_def)
  have len: "unat (h_len (header_of s)) \<le> length (sg_data s @ rest)"
    using s(1) by (simp add: header_of_def seg_ok_def)
  then have seg: "seg_ok ?seg" by (rule input_seg_ok)
  obtain kcp' where push: "input_push alloc kcp (header_of s) (sg_data s @ rest) = Inr kcp'"
    and inv': "kcp_inv kcp'" and cnt: "unat (k_ackcount kcp') \<le> unat (k_ackcount kcp) + 1"
    using input_push_ok [OF inv assms(2,3) len] by blast
  consider "kcp' = kcp"
    | k where "ikcp_ack_push alloc kcp (h_sn (header_of s)) (h_ts (header_of s)) = Inr k"
        "kcp' = k \<or> kcp' = ikcp_parse_data k ?seg"
    using push by (auto simp: input_push_def split: if_splits sum.splits)
  then have "rx_ok L n kcp'"
  proof cases
    case 1
    then show ?thesis using assms(1) by simp
  next
    case 2
    have "kcp_inv k"
      using ack_push_inv [OF inv assms(2,3), of "h_sn (header_of s)" "h_ts (header_of s)"] 2(1) by simp
    then have "rx_ok L n k"
      using rx_ok_same [OF assms(1)] ack_push_frame [OF 2(1)] by blast
    then show ?thesis
      using 2(2) rx_ok_parse_data [OF _ seg s(3)] input_seg_wire [OF s(1,2)] s assms(4) by auto
  qed
  with push cnt show ?thesis by blast
qed

lemma input_loop_rx_ok:
  assumes "\<forall>m. alloc m" and "length L < 2 ^ 31"
  shows "rx_ok L n kcp \<Longrightarrow> list_all (good L) ss \<Longrightarrow> unat (k_ackcount kcp) + length ss < 2 ^ 31 \<Longrightarrow>
    rx_end L n (input_loop alloc kcp (concat (map wire ss)) flag maxack latest_ts)"
proof (induction ss arbitrary: kcp flag maxack latest_ts)
  case Nil
  then show ?case
    by (simp add: input_loop.simps decode_header_None_iff [THEN iffD2])
next
  case (Cons s ss)
  let ?rest = "concat (map wire ss)"
  define h where "h = header_of s"
  define kcp1 where
    "kcp1 = ikcp_shrink_buf (ikcp_parse_una (kcp\<lparr>k_rmt_wnd := ucast (h_wnd h)\<rparr>) (h_una h))"
  have s: "good L s" "seg_ok s" using Cons.prems(2) by (auto simp: good_def)
  have rest: "drop (unat (h_len h)) (sg_data s @ ?rest) = ?rest"
    using s(2) by (simp add: h_def header_of_def seg_ok_def)
  have cmd: "(ucast (h_cmd h) :: u32) = ucast (ucast (sg_cmd s) :: byte)"
    by (simp add: h_def header_of_def)
  have inv: "kcp_inv kcp" using Cons.prems(1) by (simp add: rx_ok_def)
  have inv1: "kcp_inv kcp1"
    using inv unfolding kcp1_def by (intro shrink_inv parse_una_inv rmt_wnd_inv)
  have "same_rcv kcp kcp1"
    using parts_same_rcv by (simp add: kcp1_def same_rcv_def)
  then have rx1: "rx_ok L n kcp1" by (rule rx_ok_same [OF Cons.prems(1) _ inv1])
  have cnt1: "k_ackcount kcp1 = k_ackcount kcp" by (simp add: kcp1_def frame_simps)
  have again: "rx_end L n (input_loop alloc k ?rest f m t)"
    if "rx_ok L n k" "unat (k_ackcount k) \<le> unat (k_ackcount kcp) + 1" for k f m t
    using Cons.IH [OF that(1)] Cons.prems(2,3) that(2) by simp
  have ack: "rx_end L n (input_loop alloc (input_ack kcp1 h) ?rest f m t)" for f m t
    using again [OF rx_ok_same [OF rx1 input_ack_same_rcv input_ack_inv [OF inv1]]] cnt1
    by (simp add: frame_simps)
  have probe: "rx_end L n (input_loop alloc (kcp1\<lparr>k_probe := p\<rparr>) ?rest f m t)" for p f m t
    using rx_ok_same [OF rx1, of "kcp1\<lparr>k_probe := p\<rparr>"] inv1 again cnt1 by (simp add: same_rcv_def)
  have push: "\<exists>k. input_push alloc kcp1 h (sg_data s @ ?rest) = Inr k \<and>
      (\<forall>f m t. rx_end L n (input_loop alloc k ?rest f m t))"
    if "(ucast (h_cmd h) :: u32) = IKCP_CMD_PUSH"
    using push_rx_ok [OF rx1 assms(1) _ assms(2) s(1)] that again Cons.prems(3) cnt1
    unfolding h_def cmd [unfolded h_def] by fastforce
  have decode: "ikcp_decode_header (concat (map wire (s # ss))) = Some (h, sg_data s @ ?rest)"
    by (simp add: decode_wire h_def)
  note unfold = input_loop.simps [of alloc kcp "concat (map wire (s # ss))" flag maxack latest_ts,
      unfolded decode option.case prod.case Let_def, folded kcp1_def, unfolded rest]
  show ?case
    using Cons.prems(1) ack probe push again [OF rx1] cnt1
    by (subst unfold) auto
qed

lemma length_wires: "24 * length ss \<le> length (concat (map wire ss))"
  by (induction ss) auto

lemma input_rx_ok:
  assumes "rx_ok L n kcp" and "\<forall>m. alloc m" and "length L < 2 ^ 31" and "good_datagram L d"
    and "unat (k_ackcount kcp) + length d div 24 < 2 ^ 31" and "ikcp_input alloc kcp d = Inr (kcp', rc)"
  shows "rx_ok L n kcp'"
proof -
  obtain ss where d: "d = concat (map wire ss)" and good: "list_all (good L) ss"
    using assms(4) by (auto simp: good_datagram_def)
  have "length ss \<le> length d div 24"
    using length_wires [of ss] by (simp add: d less_eq_div_iff_mult_less_eq mult.commute)
  then have "rx_end L n (input_loop alloc kcp d False 0 0)"
    using input_loop_rx_ok [OF assms(2,3,1) good] assms(5) by (simp add: d)
  moreover have "rx_ok L n (input_cwnd u k)" if "rx_ok L n k" for u k
    using that rx_ok_same [OF that] parts_same_rcv by (simp add: rx_ok_def input_cwnd_inv)
  moreover have "rx_ok L n (ikcp_parse_fastack k sn ts)" if "rx_ok L n k" for k sn ts
    using that rx_ok_same [OF that] parts_same_rcv fastack_inv by (simp add: rx_ok_def)
  ultimately show ?thesis
    using assms(1,6)
    by (cases "input_loop alloc kcp d False 0 0") (auto simp: ikcp_input_def Let_def split: if_splits)
qed

lemma after_recv_narrower: "narrower kcp (after_recv kcp)"
proof -
  let ?q = "k_rcv_queue kcp" and ?n = "length (message (k_rcv_queue kcp))"
  let ?k = "kcp\<lparr>k_rcv_queue := drop ?n ?q, k_nrcv_que := k_nrcv_que kcp - of_nat ?n\<rparr>"
  have "narrower kcp (move_rcv_buf (k_rcv_buf ?k) ?k)"
    by (rule narrower_trans [OF _ move_rcv_buf_narrower]) (rule narrowerI; simp)
  then show ?thesis
    by (auto simp: after_recv_def Let_def narrower_def)
qed

lemma probe_frame [frame_simps]:
  "snd_inv (kcp\<lparr>k_probe := p\<rparr>) = snd_inv kcp" "ack_inv (kcp\<lparr>k_probe := p\<rparr>) = ack_inv kcp"
  "cfg_inv (kcp\<lparr>k_probe := p\<rparr>) = cfg_inv kcp"
  by (simp_all add: snd_inv_def ack_inv_def cfg_inv_def)

lemma after_recv_inv: "kcp_inv kcp \<Longrightarrow> kcp_inv (after_recv kcp)"
proof -
  have "snd_inv (after_recv kcp) = snd_inv kcp" "ack_inv (after_recv kcp) = ack_inv kcp"
    "cfg_inv (after_recv kcp) = cfg_inv kcp"
    by (simp_all add: after_recv_def Let_def frame_simps)
  then show "kcp_inv kcp \<Longrightarrow> ?thesis"
    by (simp add: kcp_inv_def rcv_inv_after_recv)
qed

lemma recv_ok:
  assumes "rx_ok L n kcp" and "tx_ok M kcp" and "0 \<le> len" and "ikcp_recv kcp True len = Inr (kcp', rc, out)"
  shows "\<exists>n'. rx_ok L n' kcp' \<and> tx_ok M kcp' \<and> n \<le> n' \<and>
    k_snd_queue kcp' = k_snd_queue kcp \<and>
    out = concat (map snd (take (n' - n) (drop n L)))"
  using assms(4,3)
proof (cases rule: recv_cases)
  case fail
  then show ?thesis using assms by (intro exI [of _ n]) simp
next
  case msg
  let ?k = "length (message (k_rcv_queue kcp))"
  have inv: "kcp_inv kcp" "rcv_inv kcp" using assms(1) by (auto simp: rx_ok_def kcp_inv_def)
  have inv': "kcp_inv kcp'" using after_recv_inv [OF inv(1)] msg by simp
  have bound: "n + ?k \<le> length L"
    using rx_bound [OF assms(1)] message_length_le [of "k_rcv_queue kcp"] by simp
  have tr: "tracks S n kcp" if "ext L S" for S using assms(1) that by (simp add: rx_ok_def)
  have "rx_ok L (n + ?k) kcp'"
    using inv' bound tracks_after_recv(1) [OF tr inv(2)] msg by (simp add: rx_ok_def)
  moreover have "tx_ok M kcp'"
    using narrower_tx_ok [OF assms(2) after_recv_narrower] inv' msg by simp
  moreover have "k_snd_queue kcp' = k_snd_queue kcp"
    using after_recv_narrower [of kcp] msg by (simp add: narrower_def)
  moreover have "map core (message (k_rcv_queue kcp)) = take ?k (drop n L)"
  proof (rule nth_equalityI)
    fix i assume "i < length (map core (message (k_rcv_queue kcp)))"
    then have "i < ?k" by simp
    have "map core (message (k_rcv_queue kcp)) ! i = map (stream_of L 0) [n..<n + ?k] ! i"
      using tracks_after_recv(2) [OF tr [OF ext_stream_of] inv(2)] by simp
    with \<open>i < ?k\<close> bound show "map core (message (k_rcv_queue kcp)) ! i = take ?k (drop n L) ! i"
      by (simp add: stream_of_def)
  qed (use bound in simp)
  then have "map snd (map core (message (k_rcv_queue kcp))) = map snd (take ?k (drop n L))"
    by (rule arg_cong)
  then have "out = concat (map snd (take ?k (drop n L)))"
    using msg by (simp add: msg_bytes_def core_def comp_def)
  ultimately show ?thesis
    by (intro exI [of _ "n + ?k"]) simp
qed

text \<open>The result is negative and nothing is read, or it is the length of what was read.\<close>

lemma recv_exact:
  assumes "rcv_inv kcp" and "0 \<le> len" and "ikcp_recv kcp True len = Inr (kcp', n, out)" and "length out < 2 ^ 31"
  shows "n < 0 \<and> out = [] \<or> n = int (length out) \<and> n \<le> len"
  using assms(3,2)
proof (cases rule: recv_cases)
  case msg
  have "\<forall>s \<in> set (k_rcv_queue kcp). seg_ok s" using assms(1) by (simp add: rcv_inv_def)
  from peek_loop_message [OF this, of 0] have "peek_loop (k_rcv_queue kcp) 0 = int (length out)"
    using assms(4) msg by simp
  then have "n = int (length out)" using peeksize_peek_loop [of kcp] msg by simp
  then show ?thesis using msg by simp
qed simp

section \<open>The system\<close>

text \<open>
  An endpoint: the control block, the datagrams it has put on the wire, and, as ghost state,
  the segments it has numbered, the bytes its application has handed over and the bytes it
  has read.
\<close>

record endpoint =
  e_kcp :: ikcpcb
  e_out :: "byte list set"
  e_num :: "(u32 \<times> byte list) list"
  e_acc :: "byte list"
  e_got :: "byte list"

text \<open>
  The steps of an endpoint whose peer has put the datagrams \<open>net\<close> on the wire; any of them may
  arrive, at any time and any number of times.
\<close>

inductive ep_step :: "byte list set \<Rightarrow> endpoint \<Rightarrow> endpoint \<Rightarrow> bool" for net where
  send: "\<forall>n. alloc n \<Longrightarrow> length b < 2 ^ 31 \<Longrightarrow>
    ikcp_send alloc (e_kcp e) b (int (length b)) = Inr (kcp', rc) \<Longrightarrow>
    ep_step net e (e\<lparr>e_kcp := kcp', e_acc := (if rc = 0 then e_acc e @ b else e_acc e)\<rparr>)"
| update: "ikcp_update (e_kcp e) t = Inr (kcp', out) \<Longrightarrow>
    n = length (k_snd_queue (e_kcp e)) - length (k_snd_queue kcp') \<Longrightarrow>
    ep_step net e (e\<lparr>e_kcp := kcp', e_out := e_out e \<union> set out,
      e_num := e_num e @ map core (take n (k_snd_queue (e_kcp e)))\<rparr>)"
| flush: "ikcp_flush (e_kcp e) = Inr (kcp', out) \<Longrightarrow>
    n = length (k_snd_queue (e_kcp e)) - length (k_snd_queue kcp') \<Longrightarrow>
    ep_step net e (e\<lparr>e_kcp := kcp', e_out := e_out e \<union> set out,
      e_num := e_num e @ map core (take n (k_snd_queue (e_kcp e)))\<rparr>)"
| input: "d \<in> net \<Longrightarrow> \<forall>n. alloc n \<Longrightarrow> unat (k_ackcount (e_kcp e)) + length d div 24 < 2 ^ 31 \<Longrightarrow>
    ikcp_input alloc (e_kcp e) d = Inr (kcp', rc) \<Longrightarrow> ep_step net e (e\<lparr>e_kcp := kcp'\<rparr>)"
| recv: "0 \<le> len \<Longrightarrow> ikcp_recv (e_kcp e) True len = Inr (kcp', rc, out) \<Longrightarrow>
    ep_step net e (e\<lparr>e_kcp := kcp', e_got := e_got e @ out\<rparr>)"
| nodelay: "ikcp_nodelay (e_kcp e) nd interval resend nc = (kcp', rc) \<Longrightarrow> ep_step net e (e\<lparr>e_kcp := kcp'\<rparr>)"
| wndsize: "rcvwnd < 2 ^ 31 \<Longrightarrow> ikcp_wndsize (e_kcp e) sndwnd rcvwnd = (kcp', rc) \<Longrightarrow>
    ep_step net e (e\<lparr>e_kcp := kcp'\<rparr>)"
| setmtu: "k_snd_queue (e_kcp e) = [] \<Longrightarrow> k_snd_buf (e_kcp e) = [] \<Longrightarrow> mtu < 2 ^ 30 \<Longrightarrow>
    ikcp_setmtu alloc (e_kcp e) mtu = (kcp', rc) \<Longrightarrow> ep_step net e (e\<lparr>e_kcp := kcp'\<rparr>)"

definition ep_start :: "(nat \<Rightarrow> bool) \<Rightarrow> u32 \<Rightarrow> endpoint option" where
  "ep_start alloc conv = map_option (\<lambda>kcp. \<lparr>e_kcp = ikcp_setoutput kcp True, e_out = {}, e_num = [],
     e_acc = [], e_got = []\<rparr>) (ikcp_create alloc conv)"

inductive sys :: "endpoint \<Rightarrow> endpoint \<Rightarrow> bool" where
  start: "ep_start alloc conv = Some a \<Longrightarrow> ep_start alloc' conv = Some b \<Longrightarrow> sys a b"
| left: "sys a b \<Longrightarrow> ep_step (e_out b) a a' \<Longrightarrow> sys a' b"
| right: "sys a b \<Longrightarrow> ep_step (e_out a) b b' \<Longrightarrow> sys a b'"

text \<open>The invariant of an endpoint whose peer has numbered the segments \<open>L\<close>.\<close>

definition ep_ok :: "(u32 \<times> byte list) list \<Rightarrow> endpoint \<Rightarrow> bool" where
  "ep_ok L e \<longleftrightarrow> tx_ok (e_num e) (e_kcp e) \<and> (\<forall>d \<in> e_out e. good_datagram (e_num e) d) \<and>
     e_acc e = concat (map snd (e_num e)) @ concat (map sg_data (k_snd_queue (e_kcp e))) \<and>
     (\<exists>n. rx_ok L n (e_kcp e) \<and> e_got e = concat (map snd (take n L)))"

lemma ep_ok_append: "ep_ok L e \<Longrightarrow> ep_ok (L @ M) e"
proof -
  assume ok: "ep_ok L e"
  then obtain n where n: "rx_ok L n (e_kcp e)" "e_got e = concat (map snd (take n L))"
    by (auto simp: ep_ok_def)
  then have "e_got e = concat (map snd (take n (L @ M)))"
    by (simp add: rx_ok_def)
  with ok rx_ok_append [OF n(1)] show ?thesis
    by (auto simp: ep_ok_def)
qed

lemma ep_step_num: "ep_step net e e' \<Longrightarrow> \<exists>M. e_num e' = e_num e @ M"
  by (cases rule: ep_step.cases) auto

lemma ep_ok_start: "ep_start alloc conv = Some e \<Longrightarrow> ep_ok [] e \<and> e_num e = []"
proof -
  assume "ep_start alloc conv = Some e"
  then obtain kcp where kcp: "ikcp_create alloc conv = Some kcp"
    and e: "e = \<lparr>e_kcp = ikcp_setoutput kcp True, e_out = {}, e_num = [], e_acc = [], e_got = []\<rparr>"
    by (auto simp: ep_start_def)
  have "kcp_inv (kcp\<lparr>k_output := True\<rparr>)"
    using create_inv [OF kcp] setoutput_inv [of kcp True] by (simp add: ikcp_setoutput_def)
  then show ?thesis
    using kcp by (auto simp: e ep_ok_def tx_ok_def rx_ok_def tracks_def snd_fit_def ikcp_setoutput_def
        ikcp_create_def split: if_splits)
qed

lemma nodelay_frame:
  "ikcp_nodelay kcp nd interval resend nc = (kcp', rc) \<Longrightarrow> narrower kcp kcp' \<and> same_rcv kcp kcp'"
  by (cases "0 \<le> nd"; cases "0 \<le> interval"; cases "0 \<le> resend"; cases "0 \<le> nc")
    (auto simp: ikcp_nodelay_def Let_def same_rcv_def intro!: narrowerI)

lemma wndsize_frame:
  "ikcp_wndsize kcp sndwnd rcvwnd = (kcp', rc) \<Longrightarrow> narrower kcp kcp' \<and> same_rcv kcp kcp'"
  by (cases "0 < sndwnd"; cases "0 < rcvwnd") (auto simp: ikcp_wndsize_def Let_def same_rcv_def intro!: narrowerI)

lemma ep_step_ok:
  assumes "ep_step net e e'" and "ep_ok L e" and "\<forall>d \<in> net. good_datagram L d" and "length L < 2 ^ 31"
  shows "ep_ok L e'"
proof -
  obtain n where tx: "tx_ok (e_num e) (e_kcp e)" and rx: "rx_ok L n (e_kcp e)"
    and acc: "e_acc e = concat (map snd (e_num e)) @ concat (map sg_data (k_snd_queue (e_kcp e)))"
    and got: "e_got e = concat (map snd (take n L))" and out: "\<forall>d \<in> e_out e. good_datagram (e_num e) d"
    using assms(2) by (auto simp: ep_ok_def)
  have rx_same: "rx_ok L n k" if "same_rcv (e_kcp e) k" "tx_ok M k" for k M
    using rx_ok_same [OF rx that(1)] that(2) by (simp add: tx_ok_def)
  have inv: "kcp_inv (e_kcp e)" using tx by (simp add: tx_ok_def)
  have config: "ep_ok L e'" if "e' = e\<lparr>e_kcp := k\<rparr>" "k_snd_queue k = k_snd_queue (e_kcp e)" "same_rcv (e_kcp e) k"
      "tx_ok (e_num e) k" for k
    using that rx_same got out acc by (auto simp: ep_ok_def)
  have emitted: "ep_ok L e'"
    if e': "e' = e\<lparr>e_kcp := k, e_out := e_out e \<union> set o', e_num := e_num e @ map core (take n' (k_snd_queue (e_kcp e)))\<rparr>"
      and n': "n' = length (k_snd_queue (e_kcp e)) - length (k_snd_queue k)"
      and moved: "\<exists>m. k_snd_queue k = drop m (k_snd_queue (e_kcp e)) \<and> m \<le> length (k_snd_queue (e_kcp e)) \<and>
        tx_ok (e_num e @ map core (take m (k_snd_queue (e_kcp e)))) k \<and> same_rcv (e_kcp e) k \<and>
        (\<forall>d \<in> set o'. good_datagram (e_num e @ map core (take m (k_snd_queue (e_kcp e)))) d)" for k o' n'
  proof -
    obtain m where m: "k_snd_queue k = drop m (k_snd_queue (e_kcp e))" "m \<le> length (k_snd_queue (e_kcp e))"
      "tx_ok (e_num e @ map core (take m (k_snd_queue (e_kcp e)))) k" "same_rcv (e_kcp e) k"
      "\<forall>d \<in> set o'. good_datagram (e_num e @ map core (take m (k_snd_queue (e_kcp e)))) d"
      using moved by blast
    have m_eq: "n' = m" using n' m(1,2) by simp
    have split: "map sg_data (k_snd_queue (e_kcp e)) =
        map sg_data (take m (k_snd_queue (e_kcp e))) @ map sg_data (drop m (k_snd_queue (e_kcp e)))"
      by (metis append_take_drop_id map_append)
    have "e_acc e = concat (map snd (e_num e @ map core (take m (k_snd_queue (e_kcp e))))) @
        concat (map sg_data (k_snd_queue k))"
      unfolding acc m(1) by (subst split) (simp add: core_def comp_def)
    then show ?thesis
      using m rx_same [OF m(4,3)] got out good_datagram_mono unfolding e' m_eq by (auto simp: ep_ok_def)
  qed
  from assms(1) show ?thesis
  proof (cases rule: ep_step.cases)
    case (send alloc b kcp' rc)
    with send_tx_ok [OF tx send(2,3,4)] rx_same got out acc show ?thesis
      by (auto simp: ep_ok_def)
  next
    case (update t kcp' o' n')
    then show ?thesis using emitted update_tx_ok [OF tx update(2)] by blast
  next
    case (flush kcp' o' n')
    then show ?thesis using emitted flush_tx_ok [OF tx flush(2)] by blast
  next
    case (input d alloc kcp' rc)
    have "k_snd_queue kcp' = k_snd_queue (e_kcp e)"
      using sender_parts.input [OF input(5)] by (simp add: narrower_def)
    then show ?thesis
      using input_tx_ok [OF tx input(3,4,5)] input_rx_ok [OF rx input(3) assms(4) _ input(4,5)]
        input(2) assms(3) got out acc unfolding input(1) by (auto simp: ep_ok_def)
  next
    case (recv len kcp' rc o')
    obtain n' where r: "rx_ok L n' kcp'" "tx_ok (e_num e) kcp'" "n \<le> n'"
      "k_snd_queue kcp' = k_snd_queue (e_kcp e)" "o' = concat (map snd (take (n' - n) (drop n L)))"
      using recv_ok [OF rx tx recv(2,3)] by blast
    have "e_got e @ o' = concat (map snd (take n' L))"
      using r(3) take_add [of n "n' - n" L] by (simp add: got r(5))
    then show ?thesis
      using r out acc unfolding recv(1) by (auto simp: ep_ok_def)
  next
    case (nodelay nd interval resend nc kcp' rc)
    have k: "narrower (e_kcp e) kcp'" "same_rcv (e_kcp e) kcp'" "k_snd_queue kcp' = k_snd_queue (e_kcp e)"
      using nodelay_frame [OF nodelay(2)] by (auto simp: narrower_def)
    show ?thesis
      by (rule config [OF nodelay(1) k(3,2) narrower_tx_ok [OF tx k(1) nodelay_inv [OF inv nodelay(2)]]])
  next
    case (wndsize rcvwnd sndwnd kcp' rc)
    have k: "narrower (e_kcp e) kcp'" "same_rcv (e_kcp e) kcp'" "k_snd_queue kcp' = k_snd_queue (e_kcp e)"
      using wndsize_frame [OF wndsize(3)] by (auto simp: narrower_def)
    show ?thesis
      by (rule config [OF wndsize(1) k(3,2) narrower_tx_ok [OF tx k(1) wndsize_inv [OF inv wndsize(3,2)]]])
  next
    case (setmtu mtu alloc kcp' rc)
    have k: "same_rcv (e_kcp e) kcp'" "k_snd_queue kcp' = k_snd_queue (e_kcp e)" "tx_ok (e_num e) kcp'"
      using setmtu(2,3,5) setmtu_inv [OF inv setmtu(5,4)] tx
      by (auto simp: ikcp_setmtu_def same_rcv_def tx_ok_def snd_fit_def split: if_splits)
    show ?thesis by (rule config [OF setmtu(1) k(2,1,3)])
  qed
qed

lemma sys_ok:
  "sys a b \<Longrightarrow> length (e_num a) < 2 ^ 31 \<Longrightarrow> length (e_num b) < 2 ^ 31 \<Longrightarrow>
     ep_ok (e_num b) a \<and> ep_ok (e_num a) b"
proof (induction rule: sys.induct)
  case (start alloc conv a alloc' b)
  then show ?case using ep_ok_start by metis
next
  case (left a b a')
  obtain M where M: "e_num a' = e_num a @ M" using ep_step_num [OF left.hyps(2)] by blast
  with left have ok: "ep_ok (e_num b) a" "ep_ok (e_num a) b" by simp_all
  have "ep_ok (e_num b) a'"
    using ep_step_ok [OF left.hyps(2) ok(1)] ok(2) left.prems(2) by (simp add: ep_ok_def)
  with ep_ok_append [OF ok(2)] show ?case by (simp add: M)
next
  case (right a b b')
  obtain M where M: "e_num b' = e_num b @ M" using ep_step_num [OF right.hyps(2)] by blast
  with right have ok: "ep_ok (e_num b) a" "ep_ok (e_num a) b" by simp_all
  have "ep_ok (e_num a) b'"
    using ep_step_ok [OF right.hyps(2) ok(2)] ok(1) right.prems(1) by (simp add: ep_ok_def)
  with ep_ok_append [OF ok(1)] show ?case by (simp add: M)
qed

section \<open>Properties of the system\<close>

lemma sys_prefix:
  assumes "sys a b" and "length (e_num a) < 2 ^ 31" and "length (e_num b) < 2 ^ 31"
  shows "(\<exists>rest. e_acc a = e_got b @ rest) \<and> (\<exists>rest. e_acc b = e_got a @ rest)"
proof -
  have "\<exists>rest. e_acc x = e_got y @ rest" if x: "ep_ok L x" and y: "ep_ok (e_num x) y" for L x y
  proof -
    obtain n where n: "e_got y = concat (map snd (take n (e_num x)))"
      using y by (auto simp: ep_ok_def)
    have "map snd (e_num x) = map snd (take n (e_num x)) @ map snd (drop n (e_num x))"
      by (metis append_take_drop_id map_append)
    then have "e_acc x = e_got y @ concat (map snd (drop n (e_num x))) @
        concat (map sg_data (k_snd_queue (e_kcp x)))"
      using x by (simp add: n ep_ok_def)
    then show ?thesis by blast
  qed
  then show ?thesis
    using sys_ok [OF assms] by blast
qed

text \<open>
  C1. End-to-end reliability: in every run of two connected endpoints, whatever the network
  delays, reorders, duplicates or drops, whenever the applications send, read, flush, drive
  the clock (any clock values) and change the configuration (the MTU before the first send),
  the bytes one application has read are a prefix of the bytes the other one has handed over,
  in both directions. The bound is on the number of segments a connection may number before
  the 32-bit sequence numbers of very old duplicates could be mistaken for new ones.
\<close>

theorem reliable_delivery:
  assumes "sys a b" and "length (e_num a) < 2 ^ 31" and "length (e_num b) < 2 ^ 31"
  shows "(\<exists>rest. e_acc a = e_got b @ rest) \<and> (\<exists>rest. e_acc b = e_got a @ rest)"
  by (rule sys_prefix [OF assms])

text \<open>
  A concrete run: one side sends three bytes and drives its clock twice (the first flush only
  opens the congestion window), the datagram arrives at the other side twice, and the
  message is read there.
\<close>

definition demo_block :: ikcpcb where
  "demo_block = ikcp_setoutput (the (ikcp_create (\<lambda>_. True) 7)) True"

definition demo_send :: ikcpcb where
  "demo_send = fst (projr (ikcp_send (\<lambda>_. True) demo_block [1, 2, 3] 3))"

definition demo_open :: ikcpcb where
  "demo_open = fst (projr (ikcp_update demo_send 0))"

definition demo_flush :: ikcpcb where
  "demo_flush = fst (projr (ikcp_update demo_open 100))"

definition demo_datagram :: "byte list" where
  "demo_datagram = [7, 0, 0, 0, 81, 0, 128, 0, 100, 0, 0, 0, 0, 0, 0, 0, 0, 0, 0, 0, 3, 0, 0, 0, 1, 2, 3]"

definition demo_arrive :: ikcpcb where
  "demo_arrive = fst (projr (ikcp_input (\<lambda>_. True) demo_block demo_datagram))"

definition demo_again :: ikcpcb where
  "demo_again = fst (projr (ikcp_input (\<lambda>_. True) demo_arrive demo_datagram))"

definition demo_read :: ikcpcb where
  "demo_read = fst (projr (ikcp_recv demo_again True 100))"

lemma projr_eq: "\<not> isl x \<and> snd (projr x) = y \<Longrightarrow> x = Inr (fst (projr x), y)"
  by (cases x) auto

lemma demo_steps:
  "ikcp_send (\<lambda>_. True) demo_block [1, 2, 3] 3 = Inr (demo_send, 0)"
  "ikcp_update demo_send 0 = Inr (demo_open, [])"
  "ikcp_update demo_open 100 = Inr (demo_flush, [demo_datagram])"
  "ikcp_input (\<lambda>_. True) demo_block demo_datagram = Inr (demo_arrive, 0)"
  "ikcp_input (\<lambda>_. True) demo_arrive demo_datagram = Inr (demo_again, 0)"
  "ikcp_recv demo_again True 100 = Inr (demo_read, 3, [1, 2, 3])"
proof -
  have 1: "\<not> isl (ikcp_send (\<lambda>_. True) demo_block [1, 2, 3] 3) \<and> snd (projr (ikcp_send (\<lambda>_. True) demo_block [1, 2, 3] 3)) = 0"
    by code_simp
  show "ikcp_send (\<lambda>_. True) demo_block [1, 2, 3] 3 = Inr (demo_send, 0)"
    by (rule projr_eq [OF 1, folded demo_send_def])
  have 2: "\<not> isl (ikcp_update demo_send 0) \<and> snd (projr (ikcp_update demo_send 0)) = []"
    by code_simp
  show "ikcp_update demo_send 0 = Inr (demo_open, [])"
    by (rule projr_eq [OF 2, folded demo_open_def])
  have 3: "\<not> isl (ikcp_update demo_open 100) \<and> snd (projr (ikcp_update demo_open 100)) = [demo_datagram]"
    by code_simp
  show "ikcp_update demo_open 100 = Inr (demo_flush, [demo_datagram])"
    by (rule projr_eq [OF 3, folded demo_flush_def])
  have 4: "\<not> isl (ikcp_input (\<lambda>_. True) demo_block demo_datagram) \<and>
      snd (projr (ikcp_input (\<lambda>_. True) demo_block demo_datagram)) = 0"
    by code_simp
  show "ikcp_input (\<lambda>_. True) demo_block demo_datagram = Inr (demo_arrive, 0)"
    by (rule projr_eq [OF 4, folded demo_arrive_def])
  have 5: "\<not> isl (ikcp_input (\<lambda>_. True) demo_arrive demo_datagram) \<and>
      snd (projr (ikcp_input (\<lambda>_. True) demo_arrive demo_datagram)) = 0"
    by code_simp
  show "ikcp_input (\<lambda>_. True) demo_arrive demo_datagram = Inr (demo_again, 0)"
    by (rule projr_eq [OF 5, folded demo_again_def])
  have 6: "\<not> isl (ikcp_recv demo_again True 100) \<and> snd (projr (ikcp_recv demo_again True 100)) = (3, [1, 2, 3])"
    by code_simp
  show "ikcp_recv demo_again True 100 = Inr (demo_read, 3, [1, 2, 3])"
    by (rule projr_eq [OF 6, folded demo_read_def])
qed

lemma demo_run:
  "\<exists>a b. sys a b \<and> e_got b = [1, 2, 3] \<and> length (e_num a) < 2 ^ 31 \<and> length (e_num b) < 2 ^ 31"
proof -
  define a0 where "a0 = \<lparr>e_kcp = demo_block, e_out = {}, e_num = [], e_acc = [], e_got = []\<rparr>"
  define q where "q = k_snd_queue demo_send"
  define q' where "q' = k_snd_queue demo_open"
  define n where "n = length q - length q'"
  define n' where "n' = length q' - length (k_snd_queue demo_flush)"
  have q: "length q \<le> 1" "length q' \<le> 1" unfolding q_def q'_def by code_simp+
  have 0: "sys a0 a0"
    using sys.start [of "\<lambda>_. True" 7 a0 "\<lambda>_. True" a0]
    by (simp add: ep_start_def a0_def demo_block_def ikcp_create_def)
  have 1: "sys (a0\<lparr>e_kcp := demo_send, e_acc := [1, 2, 3]\<rparr>) a0"
    using sys.left [OF 0 ep_step.send [of "\<lambda>_. True" "[1, 2, 3]" a0 demo_send 0]] demo_steps(1)
    by (simp add: a0_def)
  have 2: "sys (a0\<lparr>e_kcp := demo_open, e_acc := [1, 2, 3], e_num := map core (take n q)\<rparr>) a0"
    using sys.left [OF 1 ep_step.update [OF _ refl, of _ 0 demo_open "[]"]] demo_steps(2)
    by (simp add: a0_def n_def q_def q'_def)
  let ?a = "a0\<lparr>e_kcp := demo_flush, e_acc := [1, 2, 3], e_out := {demo_datagram},
      e_num := map core (take n q) @ map core (take n' q')\<rparr>"
  have 3: "sys ?a a0"
    using sys.left [OF 2 ep_step.update [OF _ refl, of _ 100 demo_flush "[demo_datagram]"]] demo_steps(3)
    by (simp add: a0_def n'_def q'_def)
  have len: "length demo_datagram div 24 = 1" by code_simp
  have pending: "k_ackcount demo_block = 0" "k_ackcount demo_arrive = 1" by code_simp+
  have cnt: "unat (k_ackcount demo_block) + length demo_datagram div 24 < 2 ^ 31"
    "unat (k_ackcount demo_arrive) + length demo_datagram div 24 < 2 ^ 31"
    using pending unfolding len by simp_all
  have step: "ep_step {demo_datagram} e (e\<lparr>e_kcp := k'\<rparr>)"
    if "unat (k_ackcount (e_kcp e)) + length demo_datagram div 24 < 2 ^ 31"
      "ikcp_input (\<lambda>_. True) (e_kcp e) demo_datagram = Inr (k', 0)" for e k'
    by (rule ep_step.input [OF _ _ that]) simp_all
  have out: "e_out ?a = {demo_datagram}" by simp
  have "ep_step {demo_datagram} a0 (a0\<lparr>e_kcp := demo_arrive\<rparr>)"
    using demo_steps(4) cnt(1) by (intro step) (simp_all only: a0_def endpoint.simps)
  then have 4: "sys ?a (a0\<lparr>e_kcp := demo_arrive\<rparr>)"
    by (intro sys.right [OF 3]) (simp only: out)
  have "ep_step {demo_datagram} (a0\<lparr>e_kcp := demo_arrive\<rparr>) (a0\<lparr>e_kcp := demo_arrive, e_kcp := demo_again\<rparr>)"
    using demo_steps(5) cnt(2) by (intro step) (simp_all only: a0_def endpoint.simps)
  then have 5: "sys ?a (a0\<lparr>e_kcp := demo_again\<rparr>)"
    using sys.right [OF 4, of "a0\<lparr>e_kcp := demo_arrive, e_kcp := demo_again\<rparr>"] by (simp add: out)
  have "sys ?a (a0\<lparr>e_kcp := demo_read, e_got := [1, 2, 3]\<rparr>)"
    using sys.right [OF 5 ep_step.recv [of 100 _ demo_read 3 "[1, 2, 3]"]] demo_steps(6)
    by (simp add: a0_def)
  then show ?thesis
    using q by (intro exI [of _ ?a] exI [of _ "a0\<lparr>e_kcp := demo_read, e_got := [1, 2, 3]\<rparr>"])
      (simp add: a0_def)
qed

theorem reliable_delivery_witness:
  "\<exists>a b rest. sys a b \<and> e_got b = [1, 2, 3] \<and> e_acc a = [1, 2, 3] @ rest"
  using demo_run reliable_delivery by metis

section \<open>The output buffer can be overrun\<close>

text \<open>A store behind the end of the buffer is the only way in which the data segments can fail.\<close>

lemma flush_put_fault: "flush_put kcp seg buf out = Inl f \<Longrightarrow> k_output kcp \<Longrightarrow> f = Overrun"
  by (auto simp: flush_put_def ikcp_output_def Let_def split: if_splits sum.splits)

lemma flush_put_long: "k_bufcap kcp < 24 + length (sg_data seg) \<Longrightarrow> k_output kcp \<Longrightarrow> flush_put kcp seg buf out = Inl Overrun"
  by (auto simp: flush_put_def ikcp_output_def Let_def split: sum.split)

lemma flush_data_overrun:
  assumes "k_output kcp" and "s \<in> set rest" and "flush_reason kcp resent s \<noteq> Keep" and "k_bufcap kcp < 24 + length (sg_data s)"
  shows "flush_data wnd resent rtomin passed rest kcp change lost buf out = Inl Overrun"
  using assms
proof (induction rest arbitrary: passed kcp change lost buf out)
  case (Cons seg rest)
  define why where "why = flush_reason kcp resent seg"
  define kcp1 where "kcp1 = (if why = Timeout then kcp\<lparr>k_xmit := k_xmit kcp + 1\<rparr> else kcp)"
  define seg1 where "seg1 = flush_mark kcp wnd rtomin why seg"
  have k1: "k_output kcp1" "k_bufcap kcp1 = k_bufcap kcp" "k_current kcp1 = k_current kcp" "k_fastlimit kcp1 = k_fastlimit kcp"
    using Cons.prems(1) by (simp_all add: kcp1_def)
  have data: "sg_data seg1 = sg_data seg"
    by (simp add: seg1_def flush_mark_def Let_def split: reason.split)
  have IH: "flush_data wnd resent rtomin p rest k c l b ob = Inl Overrun"
    if "s \<in> set rest" "k_output k" "k_bufcap k = k_bufcap kcp" "k_current k = k_current kcp" "k_fastlimit k = k_fastlimit kcp"
    for p k c l b ob
  proof (rule Cons.IH)
    have "flush_reason k resent s = flush_reason kcp resent s" using that by (simp only: flush_reason_def)
    then show "flush_reason k resent s \<noteq> Keep" using Cons.prems(3) by simp
  qed (use that Cons.prems(4) in simp_all)
  show ?case
  proof (cases "why = Keep")
    case True
    then have "s \<in> set rest" using Cons.prems(2,3) by (auto simp: why_def)
    with True IH Cons.prems(1) show ?thesis by (simp add: why_def)
  next
    case False
    have step: "flush_data wnd resent rtomin passed (seg # rest) kcp change lost buf out =
        (case flush_put kcp1 seg1 buf out of
           Inl f \<Rightarrow> Inl f
         | Inr (buf, out) \<Rightarrow> flush_data wnd resent rtomin (passed @ [seg1]) rest
             (if sg_xmit seg1 \<ge> k_dead_link kcp1 then kcp1\<lparr>k_state := - 1\<rparr> else kcp1)
             (if why = Fast then change + 1 else change) (lost \<or> why = Timeout) buf out)"
      using False unfolding flush_data.simps by (simp only: Let_def why_def [symmetric] seg1_def [symmetric] kcp1_def [symmetric] if_False)
    show ?thesis
    proof (cases "flush_put kcp1 seg1 buf out")
      case (Inl f)
      then show ?thesis using flush_put_fault [OF Inl k1(1)] by (simp only: step sum.case)
    next
      case (Inr r)
      have "s \<in> set rest"
        using Cons.prems(2,4) flush_put_long [of kcp1 seg1 buf out] k1 Inr data by auto
      then show ?thesis unfolding step Inr using IH k1 by (simp split: prod.split)
    qed
  qed
qed simp

lemma new_segs_mem: "s \<in> set q \<Longrightarrow> \<exists>wnd sn. flush_new k wnd sn s \<in> set (new_segs k w n q)"
proof (induction q arbitrary: n)
  case (Cons t q)
  then consider "s = t" | "s \<in> set q" by auto
  then show ?case
  proof cases
    case 2
    with Cons.IH [of "n + 1"] show ?thesis by auto
  qed auto
qed simp

lemma flush_overrun:
  assumes "kcp_inv kcp" and "k_output kcp" and "k_updated kcp \<noteq> 0"
    and "s \<in> set (k_snd_buf (before_send kcp))" and "\<And>r. flush_reason (before_send kcp) r s \<noteq> Keep"
    and "k_bufcap kcp < 24 + length (sg_data s)"
  shows "ikcp_flush kcp = Inl Overrun"
proof -
  obtain buf out where head: "flush_head kcp = Inr (headed kcp, buf, out)"
    using flush_head_ok [OF assms(1,2), of "\<lambda>_. True"] by blast
  have "k_bufcap (before_send kcp) = k_bufcap kcp" "k_output (before_send kcp)"
    using assms(2) by (simp_all add: before_send_def numbered_def headed_def flush_probe_def Let_def)
  then have "flush_data wnd r rtomin [] (k_snd_buf (before_send kcp)) (before_send kcp) 0 False buf out = Inl Overrun" for wnd r rtomin
    using assms(4-6) by (intro flush_data_overrun) auto
  then show ?thesis
    using assms(3) by (simp add: ikcp_flush_def Let_def head flush_move_before [OF assms(1)])
qed

text \<open>
  C40. \<open>ikcp_setmtu\<close> does not look at what is already queued. Take any well-formed block and any
  segment that the next flush sends: one in the send buffer that is new or due, or one that the
  window lets out of the queue. If the MTU is lowered so far that the segment with its header is
  longer than the new output buffer, three times the MTU and a header, then \<open>ikcp_setmtu\<close>
  reports success and the next flush stores behind the end of the buffer.
\<close>

theorem setmtu_overrun:
  assumes "kcp_inv kcp" and "k_output kcp" and "k_updated kcp \<noteq> 0" and "\<forall>n. alloc n"
    and "50 \<le> mtu" and "mtu < 2 ^ 30"
    and "window = (if k_nocwnd kcp = 0 then min (unat (k_cwnd kcp)) (min (unat (k_snd_wnd kcp)) (unat (k_rmt_wnd kcp)))
      else min (unat (k_snd_wnd kcp)) (unat (k_rmt_wnd kcp)))"
    and "s \<in> set (k_snd_buf kcp) \<and> (sg_xmit s = 0 \<or> itimediff (k_current kcp) (sg_resendts s) \<ge> 0) \<or>
      s \<in> set (take (window - wdist (k_snd_una kcp) (k_snd_nxt kcp)) (k_snd_queue kcp))"
    and "3 * (mtu + 24) < 24 + int (length (sg_data s))"
  shows "\<exists>kcp'. ikcp_setmtu alloc kcp mtu = (kcp', 0) \<and> ikcp_flush kcp' = Inl Overrun"
proof -
  define kcp' where "kcp' = fst (ikcp_setmtu alloc kcp mtu)"
  have set: "ikcp_setmtu alloc kcp mtu = (kcp', 0)"
    using assms(4,5) by (simp add: kcp'_def ikcp_setmtu_def kcp_defs)
  have frame: "k_snd_buf kcp' = k_snd_buf kcp" "k_snd_queue kcp' = k_snd_queue kcp" "k_output kcp'" "k_updated kcp' \<noteq> 0"
    "k_current kcp' = k_current kcp" "flush_window kcp' = flush_window kcp" "k_snd_una kcp' = k_snd_una kcp" "k_snd_nxt kcp' = k_snd_nxt kcp"
    "k_bufcap kcp' = buffer_bytes (word_of_int mtu)"
    using assms(2-5) by (simp_all add: kcp'_def ikcp_setmtu_def kcp_defs flush_window_def Let_def)
  have "unat ((word_of_int mtu + 24 :: u32) * 3) = nat (3 * (mtu + 24))"
  proof -
    have "(word_of_int mtu + 24) * 3 = (word_of_int (3 * (mtu + 24)) :: u32)" by simp
    then show ?thesis using assms(5,6) by (simp only:) (rule unat_word_of_int32, simp_all)
  qed
  then have cap: "k_bufcap kcp' < 24 + length (sg_data s)"
    using assms(5,9) by (simp add: frame(9) buffer_bytes_def kcp_defs)
  have "\<exists>s'. s' \<in> set (k_snd_buf (before_send kcp')) \<and> (\<forall>r. flush_reason (before_send kcp') r s' \<noteq> Keep) \<and> sg_data s' = sg_data s"
    using assms(8)
  proof
    assume s: "s \<in> set (k_snd_buf kcp) \<and> (sg_xmit s = 0 \<or> itimediff (k_current kcp) (sg_resendts s) \<ge> 0)"
    then have "s \<in> set (k_snd_buf (before_send kcp'))" by (simp add: before_send_def numbered_def frame)
    with s sent_due(1) [of s kcp'] frame(5) show ?thesis by metis
  next
    assume s: "s \<in> set (take (window - wdist (k_snd_una kcp) (k_snd_nxt kcp)) (k_snd_queue kcp))"
    have "window = unat (flush_window kcp)" by (simp only: assms(7) unat_flush_window)
    moreover have "take (min (length xs) m) xs = take m xs" for m and xs :: "ikcpseg list" by (simp add: min_def)
    ultimately have "s \<in> set (take (new_count kcp') (k_snd_queue kcp'))"
      using s by (simp only: new_count_def frame)
    then have "\<exists>wnd sn. flush_new k wnd sn s \<in> set (new_segs k w n (take (new_count kcp') (k_snd_queue kcp')))" for k w n
      by (rule new_segs_mem)
    then obtain wnd sn where "flush_new (headed kcp') wnd sn s \<in> set (k_snd_buf (before_send kcp'))"
      unfolding before_send_def numbered_def by fastforce
    moreover have "sg_xmit (flush_new k wnd sn s) = 0" "sg_data (flush_new k wnd sn s) = sg_data s" for k
      by (simp_all add: flush_new_def)
    ultimately show ?thesis using sent_due(1) by metis
  qed
  then obtain s' where "s' \<in> set (k_snd_buf (before_send kcp'))" "\<And>r. flush_reason (before_send kcp') r s' \<noteq> Keep" "sg_data s' = sg_data s"
    by blast
  with flush_overrun [of kcp' s'] setmtu_inv [OF assms(1) set assms(6)] frame(3,4) cap set show ?thesis by auto
qed

text \<open>A message of 200 bytes queued at the default MTU of 1400, which is then lowered to 50: the buffer has 222 bytes.\<close>

theorem setmtu_overrun_witness:
  "\<exists>k1 k2. ikcp_send (\<lambda>_. True) (demo_block\<lparr>k_nocwnd := 1, k_updated := 1\<rparr>) (replicate 200 42) 200 = Inr (k1, 0) \<and>
     ikcp_setmtu (\<lambda>_. True) k1 50 = (k2, 0) \<and> ikcp_flush k2 = Inl Overrun"
proof -
  let ?k = "demo_block\<lparr>k_nocwnd := 1, k_updated := 1\<rparr>"
  have k: "k_snd_queue demo_block = []" "k_mss demo_block = 1376" "k_stream demo_block = 0" "k_snd_wnd demo_block = 32"
    "k_rmt_wnd demo_block = 128" "k_snd_una demo_block = 0" "k_snd_nxt demo_block = 0" "k_output demo_block" "k_nsnd_que demo_block = 0"
    by (simp_all add: demo_block_def ikcp_setoutput_def ikcp_create_def kcp_defs)
  have "ikcp_create (\<lambda>_. True) 7 = Some (the (ikcp_create (\<lambda>_. True) 7))" by (simp add: ikcp_create_def)
  from create_inv [OF this] setoutput_inv have "kcp_inv demo_block" by (simp add: demo_block_def)
  then have inv: "kcp_inv ?k" by simp
  define q where "q = frags 1376 1 False (replicate 200 42)"
  have q: "\<exists>s. q = [s] \<and> seg_ok s \<and> sg_data s = replicate 200 42" by (simp add: q_def seg_new_def seg_ok_def)
  define k1 where "k1 = ?k\<lparr>k_snd_queue := q, k_nsnd_que := 1\<rparr>"
  have "cfg_inv ?k" using inv by (simp add: kcp_inv_def)
  from send_message_eq [OF this, of "\<lambda>_. True" "replicate 200 42"]
  have send: "ikcp_send (\<lambda>_. True) ?k (replicate 200 42) 200 = Inr (k1, 0)"
    by (simp add: k frag_count_def q_def k1_def)
  have "kcp_inv k1" using inv q unfolding k1_def kcp_inv_defs by (auto simp: k)
  then have "\<exists>kcp'. ikcp_setmtu (\<lambda>_. True) k1 50 = (kcp', 0) \<and> ikcp_flush kcp' = Inl Overrun"
    using setmtu_overrun [of k1 "\<lambda>_. True" 50 _ "hd q", OF _ _ _ _ _ _ refl] q by (auto simp: k1_def k wdist_def)
  with send show ?thesis by blast
qed

end
