(* ===== verification/Kcp_Session.thy ===== *)
theory Kcp_Session
  imports Kcp_Net Kcp_System
begin

text \<open>
  A client and a server of \<open>src/kcp-cpp/KCPNet.cpp\<close> over an unreliable network, with the KCP of
  \<open>src/kcp_learn/ikcp.c\<close>. The session layer only makes calls that theory \<open>Kcp_System\<close> allows, it tells
  time packets from KCP datagrams, and so the guarantee of the protocol carries over to what the
  applications see: the data handed to \<open>rGotData\<close> is a prefix of the data given to \<open>sendData\<close>.
\<close>

section \<open>Calls of KCP as steps of an endpoint\<close>

definition net_kcp :: "ikcpcb kcp_api" where
  "net_kcp = learn_kcp (\<lambda>n. True)"

lemma net_kcp_simps [simp]:
  "api_create net_kcp = ikcp_create (\<lambda>n. True)" "api_output net_kcp kcp = ikcp_setoutput kcp True"
  "api_nodelay net_kcp = ikcp_nodelay" "api_setmtu net_kcp = ikcp_setmtu (\<lambda>n. True)"
  "api_wndsize net_kcp = ikcp_wndsize" "api_send net_kcp kcp b = ikcp_send (\<lambda>n. True) kcp b (int (length b))"
  "api_input net_kcp = ikcp_input (\<lambda>n. True)" "api_recv net_kcp kcp = ikcp_recv kcp True"
  "api_update net_kcp = ikcp_update" "api_check net_kcp = ikcp_check"
  by (simp_all add: net_kcp_def learn_kcp_def)

definition settings_ok :: "KCPSettings \<Rightarrow> bool" where
  "settings_ok st \<longleftrightarrow> mMtu st < 2 ^ 30 \<and> mRcvWnd st < 2 ^ 31"

text \<open>The list of acknowledgements to send does not outgrow its 31-bit count.\<close>

definition acks_ok :: "ikcpcb \<Rightarrow> byte list \<Rightarrow> bool" where
  "acks_ok kcp d \<longleftrightarrow> unat (k_ackcount kcp) + length d div 24 < 2 ^ 31"

lemma apply_settings_steps:
  assumes "settings_ok st" and "k_snd_queue (e_kcp e) = []" and "k_snd_buf (e_kcp e) = []"
  shows "(ep_step net)\<^sup>*\<^sup>* e (e\<lparr>e_kcp := fst (apply_settings net_kcp st (e_kcp e))\<rparr>)"
proof -
  obtain k1 r1 where 1: "ikcp_nodelay (e_kcp e) (of_bool (mNoDelay st)) (mInterval st) (mResend st)
      (of_bool (\<not> mFlow st)) = (k1, r1)" by fastforce
  obtain k2 r2 where 2: "ikcp_setmtu (\<lambda>n. True) k1 (mMtu st) = (k2, r2)" by fastforce
  obtain k3 r3 where 3: "ikcp_wndsize k2 (mSndWnd st) (mRcvWnd st) = (k3, r3)" by fastforce
  have q: "k_snd_queue k1 = []" "k_snd_buf k1 = []"
    using nodelay_frame [OF 1] assms(2,3) by (auto simp: narrower_def)
  have s1: "ep_step net e (e\<lparr>e_kcp := k1\<rparr>)" by (rule ep_step.nodelay [OF 1])
  have s2: "ep_step net (e\<lparr>e_kcp := k1\<rparr>) (e\<lparr>e_kcp := k2\<rparr>)"
    using ep_step.setmtu [of "e\<lparr>e_kcp := k1\<rparr>" "mMtu st" "\<lambda>n. True" k2 r2 net] q 2 assms(1) by (simp add: settings_ok_def)
  have s3: "ep_step net (e\<lparr>e_kcp := k2\<rparr>) (e\<lparr>e_kcp := k3\<rparr>)"
    using ep_step.wndsize [of "mRcvWnd st" "e\<lparr>e_kcp := k2\<rparr>" "mSndWnd st" k3 r3 net] 3 assms(1) by (simp add: settings_ok_def)
  have "fst (apply_settings net_kcp st (e_kcp e)) = (if r1 \<noteq> 0 then k1 else if r2 \<noteq> 0 then k2 else k3)"
    by (simp add: apply_settings_def 1 2 3)
  then show ?thesis
    using s1 s2 s3 by (auto intro: converse_rtranclp_into_rtranclp)
qed

lemma apply_settings_acks: "k_ackcount (fst (apply_settings net_kcp st kcp)) = k_ackcount kcp"
proof -
  have "k_ackcount (fst (ikcp_nodelay k a b c d)) = k_ackcount k" "k_ackcount (fst (ikcp_wndsize k a b)) = k_ackcount k"
    "k_ackcount (fst (ikcp_setmtu (\<lambda>n. True) k a)) = k_ackcount k" for k a b c d
    by (simp_all add: ikcp_nodelay_def ikcp_wndsize_def ikcp_setmtu_def Let_def)
  then show ?thesis by (simp add: apply_settings_def Let_def case_prod_beta)
qed

lemma sys_sym: "sys a b \<Longrightarrow> sys b a"
  by (induction rule: sys.induct) (auto intro: sys.intros)

lemma sys_steps: "(ep_step (e_out b))\<^sup>*\<^sup>* a a' \<Longrightarrow> sys a b \<Longrightarrow> sys a' b"
  by (induction rule: rtranclp_induct) (auto intro: sys.left)

lemma recv_length:
  assumes "rcv_inv kcp" and "0 \<le> len" and "ikcp_recv kcp True len = Inr (kcp', n, out)" and "length out < 2 ^ 31"
  shows "0 < n \<longleftrightarrow> out \<noteq> []"
  using recv_exact [OF assms] by auto

text \<open>
  Handing a datagram of the peer to KCP and reading once keeps the system in step; the application is
  called exactly when there is data, as long as fewer than \<open>2 ^ 31\<close> bytes are on their way.
\<close>

lemma feed_sys:
  assumes "sys a b" and "length (e_num a) < 2 ^ 31" and "length (e_num b) < 2 ^ 31"
    and "feed net_kcp (e_kcp a) d = Inr (kcp', n, out)" and "d \<in> e_out b" and "acks_ok (e_kcp a) d"
    and "length (e_acc b) < length (e_got a) + 2 ^ 31"
  shows "sys (a\<lparr>e_kcp := kcp', e_got := e_got a @ out\<rparr>) b" and "0 < n \<longleftrightarrow> out \<noteq> []"
proof -
  obtain k1 r1 where 1: "ikcp_input (\<lambda>n. True) (e_kcp a) d = Inr (k1, r1)"
    and 2: "ikcp_recv k1 True (int KCP_MAX_BYTES) = Inr (kcp', n, out)"
    using assms(4) by (auto simp: feed_def split: sum.splits)
  have "ep_step (e_out b) a (a\<lparr>e_kcp := k1\<rparr>)"
    using ep_step.input [OF assms(5) _ _ 1] assms(6) by (simp add: acks_ok_def)
  then have s1: "sys (a\<lparr>e_kcp := k1\<rparr>) b" by (rule sys.left [OF assms(1)])
  show s2: "sys (a\<lparr>e_kcp := kcp', e_got := e_got a @ out\<rparr>) b"
    using sys.left [OF s1, of "a\<lparr>e_kcp := kcp', e_got := e_got a @ out\<rparr>"]
      ep_step.recv [of "int KCP_MAX_BYTES" "a\<lparr>e_kcp := k1\<rparr>" kcp' n out "e_out b"] 2 by simp
  obtain rest where "e_acc b = (e_got a @ out) @ rest" using sys_prefix [OF s2] assms(2,3) by auto
  then have "length out < 2 ^ 31" using assms(7) by simp
  moreover have "rcv_inv k1" using sys_ok [OF s1] assms(2,3) by (auto simp: ep_ok_def tx_ok_def kcp_inv_def)
  ultimately show "0 < n \<longleftrightarrow> out \<noteq> []" using recv_length [OF _ _ 2] by simp
qed

section \<open>Telling time packets from KCP datagrams\<close>

lemma unat_of_le:
  "length xs \<le> 8 \<Longrightarrow> unat (of_le xs) = foldr (\<lambda>b n. unat b + 256 * n) xs 0 \<and> unat (of_le xs) < 256 ^ length xs"
proof (induction xs)
  case (Cons b xs)
  then have IH: "unat (of_le xs) = foldr (\<lambda>b n. unat b + 256 * n) xs 0" "unat (of_le xs) < 256 ^ length xs"
    by simp_all
  have b: "unat b < 256" by (rule less_le_trans [OF unsigned_less]) simp
  have "(256 :: nat) ^ length xs \<le> 256 ^ 7" using Cons.prems by (intro power_increasing) simp_all
  then have l: "unat (of_le xs) < 2 ^ 56" using IH(2) by simp
  have p: "unat (push_bit 8 (of_le xs)) = 256 * unat (of_le xs)"
    using l by (simp add: push_bit_eq_mult unat_mult_lem [THEN iffD1])
  have u: "unat (ucast b :: u64) = unat b" using b by (simp add: unsigned_ucast_eq take_bit_nat_eq_self)
  have "unat (of_le (b # xs)) = unat b + 256 * unat (of_le xs)"
    using l b p u by (simp add: unat_add_lem [THEN iffD1])
  then show ?case using IH b by simp
qed simp

lemma digit_of_le: "i < length xs \<Longrightarrow> foldr (\<lambda>b n. unat b + 256 * n) xs 0 div 256 ^ i mod 256 = unat (xs ! i)"
  for xs :: "byte list"
proof (induction xs arbitrary: i)
  case (Cons b xs)
  have b: "unat b < 256" by (rule less_le_trans [OF unsigned_less]) simp
  show ?case
  proof (cases i)
    case 0
    then show ?thesis using b by simp
  next
    case (Suc j)
    then show ?thesis using Cons b by (simp add: div_mult2_eq)
  qed
qed simp

lemma time_byte: "is_time d \<Longrightarrow> 8 \<le> length d \<Longrightarrow> d ! 4 = 1"
proof -
  assume t: "is_time d" "8 \<le> length d"
  have "unat (d ! 4) = unat (of_le (take 8 d)) div 256 ^ 4 mod 256"
    using digit_of_le [of 4 "take 8 d"] unat_of_le [of "take 8 d"] t(2) by simp
  also have "of_le (take 8 d) = 0x000100010ff00ff0"
    using t(1) by (simp add: is_time_def get64_def TIME_PREAMBLE_V1_def)
  finally show ?thesis by (simp add: word_unat_eq_iff)
qed

lemma good_datagram_kind:
  assumes "good_datagram L d"
  shows "24 \<le> length d \<and> \<not> is_time d"
proof -
  obtain ss where ss: "d = concat (map wire ss)" "list_all (good L) ss" "d \<noteq> []"
    using assms by (auto simp: good_datagram_def)
  then obtain s rest where s: "ss = s # rest" "good L s" by (cases ss) auto
  have "d ! 4 = ucast (sg_cmd s)"
    by (simp add: ss(1) s(1) wire_def ikcp_encode_seg_eq nth_append ikcp_encode8u_def)
  then have "d ! 4 \<noteq> 1" using s(2) by (auto simp: good_def kcp_defs)
  moreover have "24 \<le> length d" by (simp add: ss(1) s(1) wire_def)
  ultimately show ?thesis using time_byte [of d] by auto
qed

definition time_datagram :: "byte list \<Rightarrow> bool" where
  "time_datagram d \<longleftrightarrow> length d = 56 \<and> is_time d"

lemma time_datagram_sent: "time_datagram (sendTimePacket ts now)"
proof -
  have "is_time (packet_bytes p)" if "timePreamble p = TIME_PREAMBLE_V1" for p
    using arg_cong [OF packet_at_bytes [of p "[]"], of timePreamble] that by (simp add: is_time_def packet_at_def)
  then show ?thesis by (simp add: time_datagram_def sendTimePacket_def Let_def time_packet_def)
qed

lemma put64_field: "off + 8 \<le> length buf \<Longrightarrow> length (put64 off w buf) = length buf"
  "8 \<le> off \<Longrightarrow> off + 8 \<le> length buf \<Longrightarrow> is_time (put64 off w buf) = is_time buf"
  by (simp_all add: put64_def is_time_def get64_def)

lemma time_datagram_answer:
  assumes "time_datagram d" and "answer_time tm (received d buf) now = (tm', buf')"
  shows "time_datagram (take 56 buf')"
proof -
  have "is_time (received d buf)" "56 \<le> length (received d buf)"
    using assms(1) is_time_front [of d buf] by (auto simp: time_datagram_def received_def)
  then have "is_time buf' \<and> 56 \<le> length buf'"
    using assms(2) by (auto simp: answer_time_def Let_def put64_field)
  then show ?thesis by (simp add: time_datagram_def is_time_take)
qed

section \<open>A client and its session\<close>

text \<open>The data handed to \<open>rGotData\<close>.\<close>

definition got_of :: "call list \<Rightarrow> byte list" where
  "got_of cs = concat (map (\<lambda>c. case c of Got_data k b \<Rightarrow> b | Disconnected k \<Rightarrow> []) cs)"

lemma got_of_simps [simp]: "got_of [] = []" "got_of (xs @ ys) = got_of xs @ got_of ys"
  "got_of [Got_data k b] = b" "got_of [Disconnected k] = []"
  by (simp_all add: got_of_def)

text \<open>
  The program's state is that of an endpoint of the system: the same control block, the same data in and
  out, and on the wire its datagrams and time packets.
\<close>

definition on_wire :: "byte list \<Rightarrow> endpoint \<Rightarrow> bool" where
  "on_wire d e \<longleftrightarrow> d \<in> e_out e \<or> time_datagram d"

definition client_is :: "ikcpcb client \<Rightarrow> byte list \<Rightarrow> nat \<Rightarrow> endpoint \<Rightarrow> bool" where
  "client_is c acc n e \<longleftrightarrow> cl_KCP c = Some (e_kcp e) \<and> (\<forall>d \<in> set (cl_sent c). on_wire d e) \<and>
     got_of (cl_calls c) = e_got e \<and> acc = e_acc e \<and> n = length (e_num e)"

definition session_is :: "u32 \<Rightarrow> ikcpcb session \<Rightarrow> byte list \<Rightarrow> nat \<Rightarrow> endpoint \<Rightarrow> bool" where
  "session_is i ss acc n e \<longleftrightarrow>
     (case ss_data ss of None \<Rightarrow> ep_start (\<lambda>n. True) i = Some e | Some sd \<Rightarrow> mKCPServer sd = e_kcp e) \<and>
     (\<forall>x \<in> set (ss_sent ss). on_wire (snd x) e) \<and>
     got_of (ss_calls ss) = e_got e \<and> acc = e_acc e \<and> n = length (e_num e)"

lemma on_wire_mono: "on_wire d e \<Longrightarrow> e_out e \<subseteq> e_out e' \<Longrightarrow> on_wire d e'"
  by (auto simp: on_wire_def)

lemma send_sys:
  assumes "sys a b" and "length x < 2 ^ 31" and "ikcp_send (\<lambda>n. True) (e_kcp a) x (int (length x)) = Inr (kcp', rc)"
  shows "sys (a\<lparr>e_kcp := kcp', e_acc := e_acc a @ (if rc = 0 then x else [])\<rparr>) b"
  using sys.left [OF assms(1) ep_step.send [OF _ assms(2,3)]] by (cases "rc = 0") auto

lemma update_sys:
  assumes "sys a b" and "ikcp_update (e_kcp a) t = Inr (kcp', out)"
  shows "\<exists>L. sys (a\<lparr>e_kcp := kcp', e_out := e_out a \<union> set out, e_num := L\<rparr>) b \<and>
    length L = length (e_num a) + (length (k_snd_queue (e_kcp a)) - length (k_snd_queue kcp'))"
  using sys.left [OF assms(1) ep_step.update [OF assms(2) refl]] by (intro exI conjI) auto

definition queued :: "ikcpcb option \<Rightarrow> nat" where
  "queued k = (case k of None \<Rightarrow> 0 | Some kcp \<Rightarrow> length (k_snd_queue kcp))"

subsection \<open>The client's functions\<close>

lemma client_send:
  assumes "client_is c acc n a" and "sys a b" and "length x < 2 ^ 31" and "sendDataClient net_kcp c x = Inr (c', rc)"
  shows "\<exists>a'. sys a' b \<and> client_is c' (acc @ (if rc = 0 then x else [])) n a'"
proof -
  have kcp: "cl_KCP c = Some (e_kcp a)" using assms(1) by (simp add: client_is_def)
  obtain k where k: "ikcp_send (\<lambda>n. True) (e_kcp a) x (int (length x)) = Inr (k, rc)" "c' = c\<lparr>cl_KCP := Some k\<rparr>"
    using assms(4) kcp by (auto simp: sendDataClient_def split: sum.splits)
  have "client_is c' (acc @ (if rc = 0 then x else [])) n (a\<lparr>e_kcp := k, e_acc := e_acc a @ (if rc = 0 then x else [])\<rparr>)"
    using assms(1) by (auto simp: client_is_def k(2) on_wire_def)
  with send_sys [OF assms(2,3) k(1)] show ?thesis by blast
qed

lemma heart_beat_frame [simp]:
  "cl_KCP (client_heart_beat disc c t) = cl_KCP c" "cl_sent (client_heart_beat disc c t) = cl_sent c"
  "got_of (cl_calls (client_heart_beat disc c t)) = got_of (cl_calls c)"
  by (simp_all add: client_heart_beat_def Let_def)

lemma nudge_client_returns:
  assumes "cl_KCP c = Some k" and "ikcp_update k (ucast (us div 1000)) = Inr (k', out)"
  shows "\<exists>c' ms. kcpNudgeWorkerClient net_kcp disc c us = Inr (c', ms) \<and> cl_KCP c' = Some k' \<and> cl_sent c' = cl_sent c @ out"
  using assms by (simp add: kcpNudgeWorkerClient_def Let_def)

lemma client_nudge:
  assumes "client_is c acc n a" and "sys a b" and "kcpNudgeWorkerClient net_kcp disc c us = Inr (c', ms)"
  shows "\<exists>a'. sys a' b \<and> client_is c' acc (n + (queued (cl_KCP c) - queued (cl_KCP c'))) a'"
proof -
  define t :: u32 where "t = ucast (us div 1000)"
  have kcp: "cl_KCP c = Some (e_kcp a)" using assms(1) by (simp add: client_is_def)
  obtain k out where k: "ikcp_update (e_kcp a) t = Inr (k, out)"
    and c': "cl_KCP c' = Some k" "cl_sent c' = cl_sent c @ out" "got_of (cl_calls c') = got_of (cl_calls c)"
    using assms(3) kcp
    by (auto simp: kcpNudgeWorkerClient_def Let_def t_def split: sum.splits)
  obtain L where L: "sys (a\<lparr>e_kcp := k, e_out := e_out a \<union> set out, e_num := L\<rparr>) b"
    "length L = length (e_num a) + (length (k_snd_queue (e_kcp a)) - length (k_snd_queue k))"
    using update_sys [OF assms(2) k] by blast
  have "client_is c' acc (n + (queued (cl_KCP c) - queued (cl_KCP c'))) (a\<lparr>e_kcp := k, e_out := e_out a \<union> set out, e_num := L\<rparr>)"
    using assms(1) L(2) by (auto simp: client_is_def c' kcp queued_def on_wire_def)
  with L(1) show ?thesis by blast
qed

lemma wire_kind:
  assumes "on_wire d e" and "ep_ok L e"
  shows "8 \<le> length d" and "\<not> is_time d \<Longrightarrow> d \<in> e_out e" and "is_time d \<Longrightarrow> time_datagram d"
  using assms good_datagram_kind [of "e_num e" d] by (auto simp: on_wire_def ep_ok_def time_datagram_def)

lemma client_arrive:
  assumes "client_is c acc n a" and "sys a b" and "length (e_num a) < 2 ^ 31" and "length (e_num b) < 2 ^ 31"
    and "on_wire d b" and "length d \<le> KCP_MAX_BYTES" and "\<forall>k. cl_KCP c = Some k \<longrightarrow> acks_ok k d"
    and "length (e_acc b) < length (got_of (cl_calls c)) + 2 ^ 31"
    and "netWorkerClient net_kcp True c d now = Inr c'"
  shows "\<exists>a'. sys a' b \<and> client_is c' acc n a'"
proof -
  have kcp: "cl_KCP c = Some (e_kcp a)" and got: "got_of (cl_calls c) = e_got a"
    using assms(1) by (simp_all add: client_is_def)
  have "ep_ok (e_num a) b" using sys_ok [OF assms(2-4)] by simp
  note kind = wire_kind [OF assms(5) this]
  have d: "take KCP_MAX_BYTES d = d" "d \<noteq> []" using assms(6) kind(1) by auto
  have time: "is_time (received d (cl_receiveBuffer c)) = is_time d" by (rule is_time_front [OF kind(1)])
  consider "\<not> cl_NetworkThreadRunning c" | "cl_NetworkThreadRunning c" "is_time d" | "cl_NetworkThreadRunning c" "\<not> is_time d"
    by blast
  then show ?thesis
  proof cases
    case 1
    then have "client_is c' acc n a" using assms(1,9) by (auto simp: netWorkerClient_def client_is_def)
    with assms(2) show ?thesis by blast
  next
    case 2
    obtain tm buf where ans: "answer_time (cl_time c) (received d (cl_receiveBuffer c)) now = (tm, buf)" by fastforce
    from time_datagram_answer [OF kind(3) [OF 2(2)] ans] have "client_is c' acc n a"
      using assms(1,9) 2 d time ans by (auto simp: netWorkerClient_def client_is_def on_wire_def Let_def)
    with assms(2) show ?thesis by blast
  next
    case 3
    obtain k r out where f: "feed net_kcp (e_kcp a) d = Inr (k, r, out)"
      and c': "cl_KCP c' = Some k" "cl_sent c' = cl_sent c" "cl_calls c' = (if r > 0 then cl_calls c @ [Got_data [] out] else cl_calls c)"
      using assms(9) 3 d time kcp by (auto simp: netWorkerClient_def Let_def split: sum.splits)
    have "acks_ok (e_kcp a) d" using assms(7) kcp by simp
    note s = feed_sys [OF assms(2-4) f kind(2) [OF 3(2)] this assms(8) [unfolded got]]
    have "client_is c' acc n (a\<lparr>e_kcp := k, e_got := e_got a @ out\<rparr>)"
      using assms(1) s(2) c' by (auto simp: client_is_def on_wire_def)
    with s(1) show ?thesis by blast
  qed
qed

subsection \<open>The session's functions\<close>

lemma session_send:
  assumes "session_is i ss acc n b" and "sys a b" and "length x < 2 ^ 31" and "ss_data ss = Some sd"
    and "api_send net_kcp (mKCPServer sd) x = Inr (k, rc)"
  shows "\<exists>b'. sys a b' \<and>
    session_is i (ss\<lparr>ss_data := Some (sd\<lparr>mKCPServer := k\<rparr>)\<rparr>) (acc @ (if rc = 0 then x else [])) n b'"
proof -
  have "ikcp_send (\<lambda>n. True) (e_kcp b) x (int (length x)) = Inr (k, rc)"
    using assms(1,4,5) by (simp add: session_is_def)
  note s = send_sys [OF sys_sym [OF assms(2)] assms(3) this]
  have "session_is i (ss\<lparr>ss_data := Some (sd\<lparr>mKCPServer := k\<rparr>)\<rparr>) (acc @ (if rc = 0 then x else [])) n
      (b\<lparr>e_kcp := k, e_acc := e_acc b @ (if rc = 0 then x else [])\<rparr>)"
    using assms(1) by (auto simp: session_is_def on_wire_def)
  with sys_sym [OF s] show ?thesis by blast
qed

definition session_kcp :: "'k session \<Rightarrow> 'k option" where
  "session_kcp ss = map_option mKCPServer (ss_data ss)"

lemma session_nudge:
  assumes "session_is i ss acc n b" and "sys a b" and "session_step net_kcp cb ctx (Nudge t us) ss = Inr ss'"
    and "\<forall>k. Disconnected k \<notin> set (ss_calls ss')"
  shows "\<exists>b'. sys a b' \<and> session_is i ss' acc (n + (queued (session_kcp ss) - queued (session_kcp ss'))) b'"
proof (cases "ss_data ss")
  case None
  then have "session_is i ss' acc n b" "ss_data ss' = None" using assms(1,3) by (auto simp: session_is_def Let_def)
  with None assms(2) show ?thesis by (intro exI [of _ b]) (simp add: session_kcp_def)
next
  case (Some sd)
  let ?key = "key_of (mDestination sd)"
  obtain r s out calls where
    ng: "nudge_session net_kcp (rDisconnect cb) False (ss_heart ss < t) (ss_low ss < t) (ss_hi ss < t) t us ?key sd =
      Inr (r, s, out, calls)"
    and ss': "ss_data ss' = r" "ss_sent ss' = ss_sent ss @ out" "ss_calls ss' = ss_calls ss @ calls"
    using assms(3) Some by (auto simp: Let_def split: sum.splits)
  have kcp: "mKCPServer sd = e_kcp b" using assms(1) Some by (simp add: session_is_def)
  have calls: "Disconnected ?key \<notin> set calls" using assms(4) ss'(3) by simp
  obtain k o' sd' where k: "ikcp_update (e_kcp b) (ucast t) = Inr (k, o')" "r = Some sd'" "mKCPServer sd' = k" "calls = []"
    "\<forall>x \<in> set out. snd x \<in> set o' \<or> time_datagram (snd x)"
    using ng calls kcp by (auto simp: nudge_session_def Let_def time_datagram_sent split: if_splits sum.splits)
  obtain L where L: "sys (b\<lparr>e_kcp := k, e_out := e_out b \<union> set o', e_num := L\<rparr>) a"
    "length L = length (e_num b) + (length (k_snd_queue (e_kcp b)) - length (k_snd_queue k))"
    using update_sys [OF sys_sym [OF assms(2)] k(1)] by blast
  have "session_is i ss' acc (n + (queued (session_kcp ss) - queued (session_kcp ss')))
      (b\<lparr>e_kcp := k, e_out := e_out b \<union> set o', e_num := L\<rparr>)"
    using assms(1) L(2) k Some kcp by (auto simp: session_is_def ss' queued_def session_kcp_def on_wire_def)
  with sys_sym [OF L(1)] show ?thesis by blast
qed

text \<open>What \<open>rValidate\<close> lets in has the client's conversation number and usable settings.\<close>

definition validated :: "callbacks \<Rightarrow> peer \<Rightarrow> KCPContext \<Rightarrow> KCPContext option" where
  "validated cb p lx = (case rValidate cb of None \<Rightarrow> Some lx | Some validate \<Rightarrow> validate (fst p) (snd p) lx)"

definition agreed :: "callbacks \<Rightarrow> KCPContext option \<Rightarrow> peer \<Rightarrow> u32 \<Rightarrow> bool" where
  "agreed cb ctx p i \<longleftrightarrow>
     (case validated cb p (new_context (server_start ctx [] :: ikcpcb net_server) (key_of p)) of
        None \<Rightarrow> True | Some lx \<Rightarrow> ucast (mID lx) = i \<and> settings_ok (mSettings lx))"

lemma session_feed_sys:
  assumes "sys a b" and "length (e_num a) < 2 ^ 31" and "length (e_num b) < 2 ^ 31"
    and "session_is i (ss\<lparr>ss_data := Some sd\<rparr>) acc n b" and "d \<in> e_out a" and "acks_ok (mKCPServer sd) d"
    and "length (e_acc a) < length (e_got b) + 2 ^ 31" and "rGotData cb"
    and "session_feed net_kcp cb key sd d = Inr (data, calls)"
  shows "\<exists>b'. sys a b' \<and> session_is i (ss\<lparr>ss_data := data, ss_calls := ss_calls ss @ calls\<rparr>) acc n b'"
proof -
  have kcp: "mKCPServer sd = e_kcp b" using assms(4) by (simp add: session_is_def)
  obtain k r out where f: "feed net_kcp (e_kcp b) d = Inr (k, r, out)"
    and res: "data = Some (sd\<lparr>mKCPServer := k\<rparr>)" "calls = (if r > 0 then [Got_data key out] else [])"
    using assms(8,9) kcp by (auto simp: session_feed_def split: sum.splits)
  note s = feed_sys [OF sys_sym [OF assms(1)] assms(3,2) f assms(5) assms(6) [unfolded kcp] assms(7)]
  have "session_is i (ss\<lparr>ss_data := data, ss_calls := ss_calls ss @ calls\<rparr>) acc n
      (b\<lparr>e_kcp := k, e_got := e_got b @ out\<rparr>)"
    using assms(4) s(2) res by (auto simp: session_is_def on_wire_def)
  with sys_sym [OF s(1)] show ?thesis by blast
qed

lemma session_new_sys:
  assumes "session_is i ss acc n b" and "sys a b" and "length (e_num a) < 2 ^ 31" and "length (e_num b) < 2 ^ 31"
    and "\<not> is_time d \<Longrightarrow> d \<in> e_out a" and "length d \<le> KCP_MAX_BYTES" and "ss_data ss = None"
    and "length (e_acc a) < length (e_got b) + 2 ^ 31" and "rGotData cb" and "agreed cb ctx p i"
    and "session_new net_kcp cb (new_context (server_start ctx [] :: ikcpcb net_server) (key_of p)) p d = Inr (data, calls)"
  shows "\<exists>b'. sys a b' \<and> session_is i (ss\<lparr>ss_data := data, ss_calls := ss_calls ss @ calls\<rparr>) acc n b'"
proof (cases "validated cb p (new_context (server_start ctx [] :: ikcpcb net_server) (key_of p))")
  case None
  then have "data = None" "calls = []" using assms(11) by (simp_all add: session_new_def validated_def)
  with assms(1,2,7) show ?thesis by (auto simp: session_is_def intro!: exI [of _ b])
next
  case (Some lx)
  obtain kcp where kcp: "ikcp_create (\<lambda>n. True) i = Some kcp" "e_kcp b = ikcp_setoutput kcp True"
    using assms(1,7) by (auto simp: session_is_def ep_start_def)
  define k where "k = fst (apply_settings net_kcp (mSettings lx) (e_kcp b))"
  define b' where "b' = b\<lparr>e_kcp := k\<rparr>"
  define sd where "sd = \<lparr>mKCPServer = k, mKCPContext = lx, mDestination = p,
    mConnectionTimeOut = HEART_BEAT_TIME_OUT, sd_time = time_start\<rparr>"
  have lx: "ucast (mID lx) = i" "settings_ok (mSettings lx)" using assms(10) Some by (simp_all add: agreed_def)
  have new: "(if is_time d then Inr (Some sd, []) else session_feed net_kcp cb (key_of p) sd d) = Inr (data, calls)"
    using assms(11) Some lx(1) kcp unfolding sd_def k_def
    by (cases "is_time d") (simp_all add: session_new_def validated_def Let_def)
  have fresh: "k_snd_queue (e_kcp b) = []" "k_snd_buf (e_kcp b) = []" "k_ackcount (e_kcp b) = 0"
    using kcp by (auto simp: ikcp_create_def ikcp_setoutput_def split: if_splits)
  from sys_steps [OF apply_settings_steps [OF lx(2) fresh(1,2)] sys_sym [OF assms(2)]]
  have s: "sys a b'" by (auto simp: b'_def k_def intro: sys_sym)
  have ssn: "session_is i (ss\<lparr>ss_data := Some sd\<rparr>) acc n b'"
    using assms(1) by (auto simp: session_is_def b'_def sd_def on_wire_def)
  have ack: "acks_ok (mKCPServer sd) d"
    using assms(6) fresh(3) by (simp add: acks_ok_def sd_def k_def apply_settings_acks KCP_MAX_BYTES_def)
  show ?thesis
  proof (cases "is_time d")
    case True
    with new ssn s show ?thesis by auto
  next
    case False
    with new session_feed_sys [OF s assms(3) _ ssn assms(5) [OF False] ack _ assms(9)] assms(4,8) show ?thesis
      by (auto simp: b'_def)
  qed
qed

lemma session_arrive_sys:
  assumes "session_is i ss acc n b" and "sys a b" and "length (e_num a) < 2 ^ 31" and "length (e_num b) < 2 ^ 31"
    and "on_wire d a" and "length d \<le> KCP_MAX_BYTES" and "\<forall>k. session_kcp ss = Some k \<longrightarrow> acks_ok k d"
    and "length (e_acc a) < length (e_got b) + 2 ^ 31" and "rGotData cb" and "agreed cb ctx p i"
    and "session_step net_kcp cb ctx (Arrive d p now) ss = Inr ss'"
  shows "\<exists>b'. sys a b' \<and> session_is i ss' acc n b'"
proof -
  let ?lx = "new_context (server_start ctx [] :: ikcpcb net_server) (key_of p)"
  have "ep_ok (e_num b) a" using sys_ok [OF assms(2-4)] by simp
  note kind = wire_kind [OF assms(5) this]
  obtain data calls where ar: "session_arrive net_kcp cb ?lx (ss_data ss) p d now = Inr (data, calls)"
    and ss': "ss' = ss\<lparr>ss_data := data, ss_calls := ss_calls ss @ calls\<rparr>"
    using assms(6,11) by (auto split: sum.splits)
  show ?thesis
  proof (cases "ss_data ss")
    case None
    then show ?thesis
      using session_new_sys [OF assms(1-4) kind(2) assms(6) None assms(8,9,10)] ar by (simp add: ss' session_arrive_def)
  next
    case (Some sd)
    show ?thesis
    proof (cases "is_time d")
      case True
      then show ?thesis using assms(1,2) ar Some by (intro exI [of _ b]) (auto simp: ss' session_arrive_def session_is_def)
    next
      case False
      let ?sd = "sd\<lparr>mConnectionTimeOut := HEART_BEAT_TIME_OUT\<rparr>"
      have "session_feed net_kcp cb (key_of p) ?sd d = Inr (data, calls)"
        using ar Some False by (simp add: session_arrive_def)
      moreover have "session_is i (ss\<lparr>ss_data := Some ?sd\<rparr>) acc n b" "acks_ok (mKCPServer ?sd) d"
        using assms(1,7) Some by (simp_all add: session_is_def session_kcp_def)
      ultimately show ?thesis
        unfolding ss' using session_feed_sys [OF assms(2-4) _ kind(2) [OF False] _ assms(8,9)] by blast
    qed
  qed
qed

section \<open>A client and a server over the network\<close>

text \<open>
  The client at the address \<open>p\<close> and the server, with the data either application has handed over
  successfully and the number of segments either side has numbered, as ghost state.
\<close>

record link =
  lk_client :: "ikcpcb client"
  lk_server :: "ikcpcb net_server"
  lk_cacc :: "byte list"
  lk_sacc :: "byte list"
  lk_cnum :: nat
  lk_snum :: nat

abbreviation server_kcp :: "peer \<Rightarrow> ikcpcb net_server \<Rightarrow> ikcpcb option" where
  "server_kcp p s \<equiv> session_kcp (view (key_of p) s)"

abbreviation server_got :: "peer \<Rightarrow> ikcpcb net_server \<Rightarrow> byte list" where
  "server_got p s \<equiv> got_of (calls_for (key_of p) (net_calls s))"

text \<open>
  The steps: either application sends, either nudge thread makes a round, a datagram that the other side
  has ever sent arrives (so datagrams may be lost, duplicated and reordered), or something happens on the
  server that does not concern this client.
\<close>

inductive link_run :: "callbacks \<Rightarrow> KCPContext option \<Rightarrow> peer \<Rightarrow> u32 \<Rightarrow> link \<Rightarrow> bool" for cb ctx p i where
  start: "configureClient net_kcp c st ip port i = (c', 0) \<Longrightarrow> settings_ok st \<Longrightarrow> cl_sent c = [] \<Longrightarrow> cl_calls c = [] \<Longrightarrow>
    link_run cb ctx p i \<lparr>lk_client = c', lk_server = server_start ctx buf, lk_cacc = [], lk_sacc = [], lk_cnum = 0, lk_snum = 0\<rparr>"
| c_send: "link_run cb ctx p i l \<Longrightarrow> length b < 2 ^ 31 \<Longrightarrow> sendDataClient net_kcp (lk_client l) b = Inr (c, rc) \<Longrightarrow>
    link_run cb ctx p i (l\<lparr>lk_client := c, lk_cacc := lk_cacc l @ (if rc = 0 then b else [])\<rparr>)"
| c_nudge: "link_run cb ctx p i l \<Longrightarrow> kcpNudgeWorkerClient net_kcp disc (lk_client l) us = Inr (c, ms) \<Longrightarrow>
    link_run cb ctx p i (l\<lparr>lk_client := c, lk_cnum := lk_cnum l + (queued (cl_KCP (lk_client l)) - queued (cl_KCP c))\<rparr>)"
| c_arrive: "link_run cb ctx p i l \<Longrightarrow> (q, d) \<in> set (net_sent (lk_server l)) \<Longrightarrow> key_of q = key_of p \<Longrightarrow>
    length d \<le> KCP_MAX_BYTES \<Longrightarrow> \<forall>k. cl_KCP (lk_client l) = Some k \<longrightarrow> acks_ok k d \<Longrightarrow>
    length (lk_sacc l) < length (got_of (cl_calls (lk_client l))) + 2 ^ 31 \<Longrightarrow>
    netWorkerClient net_kcp True (lk_client l) d now = Inr c \<Longrightarrow> link_run cb ctx p i (l\<lparr>lk_client := c\<rparr>)"
| s_arrive: "link_run cb ctx p i l \<Longrightarrow> d \<in> set (cl_sent (lk_client l)) \<Longrightarrow>
    length d \<le> KCP_MAX_BYTES \<Longrightarrow> \<forall>k. server_kcp p (lk_server l) = Some k \<longrightarrow> acks_ok k d \<Longrightarrow>
    length (lk_cacc l) < length (server_got p (lk_server l)) + 2 ^ 31 \<Longrightarrow>
    netWorkerServer net_kcp cb (lk_server l) d p now = Inr s \<Longrightarrow> link_run cb ctx p i (l\<lparr>lk_server := s\<rparr>)"
| s_nudge: "link_run cb ctx p i l \<Longrightarrow> kcpNudgeWorkerServer net_kcp cb (lk_server l) t us = Inr (s, ms) \<Longrightarrow>
    link_run cb ctx p i (l\<lparr>lk_server := s, lk_snum := lk_snum l + (queued (server_kcp p (lk_server l)) - queued (server_kcp p s))\<rparr>)"
| s_send: "link_run cb ctx p i l \<Longrightarrow> length b < 2 ^ 31 \<Longrightarrow>
    sendDataServer net_kcp (lk_server l) b (make_context (key_of p)) = Inr (s, rc) \<Longrightarrow>
    link_run cb ctx p i (l\<lparr>lk_server := s, lk_sacc := lk_sacc l @ (if rc = 0 then b else [])\<rparr>)"
| s_other: "link_run cb ctx p i l \<Longrightarrow> \<not> concerns (key_of p) e \<Longrightarrow> sized e \<Longrightarrow>
    server_step net_kcp cb e (lk_server l) = Inr s \<Longrightarrow> link_run cb ctx p i (l\<lparr>lk_server := s\<rparr>)"

definition live :: "peer \<Rightarrow> link \<Rightarrow> bool" where
  "live p l \<longleftrightarrow> Disconnected (key_of p) \<notin> set (net_calls (lk_server l)) \<and> lk_cnum l < 2 ^ 31 \<and> lk_snum l < 2 ^ 31"

definition linked :: "KCPContext option \<Rightarrow> peer \<Rightarrow> u32 \<Rightarrow> link \<Rightarrow> bool" where
  "linked ctx p i l \<longleftrightarrow> running ctx (lk_server l) \<and>
     (\<exists>a b. sys a b \<and> client_is (lk_client l) (lk_cacc l) (lk_cnum l) a \<and>
            session_is i (view (key_of p) (lk_server l)) (lk_sacc l) (lk_snum l) b)"

lemma server_step_calls:
  "server_step K cb e s = Inr s' \<Longrightarrow> \<exists>cs. net_calls s' = net_calls s @ cs"
proof (cases e)
  case (Arrive d p now)
  have feed: "\<exists>cs. net_calls s' = net_calls s @ cs" if "net_feed K cb s k d = Inr s'" for s k d
    using that by (auto simp: net_feed_def split: option.splits sum.splits if_splits)
  have conf: "net_calls (fst (configureInternal K s lx)) = net_calls s" for s lx
    by (auto simp: configureInternal_def Let_def split: option.split prod.split)
  have new: "\<exists>cs. net_calls s' = net_calls s @ cs" if "net_new K cb s k p d = Inr s'" for s k d
    using that conf
    by (auto simp: net_new_def net_create_def Let_def case_prod_beta split: option.splits sum.splits if_splits dest!: feed)
  assume "server_step K cb e s = Inr s'"
  then show ?thesis
    using Arrive
    by (auto simp: netWorkerServer_def net_known_def Let_def split: option.splits if_splits dest: feed new dest!: feed new)
next
  case (Nudge t us)
  then show "server_step K cb e s = Inr s' \<Longrightarrow> ?thesis"
    by (auto simp: kcpNudgeWorkerServer_eq Let_def split: sum.splits prod.splits)
next
  case (Send k b)
  then show "server_step K cb e s = Inr s' \<Longrightarrow> ?thesis"
    by (auto simp: sendDataServer_def split: sum.splits option.splits)
qed

lemma linked_server:
  assumes "linked ctx p i l" and "sized e" and "keeps_key cb" and "server_step net_kcp cb e (lk_server l) = Inr (lk_server l')"
    and "\<And>a b. sys a b \<Longrightarrow> client_is (lk_client l) (lk_cacc l) (lk_cnum l) a \<Longrightarrow>
      session_is i (view (key_of p) (lk_server l)) (lk_sacc l) (lk_snum l) b \<Longrightarrow>
      \<exists>b'. sys a b' \<and> session_is i (view (key_of p) (lk_server l')) (lk_sacc l') (lk_snum l') b'"
    and "lk_client l' = lk_client l" "lk_cacc l' = lk_cacc l" "lk_cnum l' = lk_cnum l"
  shows "linked ctx p i l'"
proof -
  from assms(1) obtain a b where r: "running ctx (lk_server l)" and ab: "sys a b"
    "client_is (lk_client l) (lk_cacc l) (lk_cnum l) a" "session_is i (view (key_of p) (lk_server l)) (lk_sacc l) (lk_snum l) b"
    by (auto simp: linked_def)
  have "running ctx (lk_server l')" using server_step_session [OF r assms(2,3,4)] by simp
  with assms(5) [OF ab] ab(2) assms(6-8) show ?thesis by (auto simp: linked_def)
qed

lemma live_server:
  assumes "live p l'" and "server_step K cb e (lk_server l) = Inr (lk_server l')" and "lk_snum l \<le> lk_snum l'"
    and "lk_cnum l' = lk_cnum l"
  shows "live p l"
  using assms server_step_calls [OF assms(2)] by (auto simp: live_def)

lemma linked_client:
  assumes "linked ctx p i l"
    and "\<And>a b. sys a b \<Longrightarrow> client_is (lk_client l) (lk_cacc l) (lk_cnum l) a \<Longrightarrow>
      session_is i (view (key_of p) (lk_server l)) (lk_sacc l) (lk_snum l) b \<Longrightarrow>
      \<exists>a'. sys a' b \<and> client_is (lk_client l') (lk_cacc l') (lk_cnum l') a'"
    and "lk_server l' = lk_server l" "lk_sacc l' = lk_sacc l" "lk_snum l' = lk_snum l"
  shows "linked ctx p i l'"
proof -
  from assms(1) obtain a b where r: "running ctx (lk_server l)" and ab: "sys a b"
    "client_is (lk_client l) (lk_cacc l) (lk_cnum l) a" "session_is i (view (key_of p) (lk_server l)) (lk_sacc l) (lk_snum l) b"
    by (auto simp: linked_def)
  from r assms(2) [OF ab] ab(3) assms(3-5) show ?thesis by (auto simp: linked_def)
qed

lemma linked_start:
  assumes "configureClient net_kcp c st ip port i = (c', 0)" and "settings_ok st" and "cl_sent c = []" and "cl_calls c = []"
  shows "linked ctx p i \<lparr>lk_client = c', lk_server = server_start ctx buf, lk_cacc = [], lk_sacc = [], lk_cnum = 0, lk_snum = 0\<rparr>"
proof -
  obtain kcp where kcp: "ikcp_create (\<lambda>n. True) i = Some kcp"
    and c': "cl_KCP c' = Some (fst (apply_settings net_kcp st (ikcp_setoutput kcp True)))" "cl_sent c' = []" "cl_calls c' = []"
    using assms(1,3,4) by (auto simp: configureClient_def Let_def case_prod_beta split: if_splits option.splits)
  define a where "a = \<lparr>e_kcp = ikcp_setoutput kcp True, e_out = {}, e_num = [], e_acc = [], e_got = []\<rparr>"
  have start: "ep_start (\<lambda>n. True) i = Some a" by (simp add: ep_start_def kcp a_def)
  have "k_snd_queue (e_kcp a) = []" "k_snd_buf (e_kcp a) = []"
    using kcp by (auto simp: a_def ikcp_create_def ikcp_setoutput_def split: if_splits)
  note s = sys_steps [OF apply_settings_steps [OF assms(2) this] sys.start [OF start start]]
  have "client_is c' [] 0 (a\<lparr>e_kcp := fst (apply_settings net_kcp st (e_kcp a))\<rparr>)"
    by (simp add: client_is_def c' a_def)
  moreover have "session_is i (view (key_of p) (server_start ctx buf)) [] 0 a" "running ctx (server_start ctx buf :: ikcpcb net_server)"
    using start by (simp_all add: session_is_def view_def server_start_def running_def) (simp_all add: a_def)
  ultimately show ?thesis using s by (auto simp: linked_def)
qed

lemma linked_c_arrive:
  assumes "linked ctx p i l" and "live p l" and "(q, d) \<in> set (net_sent (lk_server l))" and "key_of q = key_of p"
    and "length d \<le> KCP_MAX_BYTES" and "\<forall>k. cl_KCP (lk_client l) = Some k \<longrightarrow> acks_ok k d"
    and "length (lk_sacc l) < length (got_of (cl_calls (lk_client l))) + 2 ^ 31"
    and "netWorkerClient net_kcp True (lk_client l) d now = Inr c"
  shows "linked ctx p i (l\<lparr>lk_client := c\<rparr>)"
proof -
  have d: "(q, d) \<in> set (ss_sent (view (key_of p) (lk_server l)))"
    using assms(3,4) by (simp add: view_def sent_to_def)
  have "\<exists>a'. sys a' b \<and> client_is c (lk_cacc l) (lk_cnum l) a'"
    if "sys a b" "client_is (lk_client l) (lk_cacc l) (lk_cnum l) a"
      "session_is i (view (key_of p) (lk_server l)) (lk_sacc l) (lk_snum l) b" for a b
  proof (rule client_arrive [OF that(2,1) _ _ _ assms(5,6) _ assms(8)])
    show "length (e_num a) < 2 ^ 31" "length (e_num b) < 2 ^ 31" "on_wire d b"
      "length (e_acc b) < length (got_of (cl_calls (lk_client l))) + 2 ^ 31"
      using that assms(2,7) d by (auto simp: session_is_def client_is_def live_def)
  qed
  note step = this
  from assms(1) show ?thesis by (rule linked_client) (use step in simp_all)
qed

lemma linked_s_arrive:
  assumes "linked ctx p i l" and "live p l" and "keeps_key cb" and "rGotData cb" and "agreed cb ctx p i"
    and "d \<in> set (cl_sent (lk_client l))" and "length d \<le> KCP_MAX_BYTES"
    and "\<forall>k. server_kcp p (lk_server l) = Some k \<longrightarrow> acks_ok k d"
    and "length (lk_cacc l) < length (server_got p (lk_server l)) + 2 ^ 31"
    and "netWorkerServer net_kcp cb (lk_server l) d p now = Inr s"
  shows "linked ctx p i (l\<lparr>lk_server := s\<rparr>)"
proof -
  let ?v = "view (key_of p)"
  have step: "server_step net_kcp cb (Arrive d p now) (lk_server l) = Inr s" using assms(10) by simp
  obtain a b where ab: "sys a b" "client_is (lk_client l) (lk_cacc l) (lk_cnum l) a"
    "session_is i (?v (lk_server l)) (lk_sacc l) (lk_snum l) b" using assms(1) by (auto simp: linked_def)
  have "on_wire d a" "ep_ok (e_num b) a"
    using ab assms(2,6) sys_ok [OF ab(1)] by (auto simp: client_is_def session_is_def live_def)
  from wire_kind [OF this] have sz: "sized (Arrive d p now)" by (auto simp: time_datagram_def)
  have "running ctx (lk_server l)" using assms(1) by (simp add: linked_def)
  from server_step_session [OF this sz assms(3) step, of "key_of p"]
  have st: "session_step net_kcp cb ctx (Arrive d p now) (?v (lk_server l)) = Inr (?v s)"
    by (simp del: session_step.simps)
  have "\<exists>b'. sys a b' \<and> session_is i (?v s) (lk_sacc l) (lk_snum l) b'"
    if "sys a b" "client_is (lk_client l) (lk_cacc l) (lk_cnum l) a"
      "session_is i (?v (lk_server l)) (lk_sacc l) (lk_snum l) b" for a b
  proof (rule session_arrive_sys [OF that(3,1) _ _ _ assms(7,8) _ assms(4,5) st])
    show "length (e_num a) < 2 ^ 31" "length (e_num b) < 2 ^ 31" "on_wire d a"
      "length (e_acc a) < length (e_got b) + 2 ^ 31"
      using that assms(2,6,9) by (auto simp: session_is_def client_is_def view_def live_def)
  qed
  note ar = this
  from assms(1) sz assms(3) show ?thesis by (rule linked_server) (use step ar in auto)
qed

lemma linked_s_nudge:
  assumes "linked ctx p i l" and "keeps_key cb" and "Disconnected (key_of p) \<notin> set (net_calls s)"
    and "kcpNudgeWorkerServer net_kcp cb (lk_server l) t us = Inr (s, ms)"
  shows "linked ctx p i (l\<lparr>lk_server := s,
    lk_snum := lk_snum l + (queued (server_kcp p (lk_server l)) - queued (server_kcp p s))\<rparr>)"
proof -
  have step: "server_step net_kcp cb (Nudge t us) (lk_server l) = Inr s" using assms(4) by simp
  have "running ctx (lk_server l)" using assms(1) by (simp add: linked_def)
  from nudge_session_step [OF this step, of "key_of p"]
  have st: "session_step net_kcp cb ctx (Nudge t us) (view (key_of p) (lk_server l)) = Inr (view (key_of p) s)" by simp
  have "\<forall>k. Disconnected k \<notin> set (ss_calls (view (key_of p) s))"
    using assms(3) by (auto simp: view_def calls_for_def)
  note n = session_nudge [OF _ _ st this]
  show ?thesis
    using assms(1) _ assms(2) by (rule linked_server [where e = "Nudge t us"]) (use step n in auto)
qed

lemma linked_s_send:
  assumes "linked ctx p i l" and "keeps_key cb" and "length b < 2 ^ 31"
    and "sendDataServer net_kcp (lk_server l) b (make_context (key_of p)) = Inr (s, rc)"
  shows "linked ctx p i (l\<lparr>lk_server := s, lk_sacc := lk_sacc l @ (if rc = 0 then b else [])\<rparr>)"
proof -
  let ?v = "view (key_of p)"
  have step: "server_step net_kcp cb (Send (key_of p) b) (lk_server l) = Inr s" using assms(4) by simp
  have "running ctx (lk_server l)" using assms(1) by (simp add: linked_def)
  from send_session_step [OF this step]
  have st: "session_step net_kcp cb ctx (Send (key_of p) b) (?v (lk_server l)) = Inr (?v s)" by simp
  have "\<exists>b'. sys a b' \<and> session_is i (?v s) (lk_sacc l @ (if rc = 0 then b else [])) (lk_snum l) b'"
    if "sys a x" "session_is i (?v (lk_server l)) (lk_sacc l) (lk_snum l) x" for a x
  proof (cases "map_of (mKCPMap (lk_server l)) (key_of p)")
    case None
    then have "rc = -1" "s = lk_server l" using assms(4) by (simp_all add: sendDataServer_def make_context_def)
    with that show ?thesis by auto
  next
    case (Some sd)
    then obtain k where k: "api_send net_kcp (mKCPServer sd) b = Inr (k, rc)"
      using assms(4) by (auto simp: sendDataServer_def make_context_def split: sum.splits)
    have data: "ss_data (?v (lk_server l)) = Some sd" using Some by (simp add: view_def)
    then have "?v s = (?v (lk_server l))\<lparr>ss_data := Some (sd\<lparr>mKCPServer := k\<rparr>)\<rparr>"
      using st k by simp
    with session_send [OF that(2,1) assms(3) data k] show ?thesis by simp
  qed
  note send = this
  show ?thesis
    using assms(1) _ assms(2) by (rule linked_server [where e = "Send (key_of p) b"]) (use step send in auto)
qed

lemma link_run_linked:
  assumes "link_run cb ctx p i l" and "live p l" and "keeps_key cb" and "rGotData cb" and "agreed cb ctx p i"
  shows "linked ctx p i l"
  using assms(1,2)
proof (induction rule: link_run.induct)
  case (start c st ip port c' buf)
  then show ?case by (intro linked_start)
next
  case (c_send l b c rc)
  then have "linked ctx p i l" by (simp add: live_def)
  then show ?case by (rule linked_client) (use client_send [OF _ _ c_send.hyps(2,3)] in auto)
next
  case (c_nudge l disc us c ms)
  then have "linked ctx p i l" by (simp add: live_def)
  then show ?case by (rule linked_client) (use client_nudge [OF _ _ c_nudge.hyps(2)] in auto)
next
  case (c_arrive l q d now c)
  then have "live p l" by (simp add: live_def)
  with c_arrive show ?case by (intro linked_c_arrive)
next
  case (s_arrive l d now s)
  then have "live p l" using live_server [OF s_arrive.prems, of net_kcp cb "Arrive d p now" l] by simp
  with s_arrive assms(3-5) show ?case by (intro linked_s_arrive) auto
next
  case (s_nudge l t us s ms)
  then have "live p l" using live_server [OF s_nudge.prems, of net_kcp cb "Nudge t us" l] by simp
  with s_nudge assms(3) show ?case by (intro linked_s_nudge) (auto simp: live_def)
next
  case (s_send l b s rc)
  then have "live p l" using live_server [OF s_send.prems, of net_kcp cb "Send (key_of p) b" l] by simp
  with s_send assms(3) show ?case by (intro linked_s_send) auto
next
  case (s_other l e s)
  then have "live p l" using live_server [OF s_other.prems, of net_kcp cb e l] by simp
  with s_other have l: "linked ctx p i l" by simp
  then have "running ctx (lk_server l)" by (simp add: linked_def)
  from server_step_session [OF this s_other.hyps(3) assms(3) s_other.hyps(4), of "key_of p"] s_other.hyps(2)
  have same: "view (key_of p) s = view (key_of p) (lk_server l)" by simp
  from l s_other.hyps(3) assms(3) show ?case
    by (rule linked_server) (use same s_other.hyps(4) in auto)
qed

section \<open>Properties\<close>

text \<open>
  C3. The guarantee of a session. A client and a server run with the KCP of \<open>ikcp.c\<close> over a network that
  loses, repeats and reorders datagrams, next to any number of other clients. As long as the server has
  not reported the client as disconnected, the data the server's \<open>rGotData\<close> has been called with is a
  prefix of the data the client's \<open>sendData\<close> has accepted, and the other way round. Both sides agree on
  the conversation number, number fewer than \<open>2 ^ 31\<close> segments, and have fewer than \<open>2 ^ 31\<close> bytes on
  their way at any time.
\<close>

theorem link_delivery:
  assumes "link_run cb ctx p i l" and "Disconnected (key_of p) \<notin> set (net_calls (lk_server l))"
    and "lk_cnum l < 2 ^ 31" and "lk_snum l < 2 ^ 31" and "keeps_key cb" and "rGotData cb" and "agreed cb ctx p i"
  shows "(\<exists>rest. lk_cacc l = server_got p (lk_server l) @ rest) \<and>
    (\<exists>rest. lk_sacc l = got_of (cl_calls (lk_client l)) @ rest)"
proof -
  have "live p l" using assms(2-4) by (simp add: live_def)
  from link_run_linked [OF assms(1) this assms(5-7)] obtain a b where ab: "sys a b"
    "client_is (lk_client l) (lk_cacc l) (lk_cnum l) a"
    "session_is i (view (key_of p) (lk_server l)) (lk_sacc l) (lk_snum l) b" by (auto simp: linked_def)
  from sys_prefix [OF ab(1)] ab(2,3) assms(3,4) show ?thesis
    by (simp add: client_is_def session_is_def view_def)
qed

text \<open>A run: the client sends three bytes, its nudge thread makes two rounds, the datagram reaches the server.\<close>

definition link_kcp :: "nat \<Rightarrow> ikcpcb" where
  "link_kcp n =
     (let k0 = fst (apply_settings net_kcp default_settings (ikcp_setoutput (the (ikcp_create (\<lambda>n. True) 10)) True));
          k1 = fst (projr (ikcp_send (\<lambda>n. True) k0 [1, 2, 3] 3));
          k2 = fst (projr (ikcp_update k1 0));
          k3 = fst (projr (ikcp_update k2 100))
      in [k0, k1, k2, k3] ! n)"

definition demo_wire :: "byte list" where
  "demo_wire = [10, 0, 0, 0, 81, 0, 128, 0, 100, 0, 0, 0, 0, 0, 0, 0, 0, 0, 0, 0, 3, 0, 0, 0, 1, 2, 3]"

lemma link_kcp_rc:
  "snd (apply_settings net_kcp default_settings (ikcp_setoutput (the (ikcp_create (\<lambda>n. True) 10)) True)) = 0"
  by code_simp

lemma link_kcp_send: "ikcp_send (\<lambda>n. True) (link_kcp 0) [1, 2, 3] 3 = Inr (link_kcp 1, 0)"
proof -
  have "\<not> isl (ikcp_send (\<lambda>n. True) (link_kcp 0) [1, 2, 3] 3) \<and>
      snd (projr (ikcp_send (\<lambda>n. True) (link_kcp 0) [1, 2, 3] 3)) = 0" by code_simp
  from projr_eq [OF this] show ?thesis by (simp add: link_kcp_def Let_def)
qed

lemma link_kcp_open: "ikcp_update (link_kcp 1) 0 = Inr (link_kcp 2, [])"
proof -
  have "\<not> isl (ikcp_update (link_kcp 1) 0) \<and> snd (projr (ikcp_update (link_kcp 1) 0)) = []" by code_simp
  from projr_eq [OF this] show ?thesis by (simp add: link_kcp_def Let_def numeral_2_eq_2)
qed

lemma link_kcp_flush: "ikcp_update (link_kcp 2) 100 = Inr (link_kcp 3, [demo_wire])"
proof -
  have "\<not> isl (ikcp_update (link_kcp 2) 100) \<and> snd (projr (ikcp_update (link_kcp 2) 100)) = [demo_wire]" by code_simp
  from projr_eq [OF this] show ?thesis by (simp add: link_kcp_def Let_def numeral_2_eq_2 numeral_3_eq_3)
qed

lemma link_kcp_feed: "\<exists>k. feed net_kcp (link_kcp 0) demo_wire = Inr (k, 3, [1, 2, 3])"
proof -
  have "\<not> isl (feed net_kcp (link_kcp 0) demo_wire) \<and> snd (projr (feed net_kcp (link_kcp 0) demo_wire)) = (3, [1, 2, 3])"
    by code_simp
  from projr_eq [OF this] show ?thesis ..
qed

definition demo_caller :: "ikcpcb client" where
  "demo_caller = \<lparr>cl_KCP = None, cl_time = demo_client, cl_ConnectionTimeOut = 10, cl_HeartBeatIntervalTrigger = 0,
     cl_NetworkThreadRunning = False, cl_receiveBuffer = [], cl_sent = [], cl_calls = []\<rparr>"

lemma demo_link:
  "\<exists>l. link_run demo_cb None (fst demo_peers) 10 l \<and> server_got (fst demo_peers) (lk_server l) = [1, 2, 3] \<and>
     Disconnected (key_of (fst demo_peers)) \<notin> set (net_calls (lk_server l)) \<and> lk_cnum l < 2 ^ 31 \<and> lk_snum l < 2 ^ 31"
proof -
  let ?p = "fst demo_peers" and ?run = "link_run demo_cb None (fst demo_peers) 10"
  let ?l = "\<lambda>c acc n. \<lparr>lk_client = c, lk_server = server_start None [], lk_cacc = acc, lk_sacc = [], lk_cnum = n, lk_snum = 0\<rparr>"
  obtain k where k: "ikcp_create (\<lambda>n. True) 10 = Some k" by (auto simp: ikcp_create_def)
  have k0: "link_kcp 0 = fst (apply_settings net_kcp default_settings (ikcp_setoutput k True))"
    "snd (apply_settings net_kcp default_settings (ikcp_setoutput k True)) = 0"
    using link_kcp_rc by (simp_all add: link_kcp_def Let_def k)
  define c0 where "c0 = demo_caller\<lparr>cl_NetworkThreadRunning := True, cl_KCP := Some (link_kcp 0)\<rparr>"
  have "configureClient net_kcp demo_caller default_settings (bs ''10.0.0.9'') 7000 10 = (c0, 0)"
    using k0 by (simp add: configureClient_def bs_def k c0_def Let_def case_prod_beta)
  then have 0: "?run (?l c0 [] 0)"
    by (rule link_run.start) (simp_all add: settings_ok_def default_settings_def demo_caller_def)
  define c1 where "c1 = c0\<lparr>cl_KCP := Some (link_kcp 1)\<rparr>"
  have "sendDataClient net_kcp c0 [1, 2, 3] = Inr (c1, 0)"
    using link_kcp_send by (simp add: sendDataClient_def c0_def c1_def)
  then have 1: "?run (?l c1 [1, 2, 3] 0)" using link_run.c_send [OF 0, of "[1, 2, 3]" c1 0] by simp
  obtain c2 ms where c2: "kcpNudgeWorkerClient net_kcp True c1 0 = Inr (c2, ms)" "cl_KCP c2 = Some (link_kcp 2)" "cl_sent c2 = []"
    using nudge_client_returns [of c1 "link_kcp 1" 0 "link_kcp 2" "[]" True] link_kcp_open
    by (auto simp: c1_def c0_def demo_caller_def)
  define n where "n = queued (Some (link_kcp 1)) - queued (Some (link_kcp 2))"
  have 2: "?run (?l c2 [1, 2, 3] n)"
    using link_run.c_nudge [OF 1, of True 0 c2 ms] c2(1,2) by (simp add: n_def c1_def)
  obtain c3 ms' where c3: "kcpNudgeWorkerClient net_kcp True c2 100000 = Inr (c3, ms')" "cl_KCP c3 = Some (link_kcp 3)"
      "cl_sent c3 = [demo_wire]"
    using nudge_client_returns [of c2 "link_kcp 2" 100000 "link_kcp 3" "[demo_wire]" True] link_kcp_flush c2 by auto
  define m where "m = queued (Some (link_kcp 2)) - queued (Some (link_kcp 3))"
  have 3: "?run (?l c3 [1, 2, 3] (n + m))"
    using link_run.c_nudge [OF 2, of True 100000 c3 ms'] c3(1,2) c2(2) by (simp add: m_def)
  have w: "\<not> is_time demo_wire" "8 \<le> length demo_wire" "length demo_wire \<le> 4096" "demo_wire \<noteq> []"
    by (code_simp, simp_all add: demo_wire_def)
  obtain k' where k': "feed net_kcp (link_kcp 0) demo_wire = Inr (k', 3, [1, 2, 3])" using link_kcp_feed by blast
  have "netWorkerServer net_kcp demo_cb (server_start None []) demo_wire ?p 0 =
    net_new net_kcp demo_cb ((server_start None [])\<lparr>receiveBuffer := demo_wire\<rparr>) (key_of ?p) ?p demo_wire"
    using w by (simp add: netWorkerServer_def server_start_def received_def KCP_MAX_BYTES_def)
  moreover have "session_feed net_kcp demo_cb (key_of ?p) sd demo_wire =
      Inr (Some (sd\<lparr>mKCPServer := k'\<rparr>), [Got_data (key_of ?p) [1, 2, 3]])" if "mKCPServer sd = link_kcp 0" for sd
    using k' that by (simp add: session_feed_def demo_cb_def)
  moreover have "rValidate demo_cb = None" by (simp add: demo_cb_def)
  ultimately have "\<exists>s. netWorkerServer net_kcp demo_cb (server_start None []) demo_wire ?p 0 = Inr s \<and>
      net_calls s = [Got_data (key_of ?p) [1, 2, 3]]"
    using w(1) k k0(1) by (simp add: net_new_session demo_cb_keeps session_new_def Let_def new_context_def make_context_def
        server_start_def)
  then obtain s where s: "netWorkerServer net_kcp demo_cb (server_start None []) demo_wire ?p 0 = Inr s"
      "net_calls s = [Got_data (key_of ?p) [1, 2, 3]]" by blast
  have "?run ((?l c3 [1, 2, 3] (n + m))\<lparr>lk_server := s\<rparr>)"
    using link_run.s_arrive [OF 3, of demo_wire 0 s] s(1) c3(3) w(3)
    by (simp add: KCP_MAX_BYTES_def view_def server_start_def session_kcp_def)
  moreover have "queued (Some (link_kcp 1)) \<le> 1" "queued (Some (link_kcp 2)) \<le> 1" by code_simp+
  ultimately show ?thesis
    using s(2) by (intro exI [of _ "(?l c3 [1, 2, 3] (n + m))\<lparr>lk_server := s\<rparr>"]) (auto simp: n_def m_def)
qed

theorem link_delivery_witness:
  "\<exists>l rest. link_run demo_cb None (fst demo_peers) 10 l \<and> server_got (fst demo_peers) (lk_server l) = [1, 2, 3] \<and>
     lk_cacc l = [1, 2, 3] @ rest"
proof -
  have "agreed demo_cb None (fst demo_peers) 10"
    by (simp add: agreed_def validated_def demo_cb_def new_context_def make_context_def server_start_def settings_ok_def
        default_settings_def)
  moreover have "rGotData demo_cb" by (simp add: demo_cb_def)
  ultimately show ?thesis
    using demo_link link_delivery [OF _ _ _ _ demo_cb_keeps] by metis
qed

end
