(* ===== verification/Kcp_Demo.thy ===== *)
theory Kcp_Demo
  imports Kcp_System
begin

text \<open>
  The echo server of the KCP measurements, \<open>src/kcp_learn/server.c\<close>, connected to any program that
  drives KCP as theory \<open>Kcp_System\<close> allows; \<open>client.c\<close> is one. The server's control block lives in an
  \<open>endpoint\<close>, which also records, as ghost state, what was sent, read and numbered.
\<close>

section \<open>The server\<close>

definition RECV_BUF :: nat where "RECV_BUF = 1500"

record demo_server =
  ds_ep :: endpoint
  ds_buf :: "byte list"
  ds_number :: nat

text \<open>
  The calls of KCP. \<open>udp_output\<close> hands a datagram to \<open>sendto\<close>; a failed \<open>sendto\<close> is a datagram that
  never arrives.
\<close>

definition udp_output :: "byte list list \<Rightarrow> ikcpcb \<Rightarrow> endpoint \<Rightarrow> endpoint" where
  "udp_output out kcp' e =
     e\<lparr>e_kcp := kcp', e_out := e_out e \<union> set out,
       e_num := e_num e @ map core (take (length (k_snd_queue (e_kcp e)) - length (k_snd_queue kcp')) (k_snd_queue (e_kcp e)))\<rparr>"

definition ds_update :: "u32 \<Rightarrow> endpoint \<Rightarrow> kcp_fault + endpoint" where
  "ds_update now e =
     (case ikcp_update (e_kcp e) now of Inl f \<Rightarrow> Inl f | Inr (kcp', out) \<Rightarrow> Inr (udp_output out kcp' e))"

definition ds_flush :: "endpoint \<Rightarrow> kcp_fault + endpoint" where
  "ds_flush e = (case ikcp_flush (e_kcp e) of Inl f \<Rightarrow> Inl f | Inr (kcp', out) \<Rightarrow> Inr (udp_output out kcp' e))"

definition ds_send :: "(nat \<Rightarrow> bool) \<Rightarrow> byte list \<Rightarrow> endpoint \<Rightarrow> kcp_fault + endpoint" where
  "ds_send alloc b e =
     (case ikcp_send alloc (e_kcp e) b (int (length b)) of
        Inl f \<Rightarrow> Inl f
      | Inr (kcp', rc) \<Rightarrow> Inr (e\<lparr>e_kcp := kcp', e_acc := (if rc = 0 then e_acc e @ b else e_acc e)\<rparr>))"

text \<open>
  What follows a datagram of \<open>n\<close> bytes at the front of \<open>buf\<close>: it is given to KCP, one message is read
  into the same array, if there is one of at most \<open>n\<close> bytes, and sent back.
\<close>

definition server_packet :: "(nat \<Rightarrow> bool) \<Rightarrow> nat \<Rightarrow> byte list \<Rightarrow> demo_server \<Rightarrow> kcp_fault + demo_server" where
  "server_packet alloc n buf s =
     (case ikcp_input alloc (e_kcp (ds_ep s)) (take n buf) of
        Inl f \<Rightarrow> Inl f
      | Inr (kcp, ret) \<Rightarrow>
          let e = (ds_ep s)\<lparr>e_kcp := kcp\<rparr>
          in if ret < 0 then Inr (s\<lparr>ds_ep := e, ds_buf := buf\<rparr>)
             else (case ikcp_recv kcp True (int n) of
                     Inl f \<Rightarrow> Inl f
                   | Inr (kcp, ret, out) \<Rightarrow>
                       let e = e\<lparr>e_kcp := kcp, e_got := e_got e @ out\<rparr>;
                           buf = out @ drop (length out) buf
                       in if ret < 0 then Inr (s\<lparr>ds_ep := e, ds_buf := buf\<rparr>)
                          else (case ds_send alloc (take (nat ret) buf) e of
                                  Inl f \<Rightarrow> Inl f
                                | Inr e \<Rightarrow>
                                    (case ds_flush e of
                                       Inl f \<Rightarrow> Inl f
                                     | Inr e \<Rightarrow> Inr (s\<lparr>ds_ep := e, ds_buf := buf, ds_number := ds_number s + 1\<rparr>)))))"

text \<open>
  One round of \<open>loop\<close>: the clock, and what \<open>recvfrom\<close> returns (nothing, or a datagram, of which at most
  1500 bytes are stored). The flag is \<open>False\<close> when an empty datagram ends the loop.
\<close>

definition server_round :: "(nat \<Rightarrow> bool) \<Rightarrow> u32 \<Rightarrow> byte list option \<Rightarrow> demo_server \<Rightarrow> kcp_fault + bool \<times> demo_server" where
  "server_round alloc now received s =
     (case ds_update now (ds_ep s) of
        Inl f \<Rightarrow> Inl f
      | Inr e \<Rightarrow>
          (case received of
             None \<Rightarrow> Inr (True, s\<lparr>ds_ep := e\<rparr>)
           | Some d \<Rightarrow>
               let n = min RECV_BUF (length d)
               in if n > 0
                  then (case server_packet alloc n (take n d @ drop n (ds_buf s)) (s\<lparr>ds_ep := e\<rparr>) of
                          Inl f \<Rightarrow> Inl f
                        | Inr s' \<Rightarrow> Inr (True, s'))
                  else Inr (False, s\<lparr>ds_ep := e\<rparr>)))"

text \<open>\<open>main\<close> up to the loop.\<close>

definition server_main :: "(nat \<Rightarrow> bool) \<Rightarrow> demo_server option" where
  "server_main alloc =
     (case ikcp_create alloc 1 of
        None \<Rightarrow> None
      | Some kcp \<Rightarrow>
          let kcp = fst (ikcp_setmtu alloc kcp 1400);
              kcp = ikcp_setoutput kcp True;
              kcp = fst (ikcp_nodelay kcp 0 10 0 0);
              kcp = fst (ikcp_wndsize kcp 128 128)
          in Some \<lparr>ds_ep = \<lparr>e_kcp = kcp, e_out = {}, e_num = [], e_acc = [], e_got = []\<rparr>,
                   ds_buf = replicate RECV_BUF 0, ds_number = 0\<rparr>)"

section \<open>Client and server\<close>

text \<open>
  Any datagram of up to 1500 bytes that the client has sent may arrive at any time, any number of times;
  the client makes any of the steps of an endpoint.
\<close>

inductive echo_sys :: "endpoint \<Rightarrow> demo_server \<Rightarrow> bool" where
  start: "ep_start alloc 1 = Some a \<Longrightarrow> server_main alloc' = Some s \<Longrightarrow> echo_sys a s"
| client: "echo_sys a s \<Longrightarrow> ep_step (e_out (ds_ep s)) a a' \<Longrightarrow> echo_sys a' s"
| server: "echo_sys a s \<Longrightarrow> \<forall>n. alloc n \<Longrightarrow> (\<And>d. received = Some d \<Longrightarrow> d \<in> e_out a \<and> length d \<le> RECV_BUF) \<Longrightarrow>
    unat (k_ackcount (e_kcp (ds_ep s))) + RECV_BUF div 24 < 2 ^ 31 \<Longrightarrow>
    server_round alloc now received s = Inr (True, s') \<Longrightarrow> echo_sys a s'"

lemma ds_update_step: "ds_update now e = Inr e' \<Longrightarrow> ep_step net e e'"
  by (auto simp: ds_update_def udp_output_def split: sum.splits intro: ep_step.update)

lemma ds_flush_step: "ds_flush e = Inr e' \<Longrightarrow> ep_step net e e'"
  by (auto simp: ds_flush_def udp_output_def split: sum.splits intro: ep_step.flush)

lemma ds_send_step:
  assumes "ds_send alloc b e = Inr e'" and "\<forall>n. alloc n" and "length b < 2 ^ 31"
  shows "ep_step net e e'"
proof -
  obtain kcp' rc where "ikcp_send alloc (e_kcp e) b (int (length b)) = Inr (kcp', rc)"
    "e' = e\<lparr>e_kcp := kcp', e_acc := (if rc = 0 then e_acc e @ b else e_acc e)\<rparr>"
    using assms(1) by (auto simp: ds_send_def split: sum.splits)
  with ep_step.send [OF assms(2,3)] show ?thesis by simp
qed

text \<open>A message of up to 1500 bytes is never refused.\<close>

lemma ds_send_accepts:
  assumes "tx_ok L (e_kcp e)" and "\<forall>n. alloc n" and "length b \<le> 1500"
  shows "\<exists>kcp'. ds_send alloc b e = Inr (e\<lparr>e_kcp := kcp', e_acc := e_acc e @ b\<rparr>)"
proof -
  have cfg: "cfg_inv (e_kcp e)" "k_stream (e_kcp e) = 0" using assms(1) by (auto simp: tx_ok_def kcp_inv_def)
  let ?m = "unat (k_mss (e_kcp e))"
  have "26 \<le> ?m" by (rule mss_bounds(2) [OF cfg(1)])
  then have "length b + ?m - 1 < 128 * ?m" using assms(3) by linarith
  then have "frag_count ?m (length b) < 128" by (simp add: frag_count_def less_mult_imp_div_less)
  then obtain kcp' where "ikcp_send alloc (e_kcp e) b (int (length b)) = Inr (kcp', 0)"
    using send_message_eq [OF cfg(1) assms(2) cfg(2), of b] assms(3) by simp
  then show ?thesis by (intro exI [of _ kcp']) (simp add: ds_send_def)
qed

lemma ep_step_mono:
  "ep_step net e e' \<Longrightarrow> length (e_acc e) \<le> length (e_acc e') \<and> length (e_num e) \<le> length (e_num e')"
  by (cases rule: ep_step.cases) auto

lemma sys_right_ok:
  assumes "sys a b" and "length (e_num a) < 2 ^ 31" and "length (e_num b) < 2 ^ 31"
  shows "\<exists>L. tx_ok L (e_kcp b)" and "rcv_inv (e_kcp b)"
  using sys_ok [OF assms] by (auto simp: ep_ok_def tx_ok_def kcp_inv_def)

text \<open>The control block may call for a flush at any time; that never adds acknowledgements.\<close>

lemma flush_returns:
  assumes "tx_ok L kcp"
  shows "\<exists>kcp' out. ikcp_flush kcp = Inr (kcp', out) \<and> k_ackcount kcp' \<in> {k_ackcount kcp, 0}"
proof (cases "k_updated kcp = 0")
  case True
  then show ?thesis by (simp add: ikcp_flush_def)
next
  case False
  have "kcp_inv kcp" "snd_fit kcp" "k_output kcp" using assms by (auto simp: tx_ok_def)
  from flush_exact [OF this False, of "\<lambda>s. True"] show ?thesis by auto
qed

lemma update_returns:
  assumes "tx_ok L kcp"
  shows "\<exists>kcp' out. ikcp_update kcp now = Inr (kcp', out) \<and> k_ackcount kcp' \<in> {k_ackcount kcp, 0}"
proof -
  have "tx_ok L (kcp\<lparr>k_current := t, k_updated := u, k_ts_flush := f\<rparr>)" "tx_ok L (kcp\<lparr>k_current := t, k_ts_flush := f\<rparr>)" for t u f
    using assms by (auto simp: tx_ok_def snd_fit_def fits_def)
  from flush_returns [OF this(1)] flush_returns [OF this(2)] show ?thesis
    by (simp add: ikcp_update_def Let_def)
qed

text \<open>Every call of a packet is a step of the endpoint, and what is read is sent back.\<close>

lemma server_packet_echo:
  assumes "sys a (ds_ep s)" and "length (e_num a) < 2 ^ 31" and "length (e_num (ds_ep s)) < 2 ^ 31" and "length (e_acc a) < 2 ^ 31"
    and "\<forall>n. alloc n" and "d \<in> e_out a" and "length d \<le> 1500" and "take (length d) buf = d"
    and "unat (k_ackcount (e_kcp (ds_ep s))) + length d div 24 < 2 ^ 31"
    and "e_acc (ds_ep s) = e_got (ds_ep s)"
  shows "\<exists>s'. server_packet alloc (length d) buf s = Inr s' \<and> sys a (ds_ep s') \<and> e_acc (ds_ep s') = e_got (ds_ep s')"
proof -
  let ?e = "ds_ep s"
  obtain L where L: "tx_ok L (e_kcp ?e)" using sys_right_ok [OF assms(1-3)] by blast
  then have "input_end_ok (input_loop alloc (e_kcp ?e) d False 0 0)"
    by (intro input_loop_ok [OF assms(5) _ assms(9)]) (simp add: tx_ok_def)
  then have "\<exists>r. ikcp_input alloc (e_kcp ?e) d = Inr r"
    by (cases "input_loop alloc (e_kcp ?e) d False 0 0") (simp_all add: ikcp_input_def Let_def)
  then obtain k1 r1 where in1: "ikcp_input alloc (e_kcp ?e) d = Inr (k1, r1)" by auto
  have s1: "sys a (?e\<lparr>e_kcp := k1\<rparr>)" by (rule sys.right [OF assms(1) ep_step.input [OF assms(6,5,9) in1]])
  show ?thesis
  proof (cases "r1 < 0")
    case True
    then show ?thesis using s1 in1 assms(8,10) by (simp add: server_packet_def)
  next
    case False
    note ok1 = sys_right_ok [OF s1 assms(2), simplified, OF assms(3) [simplified]]
    have "\<exists>r. ikcp_recv k1 True (int (length d)) = Inr r"
    proof (cases "k_rcv_queue k1 = [] \<or> ikcp_peeksize k1 < 0 \<or> ikcp_peeksize k1 > int (length d)")
      case True
      then show ?thesis by (auto simp: ikcp_recv_def Let_def)
    qed (use recv_eq [of "int (length d)" k1 True] in simp)
    then obtain k2 r2 out where rv: "ikcp_recv k1 True (int (length d)) = Inr (k2, r2, out)" by auto
    define e2 where "e2 = ?e\<lparr>e_kcp := k2, e_got := e_got ?e @ out\<rparr>"
    have s2: "sys a e2"
      using sys.right [OF s1 ep_step.recv [of "int (length d)" _ k2 r2 out]] rv by (simp add: e2_def)
    obtain rest where "e_acc a = e_got e2 @ rest"
      using sys_prefix [OF s2 assms(2)] assms(3) by (auto simp: e2_def)
    then have "length out < 2 ^ 31" using assms(4) by (simp add: e2_def)
    from recv_exact [OF ok1(2) _ rv this] consider "r2 < 0" "out = []" | "r2 = int (length out)" "length out \<le> length d" by auto
    then show ?thesis
    proof cases
      case 1
      then show ?thesis using s2 in1 rv False assms(8,10) by (auto simp: server_packet_def e2_def Let_def)
    next
      case 2
      have ok2: "\<exists>L. tx_ok L (e_kcp e2)" using sys_right_ok(1) [OF s2 assms(2)] assms(3) by (simp add: e2_def)
      then obtain k3 where sd: "ds_send alloc out e2 = Inr (e2\<lparr>e_kcp := k3, e_acc := e_acc e2 @ out\<rparr>)"
        using ds_send_accepts [OF _ assms(5), of _ e2 out] 2(2) assms(7) by auto
      let ?e3 = "e2\<lparr>e_kcp := k3, e_acc := e_acc e2 @ out\<rparr>"
      have s3: "sys a ?e3"
        by (rule sys.right [OF s2 ds_send_step [OF sd assms(5)]]) (use 2(2) assms(7) in simp)
      obtain L3 where "tx_ok L3 k3" using sys_right_ok(1) [OF s3 assms(2)] assms(3) by (auto simp: e2_def)
      from flush_returns [OF this] obtain k4 o4 where "ikcp_flush k3 = Inr (k4, o4)" by blast
      then have fl: "ds_flush ?e3 = Inr (udp_output o4 k4 ?e3)" by (simp add: ds_flush_def)
      have s4: "sys a (udp_output o4 k4 ?e3)" by (rule sys.right [OF s3 ds_flush_step [OF fl]])
      have "server_packet alloc (length d) buf s =
          Inr (s\<lparr>ds_ep := udp_output o4 k4 ?e3, ds_buf := out @ drop (length out) buf, ds_number := ds_number s + 1\<rparr>)"
        using in1 rv False sd fl 2(1) assms(8) by (simp add: server_packet_def Let_def e2_def)
      moreover have "e_acc (udp_output o4 k4 ?e3) = e_got (udp_output o4 k4 ?e3)"
        using assms(10) by (simp add: udp_output_def e2_def)
      ultimately show ?thesis using s4 by simp
    qed
  qed
qed

lemma udp_output_num [simp]: "length (e_num e) \<le> length (e_num (udp_output out kcp' e))"
  by (simp add: udp_output_def)

lemma server_packet_num:
  "server_packet alloc n buf s = Inr s' \<Longrightarrow> length (e_num (ds_ep s)) \<le> length (e_num (ds_ep s'))"
  by (auto simp: server_packet_def ds_send_def ds_flush_def udp_output_def Let_def split: sum.splits if_splits)

lemma server_round_num:
  assumes "server_round alloc now received s = Inr (c, s')"
  obtains e where "ds_update now (ds_ep s) = Inr e" "length (e_num (ds_ep s)) \<le> length (e_num e)"
    "length (e_num e) \<le> length (e_num (ds_ep s'))"
  using assms
  by (auto simp: server_round_def ds_update_def Let_def split: sum.splits option.splits if_splits dest!: server_packet_num)

lemma server_round_echo:
  assumes "sys a (ds_ep s)" and "ds_update now (ds_ep s) = Inr e" and "length (e_num e) < 2 ^ 31"
    and "length (e_num a) < 2 ^ 31" and "length (e_acc a) < 2 ^ 31" and "\<forall>n. alloc n"
    and "\<And>d. received = Some d \<Longrightarrow> d \<in> e_out a \<and> length d \<le> RECV_BUF"
    and "unat (k_ackcount (e_kcp (ds_ep s))) + RECV_BUF div 24 < 2 ^ 31"
    and "e_acc (ds_ep s) = e_got (ds_ep s)"
  shows "\<exists>c s'. server_round alloc now received s = Inr (c, s') \<and> sys a (ds_ep s') \<and> e_acc (ds_ep s') = e_got (ds_ep s')"
proof -
  obtain kcp' out where up: "ikcp_update (e_kcp (ds_ep s)) now = Inr (kcp', out)" and e: "e = udp_output out kcp' (ds_ep s)"
    using assms(2) by (auto simp: ds_update_def split: sum.splits)
  have "length (e_num (ds_ep s)) < 2 ^ 31" using assms(3) udp_output_num [of "ds_ep s" out kcp'] by (simp only: e)
  then obtain L where "tx_ok L (e_kcp (ds_ep s))" using sys_right_ok(1) [OF assms(1,4)] by blast
  from update_returns [OF this, of now] up have ack: "k_ackcount kcp' \<in> {k_ackcount (e_kcp (ds_ep s)), 0}" by auto
  have s1: "sys a e" by (rule sys.right [OF assms(1) ds_update_step [OF assms(2)]])
  have eq: "e_acc e = e_got e" using assms(9) by (simp add: e udp_output_def)
  show ?thesis
  proof (cases "\<exists>d. received = Some d \<and> d \<noteq> []")
    case True
    then obtain d where d: "received = Some d" "d \<noteq> []" by blast
    note d' = assms(7) [OF d(1)]
    have "length d div 24 \<le> RECV_BUF div 24" using d' by (simp add: div_le_mono)
    then have acks: "unat (k_ackcount (e_kcp e)) + length d div 24 < 2 ^ 31"
      using ack assms(8) by (auto simp: e udp_output_def)
    let ?s = "s\<lparr>ds_ep := e\<rparr>" and ?buf = "take (length d) d @ drop (length d) (ds_buf s)"
    obtain s' where "server_packet alloc (length d) ?buf ?s = Inr s'" "sys a (ds_ep s')" "e_acc (ds_ep s') = e_got (ds_ep s')"
      using server_packet_echo [of a ?s alloc d ?buf] s1 assms(3-6) d' acks eq by (auto simp: RECV_BUF_def)
    moreover have "min RECV_BUF (length d) = length d" using d' by simp
    ultimately show ?thesis using assms(2) d by (intro exI [of _ True] exI [of _ s']) (simp add: server_round_def Let_def)
  next
    case False
    then show ?thesis using assms(2) s1 eq by (auto simp: server_round_def Let_def split: option.split)
  qed
qed

lemma server_main_sys:
  assumes "ep_start alloc 1 = Some a" and "server_main alloc' = Some s"
  shows "sys a (ds_ep s) \<and> e_acc (ds_ep s) = e_got (ds_ep s)"
proof -
  obtain kcp where kcp: "ikcp_create alloc' 1 = Some kcp"
    using assms(2) by (auto simp: server_main_def split: option.splits)
  define k0 where "k0 = ikcp_setoutput kcp True"
  define k1 where "k1 = fst (ikcp_setmtu alloc' k0 1400)"
  define k2 where "k2 = fst (ikcp_nodelay k1 0 10 0 0)"
  define k3 where "k3 = fst (ikcp_wndsize k2 128 128)"
  let ?e = "\<lambda>k. \<lparr>e_kcp = k, e_out = {}, e_num = [], e_acc = [], e_got = []\<rparr>"
  have "ikcp_setoutput (fst (ikcp_setmtu alloc' kcp 1400)) True = k1"
    by (simp add: k1_def k0_def ikcp_setmtu_def ikcp_setoutput_def)
  then have s: "ds_ep s = ?e k3" using assms(2) kcp by (simp add: server_main_def k2_def k3_def Let_def) (drule sym, simp)
  have "ep_start alloc' 1 = Some (?e k0)" by (simp add: ep_start_def kcp k0_def)
  from sys.start [OF assms(1) this] have 0: "sys a (?e k0)" .
  have q: "k_snd_queue k0 = []" "k_snd_buf k0 = []"
    using kcp by (auto simp: k0_def ikcp_setoutput_def ikcp_create_def split: if_splits)
  have 1: "sys a (?e k1)"
    using sys.right [OF 0 ep_step.setmtu [of "?e k0" 1400 alloc' k1 "snd (ikcp_setmtu alloc' k0 1400)"]] q by (simp add: k1_def)
  have 2: "sys a (?e k2)"
    using sys.right [OF 1 ep_step.nodelay [of "?e k1" 0 10 0 0 k2 "snd (ikcp_nodelay k1 0 10 0 0)"]] by (simp add: k2_def)
  have "sys a (?e k3)"
    using sys.right [OF 2 ep_step.wndsize [of 128 "?e k2" 128 k3 "snd (ikcp_wndsize k2 128 128)"]] by (simp add: k3_def)
  then show ?thesis by (simp add: s)
qed

lemma echo_sys_sys:
  "echo_sys a s \<Longrightarrow> length (e_num a) < 2 ^ 31 \<Longrightarrow> length (e_num (ds_ep s)) < 2 ^ 31 \<Longrightarrow> length (e_acc a) < 2 ^ 31 \<Longrightarrow>
     sys a (ds_ep s) \<and> e_acc (ds_ep s) = e_got (ds_ep s)"
proof (induction rule: echo_sys.induct)
  case (start alloc a alloc' s)
  then show ?case using server_main_sys by blast
next
  case (client a s a')
  have "sys a (ds_ep s) \<and> e_acc (ds_ep s) = e_got (ds_ep s)"
    using ep_step_mono [OF client.hyps(2)] client.prems by (intro client.IH) linarith+
  then show ?case using sys.left [OF _ client.hyps(2)] by blast
next
  case (server a s alloc received now s')
  obtain e where e: "ds_update now (ds_ep s) = Inr e" "length (e_num (ds_ep s)) \<le> length (e_num e)"
    "length (e_num e) \<le> length (e_num (ds_ep s'))" using server_round_num [OF server.hyps(5)] .
  have IH: "sys a (ds_ep s)" "e_acc (ds_ep s) = e_got (ds_ep s)"
    using server.IH [OF server.prems(1) _ server.prems(3)] e(2,3) server.prems(2) by linarith+
  show ?case
    using server_round_echo [OF IH(1) e(1) _ server.prems(1,3) server.hyps(2) _ server.hyps(4) IH(2), of received]
      server.hyps(3,5) e(3) server.prems(2) by auto
qed

section \<open>Properties\<close>

text \<open>
  C16. The echo server returns what it gets. Whatever the network loses, repeats and reorders and
  whatever the client does with its KCP, the server has handed to its KCP exactly the bytes it has read,
  and what the client has read is a prefix of what the client itself has sent. A round of the server with
  any datagram of the client always completes. The bounds are those of the sequence numbers.
\<close>

theorem demo_server_echo:
  assumes "echo_sys a s" and "length (e_num a) < 2 ^ 31" and "length (e_num (ds_ep s)) < 2 ^ 31" and "length (e_acc a) < 2 ^ 31"
  shows "e_acc (ds_ep s) = e_got (ds_ep s) \<and> (\<exists>rest. e_acc a = e_got a @ rest) \<and>
    (\<forall>alloc now received. (\<forall>n. alloc n) \<and> (\<forall>d. received = Some d \<longrightarrow> d \<in> e_out a \<and> length d \<le> RECV_BUF) \<and>
       unat (k_ackcount (e_kcp (ds_ep s))) + RECV_BUF div 24 < 2 ^ 31 \<and>
       length (e_num (ds_ep s)) + length (k_snd_queue (e_kcp (ds_ep s))) < 2 ^ 31 \<longrightarrow>
       (\<exists>c s'. server_round alloc now received s = Inr (c, s')))"
proof -
  have s: "sys a (ds_ep s)" "e_acc (ds_ep s) = e_got (ds_ep s)" using echo_sys_sys [OF assms] by auto
  from sys_prefix [OF s(1) assms(2,3)] obtain r1 r2 where "e_acc a = e_got (ds_ep s) @ r1" "e_acc (ds_ep s) = e_got a @ r2" by blast
  then have "e_acc a = e_got a @ r2 @ r1" using s(2) by simp
  moreover have "\<exists>c s'. server_round alloc now received s = Inr (c, s')"
    if ok: "\<forall>n. alloc n" "\<forall>d. received = Some d \<longrightarrow> d \<in> e_out a \<and> length d \<le> RECV_BUF"
      "unat (k_ackcount (e_kcp (ds_ep s))) + RECV_BUF div 24 < 2 ^ 31"
      "length (e_num (ds_ep s)) + length (k_snd_queue (e_kcp (ds_ep s))) < 2 ^ 31" for alloc now received
  proof -
    obtain L where "tx_ok L (e_kcp (ds_ep s))" using sys_right_ok(1) [OF s(1) assms(2,3)] by blast
    from update_returns [OF this, of now] obtain kcp' out where up: "ikcp_update (e_kcp (ds_ep s)) now = Inr (kcp', out)" by blast
    then have e: "ds_update now (ds_ep s) = Inr (udp_output out kcp' (ds_ep s))" by (simp add: ds_update_def)
    have "length (e_num (udp_output out kcp' (ds_ep s))) < 2 ^ 31"
      using ok(4) by (simp add: udp_output_def)
    from server_round_echo [OF s(1) e this assms(2,4) ok(1) _ ok(3) s(2), of received] ok(2) show ?thesis by blast
  qed
  ultimately show ?thesis using s(2) by blast
qed

text \<open>A client that sends three bytes and drives its clock twice; the datagram arrives at the server.\<close>

definition echo_block :: ikcpcb where
  "echo_block = ikcp_setoutput (the (ikcp_create (\<lambda>_. True) 1)) True"

definition echo_sent :: ikcpcb where
  "echo_sent = fst (projr (ikcp_send (\<lambda>_. True) echo_block [1, 2, 3] 3))"

definition echo_open :: ikcpcb where
  "echo_open = fst (projr (ikcp_update echo_sent 0))"

definition echo_flushed :: ikcpcb where
  "echo_flushed = fst (projr (ikcp_update echo_open 100))"

definition echo_datagram :: "byte list" where
  "echo_datagram = [1, 0, 0, 0, 81, 0, 128, 0, 100, 0, 0, 0, 0, 0, 0, 0, 0, 0, 0, 0, 3, 0, 0, 0, 1, 2, 3]"

definition echo_server :: demo_server where
  "echo_server = the (server_main (\<lambda>_. True))"

definition echo_served :: demo_server where
  "echo_served = snd (projr (server_round (\<lambda>_. True) 0 (Some echo_datagram) echo_server))"

lemma echo_steps:
  "ikcp_send (\<lambda>_. True) echo_block [1, 2, 3] 3 = Inr (echo_sent, 0)"
  "ikcp_update echo_sent 0 = Inr (echo_open, [])"
  "ikcp_update echo_open 100 = Inr (echo_flushed, [echo_datagram])"
proof -
  have 1: "\<not> isl (ikcp_send (\<lambda>_. True) echo_block [1, 2, 3] 3) \<and> snd (projr (ikcp_send (\<lambda>_. True) echo_block [1, 2, 3] 3)) = 0"
    by code_simp
  show "ikcp_send (\<lambda>_. True) echo_block [1, 2, 3] 3 = Inr (echo_sent, 0)"
    by (rule projr_eq [OF 1, folded echo_sent_def])
  have 2: "\<not> isl (ikcp_update echo_sent 0) \<and> snd (projr (ikcp_update echo_sent 0)) = []"
    by code_simp
  show "ikcp_update echo_sent 0 = Inr (echo_open, [])"
    by (rule projr_eq [OF 2, folded echo_open_def])
  have 3: "\<not> isl (ikcp_update echo_open 100) \<and> snd (projr (ikcp_update echo_open 100)) = [echo_datagram]"
    by code_simp
  show "ikcp_update echo_open 100 = Inr (echo_flushed, [echo_datagram])"
    by (rule projr_eq [OF 3, folded echo_flushed_def])
qed

lemma echo_server_round:
  "server_round (\<lambda>_. True) 0 (Some echo_datagram) echo_server = Inr (True, echo_served)"
  "e_got (ds_ep echo_served) = [1, 2, 3]" "length (e_num (ds_ep echo_served)) \<le> 1" "k_ackcount (e_kcp (ds_ep echo_server)) = 0"
proof -
  have "\<not> isl (server_round (\<lambda>_. True) 0 (Some echo_datagram) echo_server) \<and>
      fst (projr (server_round (\<lambda>_. True) 0 (Some echo_datagram) echo_server))"
    by code_simp
  then show "server_round (\<lambda>_. True) 0 (Some echo_datagram) echo_server = Inr (True, echo_served)"
    unfolding echo_served_def by (cases "server_round (\<lambda>_. True) 0 (Some echo_datagram) echo_server") auto
qed code_simp+

lemma echo_demo_run:
  "\<exists>a. echo_sys a echo_served \<and> length (e_num a) < 2 ^ 31 \<and> e_acc a = [1, 2, 3]"
proof -
  let ?e = "\<lambda>k. \<lparr>e_kcp = k, e_out = {}, e_num = [], e_acc = [], e_got = []\<rparr>"
  have "ep_start (\<lambda>_. True) 1 = Some (?e echo_block)" by (simp add: ep_start_def echo_block_def ikcp_create_def)
  moreover have "server_main (\<lambda>_. True) = Some echo_server" by (simp add: echo_server_def server_main_def ikcp_create_def Let_def)
  ultimately have 0: "echo_sys (?e echo_block) echo_server" by (rule echo_sys.start)
  obtain a1 where a1: "echo_sys a1 echo_server" "e_kcp a1 = echo_sent" "e_acc a1 = [1, 2, 3]" "e_num a1 = []"
    using echo_sys.client [OF 0 ep_step.send [of "\<lambda>_. True" "[1, 2, 3]" _ echo_sent 0]] echo_steps(1) by auto
  obtain a2 where a2: "echo_sys a2 echo_server" "e_kcp a2 = echo_open" "e_acc a2 = [1, 2, 3]"
      "length (e_num a2) \<le> length (k_snd_queue echo_sent)"
    using echo_sys.client [OF a1(1) ep_step.update [OF _ refl, of _ 0 echo_open "[]"]] echo_steps(2) a1(2-4) by auto
  obtain a3 where a3: "echo_sys a3 echo_server" "e_acc a3 = [1, 2, 3]" "echo_datagram \<in> e_out a3"
      "length (e_num a3) \<le> length (k_snd_queue echo_sent) + length (k_snd_queue echo_open)"
    using echo_sys.client [OF a2(1) ep_step.update [OF _ refl, of _ 100 echo_flushed "[echo_datagram]"]] echo_steps(3) a2(2-4)
    by fastforce
  have "length (k_snd_queue echo_sent) \<le> 1" "length (k_snd_queue echo_open) \<le> 1" by code_simp+
  then have "length (e_num a3) < 2 ^ 31" using a3(4) by simp
  moreover have "echo_sys a3 echo_served"
    by (rule echo_sys.server [OF a3(1) _ _ _ echo_server_round(1)])
      (use a3(3) echo_server_round(4) in \<open>auto simp: RECV_BUF_def echo_datagram_def\<close>)
  ultimately show ?thesis using a3(2) by blast
qed

theorem demo_server_echo_witness:
  "\<exists>a. echo_sys a echo_served \<and> e_acc (ds_ep echo_served) = [1, 2, 3] \<and> (\<exists>rest. [1, 2, 3] = e_got a @ rest)"
proof -
  obtain a where a: "echo_sys a echo_served" "length (e_num a) < 2 ^ 31" "e_acc a = [1, 2, 3]" using echo_demo_run by blast
  moreover have "length (e_num (ds_ep echo_served)) < 2 ^ 31" using echo_server_round(3) by simp
  ultimately show ?thesis using demo_server_echo [of a echo_served] echo_server_round(2) by auto
qed

text \<open>
  A message longer than the datagram that completes it is never read: the length of the datagram is given
  as the size of the buffer. As messages are read in order, nothing is read after it either.
\<close>

lemma server_stuck:
  assumes "k_rcv_queue kcp \<noteq> []" and "int n < ikcp_peeksize kcp"
  shows "ikcp_recv kcp True (int n) = Inr (kcp, -3, [])"
  using assms by (simp add: ikcp_recv_def)

end
