(* ===== verification/Kcp_Queue.thy ===== *)
theory Kcp_Queue
  imports Prelude
begin

text \<open>
  The intrusive queues of \<open>src/kcp_learn/ikcp.h\<close>: circular, doubly linked lists of nodes in memory
  that are changed by macros assigning single pointers. A queue is named by its head node, which is
  not an element. The macros are shown to be the list operations that the model of the control
  block uses, on any number of queues that share one memory.
\<close>

section \<open>Memory and macros\<close>

text \<open>An address; 0 is the null pointer.\<close>

type_synonym qnode = nat

record iqueue_head =
  q_next :: "qnode \<Rightarrow> qnode"
  q_prev :: "qnode \<Rightarrow> qnode"

definition set_next :: "qnode \<Rightarrow> qnode \<Rightarrow> iqueue_head \<Rightarrow> iqueue_head" where
  "set_next p q m = m\<lparr>q_next := (q_next m)(p := q)\<rparr>"

definition set_prev :: "qnode \<Rightarrow> qnode \<Rightarrow> iqueue_head \<Rightarrow> iqueue_head" where
  "set_prev p q m = m\<lparr>q_prev := (q_prev m)(p := q)\<rparr>"

definition iqueue_init :: "qnode \<Rightarrow> iqueue_head \<Rightarrow> iqueue_head" where
  "iqueue_init p m = set_prev p p (set_next p p m)"

definition iqueue_add :: "qnode \<Rightarrow> qnode \<Rightarrow> iqueue_head \<Rightarrow> iqueue_head" where
  "iqueue_add node head m =
     (let m = set_prev node head m;
          m = set_next node (q_next m head) m;
          m = set_prev (q_next m head) node m
      in set_next head node m)"

definition iqueue_add_tail :: "qnode \<Rightarrow> qnode \<Rightarrow> iqueue_head \<Rightarrow> iqueue_head" where
  "iqueue_add_tail node head m =
     (let m = set_prev node (q_prev m head) m;
          m = set_next node head m;
          m = set_next (q_prev m head) node m
      in set_prev head node m)"

definition iqueue_del_between :: "qnode \<Rightarrow> qnode \<Rightarrow> iqueue_head \<Rightarrow> iqueue_head" where
  "iqueue_del_between p n m = set_next p n (set_prev n p m)"

definition iqueue_del :: "qnode \<Rightarrow> iqueue_head \<Rightarrow> iqueue_head" where
  "iqueue_del entry m =
     (let m = set_prev (q_next m entry) (q_prev m entry) m;
          m = set_next (q_prev m entry) (q_next m entry) m;
          m = set_next entry 0 m
      in set_prev entry 0 m)"

definition iqueue_del_init :: "qnode \<Rightarrow> iqueue_head \<Rightarrow> iqueue_head" where
  "iqueue_del_init entry m = iqueue_init entry (iqueue_del entry m)"

definition iqueue_is_empty :: "qnode \<Rightarrow> iqueue_head \<Rightarrow> bool" where
  "iqueue_is_empty entry m = (entry = q_next m entry)"

text \<open>The nodes \<open>iqueue_foreach_entry\<close> visits from \<open>pos\<close> on; \<open>None\<close> when it never comes back to the head.\<close>

partial_function (option) iqueue_walk :: "iqueue_head \<Rightarrow> qnode \<Rightarrow> qnode \<Rightarrow> qnode list option" where
  "iqueue_walk m head pos =
     (if pos = head then Some []
      else Option.bind (iqueue_walk m head (q_next m pos)) (\<lambda>ps. Some (pos # ps)))"

definition iqueue_foreach_entry :: "iqueue_head \<Rightarrow> qnode \<Rightarrow> qnode list option" where
  "iqueue_foreach_entry m head = iqueue_walk m head (q_next m head)"

definition iqueue_splice_nodes :: "qnode \<Rightarrow> qnode \<Rightarrow> iqueue_head \<Rightarrow> iqueue_head" where
  "iqueue_splice_nodes list head m =
     (let first = q_next m list; last = q_prev m list; at = q_next m head;
          m = set_prev first head m;
          m = set_next head first m;
          m = set_next last at m
      in set_prev at last m)"

definition iqueue_splice :: "qnode \<Rightarrow> qnode \<Rightarrow> iqueue_head \<Rightarrow> iqueue_head" where
  "iqueue_splice list head m = (if \<not> iqueue_is_empty list m then iqueue_splice_nodes list head m else m)"

definition iqueue_splice_init :: "qnode \<Rightarrow> qnode \<Rightarrow> iqueue_head \<Rightarrow> iqueue_head" where
  "iqueue_splice_init list head m = iqueue_init list (iqueue_splice list head m)"

lemmas macro_defs = iqueue_init_def iqueue_add_def iqueue_add_tail_def iqueue_del_def
  set_next_def set_prev_def

section \<open>Paths and rings\<close>

text \<open>The nodes \<open>xs\<close> lead from \<open>p\<close> to \<open>q\<close>, forwards along \<open>next\<close> and backwards along \<open>prev\<close>.\<close>

fun path :: "iqueue_head \<Rightarrow> qnode \<Rightarrow> qnode list \<Rightarrow> qnode \<Rightarrow> bool" where
  "path m p [] q = (q_next m p = q \<and> q_prev m q = p)"
| "path m p (x # xs) q = (q_next m p = x \<and> q_prev m x = p \<and> path m x xs q)"

definition ring :: "iqueue_head \<Rightarrow> qnode \<Rightarrow> qnode list \<Rightarrow> bool" where
  "ring m h xs = (path m h xs h \<and> distinct (h # xs) \<and> 0 \<notin> set (h # xs))"

lemma path_append: "path m p (xs @ x # ys) q = (path m p xs x \<and> path m x ys q)"
  by (induction xs arbitrary: p) auto

lemma path_cong:
  assumes "\<And>x. x \<in> set (p # xs) \<Longrightarrow> q_next m' x = q_next m x"
    and "\<And>x. x \<in> set (xs @ [q]) \<Longrightarrow> q_prev m' x = q_prev m x"
  shows "path m' p xs q = path m p xs q"
  using assms by (induction xs arbitrary: p) auto

lemma path_ends:
  assumes "path m p xs q"
  shows "q_next m p = hd (xs @ [q])" and "q_prev m q = last (p # xs)"
  using assms by (induction xs arbitrary: p) auto

lemma path_retarget:
  assumes "path m p xs q" and "q_next m' (last (p # xs)) = q'" and "q_prev m' q' = last (p # xs)"
    and "\<And>x. x \<in> set (butlast (p # xs)) \<Longrightarrow> q_next m' x = q_next m x"
    and "\<And>x. x \<in> set xs \<Longrightarrow> q_prev m' x = q_prev m x"
  shows "path m' p xs q'"
  using assms by (induction xs arbitrary: p) (auto split: if_splits)

lemma butlast_last: "distinct zs \<Longrightarrow> zs \<noteq> [] \<Longrightarrow> x \<in> set (butlast zs) \<Longrightarrow> x \<noteq> last zs \<and> x \<in> set zs"
  by (metis append_butlast_last_id distinct_append disjoint_iff in_set_butlastD list.set_intros(1))

lemma path_walk:
  assumes "path m p xs h" and "h \<notin> set xs"
  shows "iqueue_walk m h (q_next m p) = Some xs"
  using assms by (induction xs arbitrary: p) (subst iqueue_walk.simps, auto)+

lemma ring_walk: "ring m h xs \<Longrightarrow> iqueue_foreach_entry m h = Some xs"
  by (simp add: ring_def iqueue_foreach_entry_def path_walk)

lemma ring_empty: "ring m h xs \<Longrightarrow> iqueue_is_empty h m = (xs = [])"
  by (cases xs) (auto simp: ring_def iqueue_is_empty_def)

text \<open>A change of other nodes keeps a ring.\<close>

definition only_at :: "qnode set \<Rightarrow> iqueue_head \<Rightarrow> iqueue_head \<Rightarrow> bool" where
  "only_at A m m' = (\<forall>x. x \<notin> A \<longrightarrow> q_next m' x = q_next m x \<and> q_prev m' x = q_prev m x)"

lemma ring_frame:
  assumes "ring m h xs" and "only_at A m m'" and "A \<inter> set (h # xs) = {}"
  shows "ring m' h xs"
proof -
  have "path m' h xs h = path m h xs h"
    using assms(2,3) by (intro path_cong) (auto simp: only_at_def)
  then show ?thesis using assms(1) by (simp add: ring_def)
qed

lemma only_at_refl: "only_at A m m"
  by (simp add: only_at_def)

lemma only_at_trans: "only_at A m m' \<Longrightarrow> only_at A m' m'' \<Longrightarrow> only_at A m m''"
  by (simp add: only_at_def)

section \<open>The macros on one ring\<close>

lemma init_ring: "p \<noteq> 0 \<Longrightarrow> ring (iqueue_init p m) p []"
  by (simp add: ring_def macro_defs)

lemma init_only: "only_at {p} m (iqueue_init p m)"
  by (simp add: only_at_def macro_defs)

lemma add_ring:
  assumes "ring m h xs" and "n \<notin> set (h # xs)" and "n \<noteq> 0"
  shows "ring (iqueue_add n h m) h (n # xs)"
proof (cases xs)
  case Nil
  then show ?thesis using assms by (auto simp: ring_def macro_defs Let_def)
next
  case (Cons x ys)
  have "path (iqueue_add n h m) x ys h = path m x ys h"
    using assms Cons by (intro path_cong) (auto simp: ring_def macro_defs Let_def)
  then show ?thesis using assms Cons by (auto simp: ring_def macro_defs Let_def)
qed

lemma add_only: "ring m h xs \<Longrightarrow> only_at (insert n (set (h # xs))) m (iqueue_add n h m)"
  using path_ends(1) [of m h xs h]
  by (cases xs) (auto simp: ring_def only_at_def macro_defs Let_def)

lemma add_tail_ring:
  assumes "ring m h xs" and "n \<notin> set (h # xs)" and "n \<noteq> 0"
  shows "ring (iqueue_add_tail n h m) h (xs @ [n])"
proof (cases xs rule: rev_cases)
  case Nil
  then show ?thesis using assms by (auto simp: ring_def macro_defs Let_def)
next
  case (snoc ys x)
  have "path (iqueue_add_tail n h m) h ys x = path m h ys x"
    using assms snoc by (intro path_cong) (auto simp: ring_def macro_defs Let_def path_append)
  then show ?thesis using assms snoc
    by (auto simp: ring_def macro_defs Let_def path_append)
qed

lemma add_tail_only: "ring m h xs \<Longrightarrow> only_at (insert n (set (h # xs))) m (iqueue_add_tail n h m)"
  using path_ends(2) [of m h xs h]
  by (cases xs rule: rev_cases) (auto simp: ring_def only_at_def macro_defs Let_def)

lemma del_ring:
  assumes "ring m h (xs @ n # ys)"
  shows "ring (iqueue_del n m) h (xs @ ys)"
proof -
  let ?m = "iqueue_del n m"
  have p: "path m h xs n" "path m n ys h" using assms by (simp_all add: ring_def path_append)
  have d: "distinct (h # xs @ n # ys)" using assms by (simp add: ring_def)
  have e: "q_prev m n = last (h # xs)" "q_next m n = hd (ys @ [h])"
    using path_ends [OF p(1)] path_ends [OF p(2)] by simp_all
  have l: "last (h # xs) \<in> set (h # xs)" "last (h # xs) \<noteq> n" using d last_in_set [of "h # xs"] by auto
  have f: "hd (ys @ [h]) \<in> set (h # ys)" "hd (ys @ [h]) \<noteq> n" using d by (cases ys; auto)+
  have new: "q_next ?m = (q_next m)(last (h # xs) := hd (ys @ [h]), n := 0)"
    "q_prev ?m = (q_prev m)(hd (ys @ [h]) := last (h # xs), n := 0)"
    using l f by (auto simp: macro_defs Let_def e simp del: last.simps)
  have 1: "path ?m h xs (hd (ys @ [h]))"
    using p(1)
  proof (rule path_retarget)
    show "q_next ?m x = q_next m x" if "x \<in> set (butlast (h # xs))" for x
      using that d butlast_last [of "h # xs" x] by (auto simp: new simp del: last.simps butlast.simps)
    show "q_prev ?m x = q_prev m x" if "x \<in> set xs" for x
      using that d f(1) by (auto simp: new simp del: last.simps)
  qed (use l f in \<open>simp_all add: new del: last.simps\<close>)
  have 2: "path ?m y zs h" if "ys = y # zs" for y zs
  proof -
    have "path ?m y zs h = path m y zs h"
      using that d l by (intro path_cong) (auto simp: new simp del: last.simps)
    then show ?thesis using p(2) that by simp
  qed
  have "path ?m h (xs @ ys) h" using 1 2 by (cases ys) (auto simp: path_append)
  then show ?thesis using assms d by (auto simp: ring_def)
qed

lemma del_only: "ring m h xs \<Longrightarrow> n \<in> set xs \<Longrightarrow> only_at (set (h # xs)) m (iqueue_del n m)"
proof -
  assume r: "ring m h xs" and n: "n \<in> set xs"
  obtain as bs where xs: "xs = as @ n # bs" using split_list [OF n] by blast
  have p: "path m h as n" "path m n bs h" using r by (simp_all add: ring_def path_append xs)
  have "q_prev m n \<in> set (h # xs)" "q_next m n \<in> set (h # xs)"
    using path_ends(2) [OF p(1)] path_ends(1) [OF p(2)] last_in_set [of "h # as"]
    by (auto simp: xs hd_append split: if_splits)
  then show ?thesis using n by (auto simp: only_at_def macro_defs Let_def)
qed

lemma splice_ring:
  assumes "ring m l xs" and "ring m h ys" and "set (l # xs) \<inter> set (h # ys) = {}"
  shows "ring (iqueue_splice l h m) h (xs @ ys)"
proof (cases xs)
  case Nil
  then show ?thesis using assms ring_empty [OF assms(1)] by (simp add: iqueue_splice_def)
next
  case (Cons x zs)
  let ?m = "iqueue_splice l h m"
  have e: "q_next m l = x" "q_prev m l = last (x # zs)" "q_next m h = hd (ys @ [h])" and p: "path m x zs l"
    using assms path_ends(2) [of m x zs l] path_ends(1) [of m h ys h] by (auto simp: ring_def Cons)
  have l: "last (x # zs) \<in> set xs" using last_in_set [of "x # zs"] Cons by auto
  have f: "hd (ys @ [h]) \<in> set (h # ys)" by (cases ys) auto
  have new: "q_next ?m = (q_next m)(h := x, last (x # zs) := hd (ys @ [h]))"
    "q_prev ?m = (q_prev m)(x := h, hd (ys @ [h]) := last (x # zs))"
    using Cons ring_empty [OF assms(1)]
    by (simp_all add: iqueue_splice_def iqueue_splice_nodes_def macro_defs Let_def e del: last.simps)
  have d: "distinct (x # zs)" "x \<notin> set (h # ys)" "h \<notin> set xs" "distinct (h # ys)"
    "\<And>y. y \<in> set ys \<Longrightarrow> y \<notin> set xs"
    using assms by (auto simp: ring_def Cons)
  have 1: "path ?m x zs (hd (ys @ [h]))"
    using p
  proof (rule path_retarget)
    show "q_next ?m y = q_next m y" if "y \<in> set (butlast (x # zs))" for y
      using that d butlast_last [of "x # zs" y] Cons by (auto simp: new simp del: last.simps butlast.simps)
    show "q_prev ?m y = q_prev m y" if "y \<in> set zs" for y
      using that d f Cons by (auto simp: new simp del: last.simps)
  qed (simp_all add: new del: last.simps)
  have 2: "path ?m y us h" if "ys = y # us" for y us
  proof -
    have "path ?m y us h = path m y us h"
      using that d l by (intro path_cong) (auto simp: new simp del: last.simps)
    then show ?thesis using assms(2) that by (simp add: ring_def)
  qed
  have 3: "q_next ?m h = x" "q_prev ?m x = h"
    using d l f by (auto simp: new simp del: last.simps)
  have "path ?m h (xs @ ys) h" using 1 2 3 Cons by (cases ys) (auto simp: path_append)
  then show ?thesis using assms by (auto simp: ring_def)
qed

lemma splice_only:
  assumes "ring m l xs" and "ring m h ys"
  shows "only_at (set (l # xs) \<union> set (h # ys)) m (iqueue_splice l h m)"
proof -
  have "q_next m l \<in> set (l # xs)" "q_prev m l \<in> set (l # xs)" "q_next m h \<in> set (h # ys)"
    using assms path_ends [of m l xs l] path_ends(1) [of m h ys h] last_in_set [of "l # xs"]
    by (auto simp: ring_def hd_append split: if_splits)
  then show ?thesis
    by (auto simp: only_at_def iqueue_splice_def iqueue_splice_nodes_def macro_defs Let_def)
qed

section \<open>Several queues in one memory\<close>

definition queues :: "qnode list \<Rightarrow> iqueue_head \<Rightarrow> (qnode \<Rightarrow> qnode list) \<Rightarrow> bool" where
  "queues H m qs =
     ((\<forall>h \<in> set H. ring m h (qs h)) \<and>
      (\<forall>h \<in> set H. \<forall>k \<in> set H. h \<noteq> k \<longrightarrow> set (h # qs h) \<inter> set (k # qs k) = {}))"

text \<open>One use of a macro. \<open>Del\<close> names the queue its node is in, which the macro itself need not know.\<close>

datatype qop =
    Add qnode qnode | Add_tail qnode qnode | Del qnode qnode | Del_init qnode qnode | Splice_init qnode qnode

fun qop_mem :: "qop \<Rightarrow> iqueue_head \<Rightarrow> iqueue_head" where
  "qop_mem (Add n h) = iqueue_add n h"
| "qop_mem (Add_tail n h) = iqueue_add_tail n h"
| "qop_mem (Del n h) = iqueue_del n"
| "qop_mem (Del_init n h) = iqueue_del_init n"
| "qop_mem (Splice_init l h) = iqueue_splice_init l h"

text \<open>The same on lists.\<close>

fun qop_list :: "qop \<Rightarrow> (qnode \<Rightarrow> qnode list) \<Rightarrow> (qnode \<Rightarrow> qnode list)" where
  "qop_list (Add n h) qs = qs(h := n # qs h)"
| "qop_list (Add_tail n h) qs = qs(h := qs h @ [n])"
| "qop_list (Del n h) qs = qs(h := remove1 n (qs h))"
| "qop_list (Del_init n h) qs = qs(h := remove1 n (qs h))"
| "qop_list (Splice_init l h) qs = qs(l := [], h := qs l @ qs h)"

definition unused :: "qnode list \<Rightarrow> (qnode \<Rightarrow> qnode list) \<Rightarrow> qnode \<Rightarrow> bool" where
  "unused H qs n = (n \<noteq> 0 \<and> (\<forall>h \<in> set H. n \<notin> set (h # qs h)))"

fun qop_ok :: "qnode list \<Rightarrow> qop \<Rightarrow> (qnode \<Rightarrow> qnode list) \<Rightarrow> bool" where
  "qop_ok H (Add n h) qs = (h \<in> set H \<and> unused H qs n)"
| "qop_ok H (Add_tail n h) qs = (h \<in> set H \<and> unused H qs n)"
| "qop_ok H (Del n h) qs = (h \<in> set H \<and> n \<in> set (qs h))"
| "qop_ok H (Del_init n h) qs = (h \<in> set H \<and> n \<in> set (qs h))"
| "qop_ok H (Splice_init l h) qs = (l \<in> set H \<and> h \<in> set H \<and> l \<noteq> h)"

lemma queues_ring: "queues H m qs \<Longrightarrow> h \<in> set H \<Longrightarrow> ring m h (qs h)"
  by (simp add: queues_def)

lemma queues_apart: "queues H m qs \<Longrightarrow> h \<in> set H \<Longrightarrow> k \<in> set H \<Longrightarrow> h \<noteq> k \<Longrightarrow>
    set (h # qs h) \<inter> set (k # qs k) = {}"
  unfolding queues_def by blast

lemma queues_change:
  assumes "queues H m qs" and "h \<in> set H" and "ring m' h xs"
    and "only_at A m m'" and "A \<subseteq> set (h # qs h) \<union> N" and "set xs \<subseteq> set (qs h) \<union> N"
    and "\<And>k. k \<in> set H \<Longrightarrow> N \<inter> set (k # qs k) = {}"
  shows "queues H m' (qs(h := xs))"
  unfolding queues_def
proof (intro conjI ballI impI)
  have apart: "(set (h # qs h) \<union> N) \<inter> set (k # qs k) = {}" if "k \<in> set H" "k \<noteq> h" for k
    using that assms(7) [OF that(1)] queues_apart [OF assms(1,2) that(1)] by blast
  show "ring m' k ((qs(h := xs)) k)" if "k \<in> set H" for k
  proof (cases "k = h")
    case False
    have "A \<inter> set (k # qs k) = {}" using apart [OF that False] assms(5) by blast
    then show ?thesis using ring_frame [OF queues_ring [OF assms(1) that] assms(4)] False by simp
  qed (simp add: assms(3))
  show "set (j # (qs(h := xs)) j) \<inter> set (k # (qs(h := xs)) k) = {}"
    if "j \<in> set H" "k \<in> set H" "j \<noteq> k" for j k
    using that apart [of j] apart [of k] assms(6) queues_apart [OF assms(1) that]
    by (cases "j = h"; cases "k = h") (simp, auto)
qed

lemma unused_apart: "unused H qs n \<Longrightarrow> k \<in> set H \<Longrightarrow> {n} \<inter> set (k # qs k) = {}"
  by (auto simp: unused_def)

lemma queues_add:
  assumes "queues H m qs" and "h \<in> set H" and "unused H qs n"
  shows "queues H (iqueue_add n h m) (qs(h := n # qs h))"
    and "queues H (iqueue_add_tail n h m) (qs(h := qs h @ [n]))"
  using assms unused_apart [OF assms(3)] queues_ring [OF assms(1,2)]
  by (auto intro!: queues_change [OF assms(1,2), where N = "{n}"] add_ring add_only add_tail_ring
      add_tail_only simp: unused_def)

lemma queues_del:
  assumes "queues H m qs" and "h \<in> set H" and "n \<in> set (qs h)"
  shows "queues H (iqueue_del n m) (qs(h := remove1 n (qs h)))"
proof -
  note r = queues_ring [OF assms(1,2)]
  obtain as bs where q: "qs h = as @ n # bs" using split_list [OF assms(3)] by blast
  have "n \<notin> set as" using r by (simp add: ring_def q)
  then have "ring (iqueue_del n m) h (remove1 n (qs h))"
    using del_ring r by (simp add: q remove1_append)
  then show ?thesis
    by (rule queues_change [OF assms(1,2) _ del_only [OF r assms(3)], where N = "{}"])
      (auto dest: set_remove1_subset [THEN subsetD])
qed

lemma queues_free_node:
  assumes "queues H m qs" and "only_at {n} m m'" and "\<And>k. k \<in> set H \<Longrightarrow> n \<notin> set (k # qs k)"
  shows "queues H m' qs"
  using assms ring_frame [OF _ assms(2)] unfolding queues_def by blast

lemma queues_splice_init:
  assumes "queues H m qs" and "l \<in> set H" and "h \<in> set H" and "l \<noteq> h"
  shows "queues H (iqueue_splice_init l h m) (qs(l := [], h := qs l @ qs h))"
proof -
  let ?m = "iqueue_splice l h m" and ?m' = "iqueue_splice_init l h m"
  note r = queues_ring [OF assms(1,2)] queues_ring [OF assms(1,3)]
  note d = queues_apart [OF assms]
  have l: "l \<notin> set (qs l @ qs h)" "l \<noteq> 0" using r d by (auto simp: ring_def)
  have i: "only_at {l} ?m ?m'" by (simp add: iqueue_splice_init_def init_only)
  then have o: "only_at (set (l # qs l) \<union> set (h # qs h)) m ?m'"
    using splice_only [OF r] by (auto simp: only_at_def)
  have h: "ring ?m' h (qs l @ qs h)"
    using ring_frame [OF splice_ring [OF r d] i] l assms(4) by simp
  have e: "ring ?m' l []" using l(2) by (simp add: iqueue_splice_init_def init_ring)
  have k: "ring ?m' k (qs k)" if "k \<in> set H" "k \<noteq> l" "k \<noteq> h" for k
    using ring_frame [OF queues_ring [OF assms(1) that(1)] o]
      queues_apart [OF assms(1,2) that(1)] queues_apart [OF assms(1,3) that(1)] that by blast
  have a: "set (h # qs l @ qs h) \<inter> set (k # qs k) = {}" if "k \<in> set H" "k \<noteq> l" "k \<noteq> h" for k
    using queues_apart [OF assms(1,2) that(1)] queues_apart [OF assms(1,3) that(1)] that by auto
  have b: "l \<notin> set (k # qs k)" if "k \<in> set H" "k \<noteq> l" for k
    using queues_apart [OF assms(1,2) that(1)] that by auto
  show ?thesis
    unfolding queues_def
  proof (intro conjI ballI impI)
    show "ring ?m' j ((qs(l := [], h := qs l @ qs h)) j)" if "j \<in> set H" for j
      using that h e k by simp
    show "set (i # (qs(l := [], h := qs l @ qs h)) i) \<inter> set (j # (qs(l := [], h := qs l @ qs h)) j) = {}"
      if "i \<in> set H" "j \<in> set H" "i \<noteq> j" for i j
      using that a [of i] a [of j] b [of i] b [of j] l assms(4) queues_apart [OF assms(1) that]
      by (cases "i = h"; cases "j = h"; cases "i = l"; cases "j = l") auto
  qed
qed

section \<open>Sequences of operations\<close>

text \<open>
  A memory that represents an abstract value: operations that are allowed keep the representation,
  so a whole sequence of them does.
\<close>

fun run_ops :: "('o \<Rightarrow> 's \<Rightarrow> 's) \<Rightarrow> 'o list \<Rightarrow> 's \<Rightarrow> 's" where
  "run_ops f [] s = s"
| "run_ops f (x # xs) s = run_ops f xs (f x s)"

fun ops_ok :: "('o \<Rightarrow> 'a \<Rightarrow> bool) \<Rightarrow> ('o \<Rightarrow> 'a \<Rightarrow> 'a) \<Rightarrow> 'o list \<Rightarrow> 'a \<Rightarrow> bool" where
  "ops_ok ok g [] a = True"
| "ops_ok ok g (x # xs) a = (ok x a \<and> ops_ok ok g xs (g x a))"

locale memory_refinement =
  fixes rep :: "'m \<Rightarrow> 'a \<Rightarrow> bool"
    and mem_op :: "'o \<Rightarrow> 'm \<Rightarrow> 'm"
    and abs_op :: "'o \<Rightarrow> 'a \<Rightarrow> 'a"
    and allowed :: "'o \<Rightarrow> 'a \<Rightarrow> bool"
  assumes simulates: "rep m a \<Longrightarrow> allowed x a \<Longrightarrow> rep (mem_op x m) (abs_op x a)"
begin

lemma run_simulates: "rep m a \<Longrightarrow> ops_ok allowed abs_op xs a \<Longrightarrow> rep (run_ops mem_op xs m) (run_ops abs_op xs a)"
  by (induction xs arbitrary: m a) (auto intro: simulates)

end

lemma queues_step: "queues H m qs \<Longrightarrow> qop_ok H x qs \<Longrightarrow> queues H (qop_mem x m) (qop_list x qs)"
proof (cases x)
  case (Del_init n h)
  assume q: "queues H m qs" and ok: "qop_ok H x qs"
  have d: "queues H (iqueue_del n m) (qs(h := remove1 n (qs h)))"
    using queues_del [OF q] ok Del_init by simp
  have "n \<notin> set (k # (qs(h := remove1 n (qs h))) k)" if "k \<in> set H" for k
    using ok Del_init queues_ring [OF q, of h] queues_apart [OF q, of h k] that
    by (cases "k = h") (auto simp: ring_def)
  then show ?thesis
    using queues_free_node [OF d init_only] Del_init by (simp add: iqueue_del_init_def)
qed (auto simp: queues_add queues_del queues_splice_init)

interpretation iq: memory_refinement "queues H" qop_mem qop_list "qop_ok H" for H
  by unfold_locales (rule queues_step)

lemma queues_init:
  assumes "distinct H" and "0 \<notin> set H"
  shows "queues H (run_ops iqueue_init H m) (\<lambda>_. [])"
proof -
  have keep: "q_next (run_ops iqueue_init H m) k = q_next m k \<and> q_prev (run_ops iqueue_init H m) k = q_prev m k"
    if "k \<notin> set H" for H m k
    using that by (induction H arbitrary: m) (auto simp: macro_defs)
  have "ring (run_ops iqueue_init H m) k []" if "k \<in> set H" for k
    using that assms
  proof (induction H arbitrary: m)
    case (Cons h H)
    then show ?case using keep [of h H "iqueue_init h m"] init_ring [of h m] by (auto simp: ring_def)
  qed simp
  then show ?thesis by (auto simp: queues_def)
qed

text \<open>
  C24. The queue macros of \<open>ikcp.h\<close> implement lists: after \<open>iqueue_init\<close> of the heads of any number of
  queues (a control block has four) and any sequence of insertions of unused nodes at either end,
  removals of queued nodes and splicings, the loop over each queue ends and visits exactly the nodes
  that the same sequence of list operations leaves in it, and \<open>iqueue_is_empty\<close> tells whether that
  list is empty. No operation on one queue disturbs another.
\<close>

theorem iqueue_refines:
  assumes "distinct H" and "0 \<notin> set H" and "ops_ok (qop_ok H) qop_list ops (\<lambda>_. [])" and "h \<in> set H"
  shows "let m = run_ops qop_mem ops (run_ops iqueue_init H m0); qs = run_ops qop_list ops (\<lambda>_. [])
         in iqueue_foreach_entry m h = Some (qs h) \<and> iqueue_is_empty h m = (qs h = [])"
  using queues_ring [OF iq.run_simulates [OF queues_init [OF assms(1,2)] assms(3)] assms(4)]
  by (simp add: Let_def ring_walk ring_empty)

theorem iqueue_refines_witness:
  "iqueue_foreach_entry
     (run_ops qop_mem [Add_tail 5 1, Add_tail 6 1, Add_tail 7 2, Del 5 1, Add 5 2, Splice_init 1 2]
        (run_ops iqueue_init [1, 2] \<lparr>q_next = (\<lambda>_. 0), q_prev = (\<lambda>_. 0)\<rparr>)) 2 = Some [6, 5, 7]"
  using iqueue_refines [of "[1, 2]" "[Add_tail 5 1, Add_tail 6 1, Add_tail 7 2, Del 5 1, Add 5 2, Splice_init 1 2]" 2
      "\<lparr>q_next = (\<lambda>_. 0), q_prev = (\<lambda>_. 0)\<rparr>"]
  by (simp add: unused_def Let_def)

end
