(* ===== verification/Thread_Pool.thy ===== *)
theory Thread_Pool
  imports Prelude
begin

text \<open>
  The thread pool in C++, \<open>src/epoll_study/thread_pools.h\<close> (\<open>thread_pool_yjs.cpp\<close> holds the same
  functions). Workers, callers of \<open>commit\<close> and the destructor interleave between their operations on
  the mutex, the condition variable and the atomic \<open>stop\<close>. A task is its name; that it ends is a
  step of its own.
\<close>

section \<open>State\<close>

text \<open>
  Where a worker is: at the test of its loop, waiting for the mutex, inside with the mutex and about to
  test the condition, about to block (the condition was false), blocked, executing a task, ended.
\<close>

datatype 'a worker_at = Top | Locking | Testing | Blocking | Waiting | Running 'a | Ended

text \<open>
  The members of the class. Besides: the calls of \<open>commit\<close> that have passed the test of \<open>stop\<close> and not
  yet queued their task, the number of those that have queued it and not yet notified, whether the
  destructor waits in its joins, and as ghost state the tasks queued and the tasks started so far.
\<close>

record 'a thread_pool =
  stop :: bool
  idlThrNum :: int
  tasks :: "'a list"
  pools :: "'a worker_at list"
  lock :: "nat option"
  admitted :: "'a list"
  notifies :: nat
  joining :: bool
  committed :: "'a list"
  started :: "'a list"

datatype pool_error = Pool_stopped

definition THREADPOOL_MAX_NUM :: int where "THREADPOOL_MAX_NUM = 16"

section \<open>Operations\<close>

text \<open>The loop that makes the threads: the counter is unsigned, the parameter is signed.\<close>

function create_loop :: "u64 \<Rightarrow> u64 \<Rightarrow> 'a worker_at list \<Rightarrow> 'a worker_at list" where
  "create_loop threads i ws =
     (if i < threads \<and> sint threads < THREADPOOL_MAX_NUM then create_loop threads (i + 1) (ws @ [Top]) else ws)"
  by pat_completeness auto
termination
proof (relation "measure (\<lambda>(threads, i, ws). unat threads - unat i)")
  fix threads i :: u64 and ws :: "'a worker_at list"
  assume "i < threads \<and> sint threads < THREADPOOL_MAX_NUM"
  then have "i < threads" ..
  moreover from this have "unat (i + 1) = unat i + 1"
    using unsigned_less [of threads, where 'a = nat] by (simp add: word_less_nat_alt unat_add_lem [THEN iffD1])
  ultimately show "((threads, i + 1, ws @ [Top]), (threads, i, ws)) \<in> measure (\<lambda>(threads, i, ws). unat threads - unat i)"
    by (simp add: word_less_nat_alt)
qed simp

declare create_loop.simps [simp del]

definition create_threadpool :: "int \<Rightarrow> 'a thread_pool" where
  "create_threadpool threads =
     \<lparr>stop = False, idlThrNum = 0, tasks = [], pools = create_loop (word_of_int threads) 0 [], lock = None,
      admitted = [], notifies = 0, joining = False, committed = [], started = []\<rparr>"

text \<open>The next step of worker \<open>w\<close>; \<open>None\<close> when it cannot make one.\<close>

definition pool_worker_step :: "nat \<Rightarrow> 'a thread_pool \<Rightarrow> 'a thread_pool option" where
  "pool_worker_step w p =
     (case pools p ! w of
        Top \<Rightarrow>
          if stop p then Some (p\<lparr>idlThrNum := idlThrNum p + 1, pools := (pools p)[w := Ended]\<rparr>)
          else Some (p\<lparr>pools := (pools p)[w := Locking]\<rparr>)
      | Locking \<Rightarrow>
          if lock p = None then Some (p\<lparr>lock := Some w, pools := (pools p)[w := Testing]\<rparr>) else None
      | Testing \<Rightarrow>
          if stop p \<or> tasks p \<noteq> []
          then (case tasks p of
                  [] \<Rightarrow> Some (p\<lparr>lock := None, pools := (pools p)[w := Ended]\<rparr>)
                | t # ts \<Rightarrow> Some (p\<lparr>tasks := ts, idlThrNum := idlThrNum p - 1, pools := (pools p)[w := Running t],
                                    started := started p @ [t]\<rparr>))
          else Some (p\<lparr>pools := (pools p)[w := Blocking]\<rparr>)
      | Blocking \<Rightarrow> Some (p\<lparr>lock := None, pools := (pools p)[w := Waiting]\<rparr>)
      | Waiting \<Rightarrow> None
      | Running t \<Rightarrow> Some (p\<lparr>idlThrNum := idlThrNum p + 1, lock := None, pools := (pools p)[w := Top]\<rparr>)
      | Ended \<Rightarrow> None)"

text \<open>\<open>commit\<close>: the test of \<open>stop\<close>, the critical section, and the notification after it.\<close>

definition commit_check :: "'a \<Rightarrow> 'a thread_pool \<Rightarrow> pool_error + 'a thread_pool" where
  "commit_check t p = (if stop p then Inl Pool_stopped else Inr (p\<lparr>admitted := t # admitted p\<rparr>))"

definition commit_push :: "'a \<Rightarrow> 'a thread_pool \<Rightarrow> 'a thread_pool option" where
  "commit_push t p =
     (if t \<in> set (admitted p) \<and> lock p = None
      then Some (p\<lparr>admitted := remove1 t (admitted p), tasks := tasks p @ [t], notifies := notifies p + 1,
                   committed := committed p @ [t]\<rparr>)
      else None)"

text \<open>\<open>notify_one\<close> wakes some blocked worker \<open>w\<close>, or nobody when nobody is blocked.\<close>

definition commit_notify :: "nat \<Rightarrow> 'a thread_pool \<Rightarrow> 'a thread_pool option" where
  "commit_notify w p =
     (if notifies p = 0 then None
      else if w < length (pools p) \<and> pools p ! w = Waiting
           then Some (p\<lparr>notifies := notifies p - 1, pools := (pools p)[w := Locking]\<rparr>)
      else if Waiting \<in> set (pools p) then None
      else Some (p\<lparr>notifies := notifies p - 1\<rparr>))"

text \<open>The destructor: \<open>stop\<close> is set without the mutex; then all blocked workers are woken.\<close>

definition pool_stop :: "'a thread_pool \<Rightarrow> 'a thread_pool" where
  "pool_stop p = p\<lparr>stop := True\<rparr>"

definition pool_notify_all :: "'a thread_pool \<Rightarrow> 'a thread_pool" where
  "pool_notify_all p = p\<lparr>joining := True, pools := map (\<lambda>x. if x = Waiting then Locking else x) (pools p)\<rparr>"

definition free_thread_count :: "'a thread_pool \<Rightarrow> int" where
  "free_thread_count p = idlThrNum p"

definition thread_count :: "'a thread_pool \<Rightarrow> nat" where
  "thread_count p = length (pools p)"

section \<open>Runs\<close>

inductive pool_step :: "'a thread_pool \<Rightarrow> 'a thread_pool \<Rightarrow> bool" where
  worker: "w < length (pools p) \<Longrightarrow> pool_worker_step w p = Some p' \<Longrightarrow> pool_step p p'"
| check: "commit_check t p = Inr p' \<Longrightarrow> pool_step p p'"
| push: "commit_push t p = Some p' \<Longrightarrow> pool_step p p'"
| notify: "commit_notify w p = Some p' \<Longrightarrow> pool_step p p'"
| spurious: "w < length (pools p) \<Longrightarrow> pools p ! w = Waiting \<Longrightarrow> pool_step p (p\<lparr>pools := (pools p)[w := Locking]\<rparr>)"
| stop: "\<not> stop p \<Longrightarrow> pool_step p (pool_stop p)"
| notify_all: "stop p \<Longrightarrow> \<not> joining p \<Longrightarrow> pool_step p (pool_notify_all p)"

text \<open>
  What happens without a new caller and without spurious wake-ups: the workers go on, and a call of
  \<open>commit\<close> that has queued its task notifies.
\<close>

inductive pool_move :: "'a thread_pool \<Rightarrow> 'a thread_pool \<Rightarrow> bool" where
  worker: "w < length (pools p) \<Longrightarrow> pool_worker_step w p = Some p' \<Longrightarrow> pool_move p p'"
| notify: "commit_notify w p = Some p' \<Longrightarrow> pool_move p p'"

text \<open>
  \<open>P\<close> is bound to become true: it holds now, or something can move and after every possible move it is
  bound to become true.
\<close>

inductive bound_to :: "('a thread_pool \<Rightarrow> bool) \<Rightarrow> 'a thread_pool \<Rightarrow> bool" for P where
  now: "P p \<Longrightarrow> bound_to P p"
| later: "pool_move p p' \<Longrightarrow> (\<And>p'. pool_move p p' \<Longrightarrow> bound_to P p') \<Longrightarrow> bound_to P p"

inductive pool_run :: "int \<Rightarrow> 'a thread_pool \<Rightarrow> bool" for n where
  start: "pool_run n (create_threadpool n)"
| step: "pool_run n p \<Longrightarrow> pool_step p p' \<Longrightarrow> pool_run n p'"

section \<open>Invariant\<close>

text \<open>A worker holds the mutex exactly between taking it and giving it back.\<close>

fun holding :: "'a worker_at \<Rightarrow> bool" where
  "holding Testing = True"
| "holding Blocking = True"
| "holding (Running t) = True"
| "holding _ = False"

definition lock_inv :: "'a thread_pool \<Rightarrow> bool" where
  "lock_inv p \<longleftrightarrow> (\<forall>w < length (pools p). holding (pools p ! w) \<longleftrightarrow> lock p = Some w) \<and>
     (\<forall>v. lock p = Some v \<longrightarrow> v < length (pools p))"

definition task_inv :: "'a thread_pool \<Rightarrow> bool" where
  "task_inv p \<longleftrightarrow> committed p = started p @ tasks p \<and> (Blocking \<in> set (pools p) \<longrightarrow> tasks p = []) \<and>
     (\<forall>t. Running t \<in> set (pools p) \<longrightarrow> (\<exists>ts. started p = ts @ [t]))"

definition running_count :: "'a worker_at list \<Rightarrow> nat" where
  "running_count ws = length (filter (\<lambda>x. \<exists>t. x = Running t) ws)"

definition wake_inv :: "'a thread_pool \<Rightarrow> bool" where
  "wake_inv p \<longleftrightarrow> \<not> stop p \<longrightarrow>
     Ended \<notin> set (pools p) \<and> idlThrNum p = - int (running_count (pools p)) \<and>
     (tasks p \<noteq> [] \<and> set (pools p) \<subseteq> {Waiting} \<longrightarrow> notifies p > 0 \<or> pools p = [])"

lemma pool_worker_step_cases:
  assumes "pool_worker_step w p = Some p'"
  obtains (leave) "pools p ! w = Top" "stop p" "p' = p\<lparr>idlThrNum := idlThrNum p + 1, pools := (pools p)[w := Ended]\<rparr>"
  | (enter) "pools p ! w = Top" "\<not> stop p" "p' = p\<lparr>pools := (pools p)[w := Locking]\<rparr>"
  | (take_lock) "pools p ! w = Locking" "lock p = None" "p' = p\<lparr>lock := Some w, pools := (pools p)[w := Testing]\<rparr>"
  | (return) "pools p ! w = Testing" "stop p" "tasks p = []" "p' = p\<lparr>lock := None, pools := (pools p)[w := Ended]\<rparr>"
  | (run) t ts where "pools p ! w = Testing" "tasks p = t # ts"
      "p' = p\<lparr>tasks := ts, idlThrNum := idlThrNum p - 1, pools := (pools p)[w := Running t], started := started p @ [t]\<rparr>"
  | (idle) "pools p ! w = Testing" "\<not> stop p" "tasks p = []" "p' = p\<lparr>pools := (pools p)[w := Blocking]\<rparr>"
  | (block) "pools p ! w = Blocking" "p' = p\<lparr>lock := None, pools := (pools p)[w := Waiting]\<rparr>"
  | (finish) t where "pools p ! w = Running t"
      "p' = p\<lparr>idlThrNum := idlThrNum p + 1, lock := None, pools := (pools p)[w := Top]\<rparr>"
  using assms by (auto simp: pool_worker_step_def split: worker_at.splits if_splits list.splits)

lemma holding_unique: "lock_inv p \<Longrightarrow> w < length (pools p) \<Longrightarrow> lock p = Some w \<Longrightarrow> x \<in> set (pools p) \<Longrightarrow> holding x \<Longrightarrow> x = pools p ! w"
  by (auto simp: lock_inv_def in_set_conv_nth)

lemma holding_none: "lock_inv p \<Longrightarrow> lock p = None \<Longrightarrow> x \<in> set (pools p) \<Longrightarrow> \<not> holding x"
  by (auto simp: lock_inv_def in_set_conv_nth)

lemma lock_inv_change:
  assumes "lock_inv p" and "w < length (pools p)" and "pools p' = (pools p)[w := x]"
    and "lock p' = (if holding x then Some w else if holding (pools p ! w) then None else lock p)"
    and "holding x \<Longrightarrow> holding (pools p ! w) \<or> lock p = None"
  shows "lock_inv p'"
proof -
  have own: "holding (pools p ! v) \<longleftrightarrow> lock p = Some v" if "v < length (pools p)" for v
    using assms(1) that by (simp add: lock_inv_def)
  moreover have "v < length (pools p)" if "lock p = Some v" for v using assms(1) that by (simp add: lock_inv_def)
  ultimately show ?thesis
    using assms(2-5) own [OF assms(2)] by (auto simp: lock_inv_def nth_list_update split: if_splits)
qed

lemma commit_notify_cases:
  assumes "commit_notify w p = Some p'"
  obtains (wake) "w < length (pools p)" "pools p ! w = Waiting" "p' = p\<lparr>notifies := notifies p - 1, pools := (pools p)[w := Locking]\<rparr>"
  | (nobody) "Waiting \<notin> set (pools p)" "p' = p\<lparr>notifies := notifies p - 1\<rparr>"
  using assms by (auto simp: commit_notify_def split: if_splits)

lemma lock_inv_step: "lock_inv p \<Longrightarrow> pool_step p p' \<Longrightarrow> lock_inv p'"
proof (erule pool_step.cases)
  fix w q q'
  assume *: "lock_inv p" "p = q" "p' = q'" "w < length (pools q)" "pool_worker_step w q = Some q'"
  then have own: "holding (pools q ! w) \<Longrightarrow> lock q = Some w" by (simp add: lock_inv_def)
  from *(5) show ?thesis
    by (cases rule: pool_worker_step_cases) (use * own in \<open>auto intro: lock_inv_change [of p w]\<close>)
next
  fix w q q'
  assume *: "lock_inv p" "p = q" "p' = q'" "commit_notify w q = Some q'"
  from *(4) show ?thesis
  proof (cases rule: commit_notify_cases)
    case wake
    with * show ?thesis by (auto intro: lock_inv_change [of q w _ Locking])
  next
    case nobody
    with * show ?thesis by (simp add: lock_inv_def)
  qed
next
  fix w q
  assume "lock_inv p" "p = q" "p' = q\<lparr>pools := (pools q)[w := Locking]\<rparr>" "w < length (pools q)" "pools q ! w = Waiting"
  then show ?thesis by (auto intro: lock_inv_change [of q w _ Locking])
qed (auto simp: lock_inv_def commit_check_def commit_push_def pool_stop_def pool_notify_all_def split: if_splits)

lemma in_update: "y \<in> set (xs[w := x]) \<Longrightarrow> y = x \<or> y \<in> set xs"
  using set_update_subset_insert [of xs w x] by auto

lemma task_inv_change:
  assumes "task_inv p" and "pools p' = (pools p)[w := x]" and "\<not> holding x"
    and "committed p' = committed p" "started p' = started p" "tasks p' = tasks p"
  shows "task_inv p'"
  using assms by (auto simp: task_inv_def dest!: in_update)

lemma task_inv_step: "task_inv p \<Longrightarrow> lock_inv p \<Longrightarrow> pool_step p p' \<Longrightarrow> task_inv p'"
proof (erule pool_step.cases)
  fix w q q'
  assume *: "task_inv p" "lock_inv p" "p = q" "p' = q'" "w < length (pools q)" "pool_worker_step w q = Some q'"
  note chg = task_inv_change [OF *(1), where w = w]
  have own: "lock p = Some w" if "holding (pools p ! w)" using *(2,3,5) that by (simp add: lock_inv_def)
  from *(6) show ?thesis
  proof (cases rule: pool_worker_step_cases)
    case take_lock
    then show ?thesis using * by (auto simp: task_inv_def dest!: in_update)
  next
    case (run t ts)
    have "lock p = Some w" using own run(1) *(3) by simp
    from holding_unique [OF *(2) _ this] have "x = Testing" if "x \<in> set (pools p)" "holding x" for x
      using that run(1) *(3,5) by auto
    from this [of Blocking] this [of "Running t" for t] have "Blocking \<notin> set (pools p)" "Running t \<notin> set (pools p)" for t
      by auto
    with run * show ?thesis by (auto simp: task_inv_def dest!: in_update)
  next
    case idle
    then show ?thesis using * by (auto simp: task_inv_def dest!: in_update)
  qed (use * in \<open>auto intro: chg\<close>)
next
  fix t q q'
  assume "task_inv p" "lock_inv p" "p = q" "p' = q'" "commit_push t q = Some q'"
  then show ?thesis
    using holding_none [of p Blocking] by (auto simp: task_inv_def commit_push_def split: if_splits)
qed (auto simp: task_inv_def commit_check_def commit_notify_def pool_stop_def pool_notify_all_def split: if_splits dest!: in_update)

lemma running_count_update:
  "w < length ws \<Longrightarrow> int (running_count (ws[w := x])) =
     int (running_count ws) - of_bool (\<exists>t. ws ! w = Running t) + of_bool (\<exists>t. x = Running t)"
proof (induction ws arbitrary: w)
  case (Cons y ws)
  then show ?case by (cases w) (auto simp: running_count_def)
qed simp

lemma some_awake: "w < length ws \<Longrightarrow> x \<noteq> Waiting \<Longrightarrow> \<not> set (ws[w := x]) \<subseteq> {Waiting}"
  using set_update_memI [of w ws x] by auto

lemma wake_inv_step: "wake_inv p \<Longrightarrow> task_inv p \<Longrightarrow> pool_step p p' \<Longrightarrow> wake_inv p'"
proof (erule pool_step.cases)
  fix w q q'
  assume *: "wake_inv p" "task_inv p" "p = q" "p' = q'" "w < length (pools q)" "pool_worker_step w q = Some q'"
  have b: "pools q ! w = Blocking \<Longrightarrow> tasks q = []" using *(2,3,5) nth_mem [of w "pools q"] by (auto simp: task_inv_def)
  from *(6) show ?thesis
    by (cases rule: pool_worker_step_cases)
      (use * some_awake [OF *(5)] b in \<open>auto simp: wake_inv_def running_count_update dest!: in_update\<close>)
next
  fix w q q'
  assume *: "wake_inv p" "p = q" "p' = q'" "commit_notify w q = Some q'"
  from *(4) show ?thesis
  proof (cases rule: commit_notify_cases)
    case wake
    with * some_awake [of w "pools q" Locking] show ?thesis by (auto simp: wake_inv_def running_count_update dest!: in_update)
  next
    case nobody
    then have "set (pools q) \<subseteq> {Waiting} \<Longrightarrow> pools q = []" by (cases "pools q") auto
    with nobody * show ?thesis by (auto simp: wake_inv_def)
  qed
next
  fix w q
  assume "wake_inv p" "p = q" "p' = q\<lparr>pools := (pools q)[w := Locking]\<rparr>" "w < length (pools q)" "pools q ! w = Waiting"
  then show ?thesis using some_awake [of w "pools q" Locking] by (auto simp: wake_inv_def running_count_update dest!: in_update)
qed (auto simp: wake_inv_def commit_check_def commit_push_def pool_stop_def pool_notify_all_def split: if_splits)

lemma create_loop_tops: "set ws \<subseteq> {Top} \<Longrightarrow> set (create_loop n i ws) \<subseteq> {Top}"
  by (induction n i ws rule: create_loop.induct) (subst create_loop.simps, auto)

lemma pool_run_inv: "pool_run n p \<Longrightarrow> lock_inv p \<and> task_inv p \<and> wake_inv p"
  for p :: "'a thread_pool"
proof (induction rule: pool_run.induct)
  case start
  let ?ws = "create_loop (word_of_int n) 0 [] :: 'a worker_at list"
  have t: "x = Top" if "x \<in> set ?ws" for x using create_loop_tops [of "[]"] that by auto
  then have "running_count ?ws = 0" by (force simp: running_count_def filter_empty_conv)
  moreover have "\<not> holding (?ws ! w)" if "w < length ?ws" for w using t [OF nth_mem [OF that]] by simp
  moreover have "Blocking \<notin> set ?ws" "Ended \<notin> set ?ws" "Running t \<notin> set ?ws" for t using t by auto
  ultimately show ?case
    by (simp add: create_threadpool_def lock_inv_def task_inv_def wake_inv_def)
next
  case (step p p')
  then show ?case using lock_inv_step task_inv_step wake_inv_step by blast
qed

section \<open>Progress\<close>

lemma pool_run_move: "pool_run n p \<Longrightarrow> pool_move p p' \<Longrightarrow> pool_run n p'"
  by (auto elim!: pool_move.cases intro: pool_run.step pool_step.intros)

text \<open>A pool with a queued task and a worker is not stuck.\<close>

lemma pool_not_stuck:
  assumes "lock_inv p" "task_inv p" "wake_inv p" and "\<not> stop p" and "tasks p \<noteq> []" and "0 < thread_count p"
  shows "\<exists>p'. pool_move p p'"
proof (cases "set (pools p) \<subseteq> {Waiting}")
  case True
  have "0 < length (pools p)" "notifies p > 0" using assms(3-6) True by (auto simp: wake_inv_def thread_count_def)
  moreover from this(1) nth_mem [OF this(1)] True have "pools p ! 0 = Waiting" by blast
  ultimately show ?thesis
    by (intro exI [of _ "p\<lparr>notifies := notifies p - 1, pools := (pools p)[0 := Locking]\<rparr>"] pool_move.notify [of 0])
      (simp add: commit_notify_def)
next
  case False
  then obtain v where v: "v < length (pools p)" "pools p ! v \<noteq> Waiting"
    unfolding subset_iff by (metis in_set_conv_nth singletonI)
  obtain w where w: "w < length (pools p)" "pools p ! w \<noteq> Waiting" "pools p ! w = Locking \<Longrightarrow> lock p = None"
  proof (cases "lock p")
    case (Some u)
    then have "u < length (pools p)" "holding (pools p ! u)" using assms(1) by (auto simp: lock_inv_def)
    then show ?thesis using that [of u] by fastforce
  qed (use that v in blast)
  have "pools p ! w \<noteq> Ended" using assms(3,4) nth_mem [OF w(1)] by (auto simp: wake_inv_def)
  with w(2,3) have "\<exists>p'. pool_worker_step w p = Some p'"
    by (cases "pools p ! w") (auto simp: pool_worker_step_def split: list.split)
  then show ?thesis using pool_move.worker [OF w(1)] by blast
qed

text \<open>How many moves a pool can make before it starts a task, at most.\<close>

fun moves_left :: "'a worker_at \<Rightarrow> nat" where
  "moves_left (Running t) = 3"
| "moves_left Top = 2"
| "moves_left Locking = 1"
| "moves_left Blocking = 1"
| "moves_left _ = 0"

definition pool_measure :: "'a thread_pool \<Rightarrow> nat" where
  "pool_measure p = sum_list (map moves_left (pools p)) + 2 * notifies p"

lemma moves_left_update:
  "w < length ws \<Longrightarrow> sum_list (map moves_left (ws[w := x])) + moves_left (ws ! w) = sum_list (map moves_left ws) + moves_left x"
  by (induction ws arbitrary: w) (auto split: nat.split simp: nth_Cons list_update.simps)

lemma moves_left_less:
  "w < length ws \<Longrightarrow> moves_left x < moves_left (ws ! w) \<Longrightarrow> sum_list (map moves_left (ws[w := x])) < sum_list (map moves_left ws)"
  using moves_left_update [of w ws x] by simp

lemma pool_move_effect:
  assumes "pool_move p p'" and "task_inv p" and "\<not> stop p" and "tasks p = t # ts"
  shows "started p' = started p @ [t] \<or>
    started p' = started p \<and> tasks p' = tasks p \<and> \<not> stop p' \<and> thread_count p' = thread_count p \<and> pool_measure p' < pool_measure p"
  using assms(1)
proof cases
  case (worker w)
  have "Blocking \<notin> set (pools p)" using assms(2,4) by (auto simp: task_inv_def)
  then have "pools p ! w \<noteq> Blocking" using nth_mem [OF worker(1)] by metis
  with worker(2) show ?thesis
    by (cases rule: pool_worker_step_cases)
      (use moves_left_less [OF worker(1)] assms(3,4) in \<open>auto simp: pool_measure_def thread_count_def\<close>)
next
  case (notify w)
  then have "0 < notifies p" by (auto simp: commit_notify_def split: if_splits)
  from notify show ?thesis
  proof (cases rule: commit_notify_cases)
    case wake
    with moves_left_update [of w "pools p" Locking] \<open>0 < notifies p\<close> assms(3) show ?thesis
      by (auto simp: pool_measure_def thread_count_def)
  qed (use \<open>0 < notifies p\<close> assms(3) in \<open>simp add: pool_measure_def thread_count_def\<close>)
qed

lemma pool_bound_to_start:
  assumes "pool_run n p" and "\<not> stop p" and "tasks p = t # ts" and "0 < thread_count p"
  shows "bound_to (\<lambda>p'. started p' = started p @ [t]) p"
  using assms
proof (induction "pool_measure p" arbitrary: p rule: less_induct)
  case less
  note inv = pool_run_inv [OF less.prems(1)]
  obtain q where q: "pool_move p q" using pool_not_stuck [of p] inv less.prems(2-4) by auto
  show ?case
  proof (rule bound_to.later [OF q])
    fix p' assume m: "pool_move p p'"
    from pool_move_effect [OF this _ less.prems(2,3)] inv
    consider "started p' = started p @ [t]"
      | "started p' = started p" "tasks p' = t # ts" "\<not> stop p'" "thread_count p' = thread_count p" "pool_measure p' < pool_measure p"
      using less.prems(3) by auto
    then show "bound_to (\<lambda>p'. started p' = started p @ [t]) p'"
    proof cases
      case 2
      then show ?thesis
        using less.hyps [OF 2(5) pool_run_move [OF less.prems(1) m]] less.prems(4) by simp
    qed (rule bound_to.now)
  qed
qed

section \<open>Properties\<close>

text \<open>
  C7. Tasks run in the order in which they were queued, each once, and one at a time: in every state of
  every interleaving the tasks started so far, followed by the queue, are the tasks queued so far; at most
  one worker executes a task, and that is the task started last. The number of idle threads the pool
  reports is 0 or -1 until it is stopped.
\<close>

theorem pool_serial_fifo:
  assumes "pool_run n p"
  shows "committed p = started p @ tasks p \<and>
    (\<forall>v < thread_count p. \<forall>t. pools p ! v = Running t \<longrightarrow>
       (\<exists>ts. started p = ts @ [t]) \<and> (\<forall>w < thread_count p. \<forall>t'. pools p ! w = Running t' \<longrightarrow> w = v)) \<and>
    (\<not> stop p \<longrightarrow> free_thread_count p \<in> {-1, 0})"
proof -
  have inv: "lock_inv p" "task_inv p" "wake_inv p" using pool_run_inv [OF assms] by simp_all
  have one: "w = v" if "v < length (pools p)" "w < length (pools p)" "pools p ! v = Running t" "pools p ! w = Running t'" for v w t t'
    using inv(1) that unfolding lock_inv_def by (metis holding.simps(3) option.inject)
  then have "running_count (pools p) \<le> Suc 0"
    unfolding running_count_def length_filter_conv_card by (subst card_le_Suc0_iff_eq) auto
  then have "\<not> stop p \<longrightarrow> free_thread_count p \<in> {-1, 0}"
    using inv(3) by (auto simp: wake_inv_def free_thread_count_def)
  moreover have "\<exists>ts. started p = ts @ [t]" if "v < length (pools p)" "pools p ! v = Running t" for v t
    using inv(2) nth_mem [OF that(1)] that(2) by (auto simp: task_inv_def)
  ultimately show ?thesis using one inv(2) by (auto simp: thread_count_def task_inv_def)
qed

text \<open>A run of a pool with one worker that has started its only task.\<close>

definition demo_pool :: "nat thread_pool" where
  "demo_pool =
     \<lparr>stop = False, idlThrNum = -1, tasks = [], pools = [Running 7], lock = Some 0, admitted = [], notifies = 1,
      joining = False, committed = [7], started = [7]\<rparr>"

lemma create_one: "create_threadpool 1 =
    \<lparr>stop = False, idlThrNum = 0, tasks = [], pools = [Top], lock = None, admitted = [], notifies = 0,
     joining = False, committed = [], started = []\<rparr>"
  by (simp add: create_threadpool_def create_loop.simps THREADPOOL_MAX_NUM_def)

lemma pool_run_worker: "pool_run n p \<Longrightarrow> w < length (pools p) \<Longrightarrow> pool_worker_step w p = Some p' \<Longrightarrow> pool_run n p'"
  by (rule pool_run.step [OF _ pool_step.worker])

lemma demo_pool_waiting_task: "pool_run 1 (demo_pool\<lparr>idlThrNum := 0, tasks := [7], pools := [Top], lock := None, started := []\<rparr>)"
proof -
  let ?p = "create_threadpool 1 :: nat thread_pool"
  have "pool_step ?p (?p\<lparr>admitted := [7]\<rparr>)"
    by (rule pool_step.check [of 7]) (simp add: commit_check_def create_one)
  note 1 = pool_run.step [OF pool_run.start this]
  have "pool_step (?p\<lparr>admitted := [7]\<rparr>) (demo_pool\<lparr>idlThrNum := 0, tasks := [7], pools := [Top], lock := None, started := []\<rparr>)"
    by (rule pool_step.push [of 7]) (simp add: commit_push_def create_one demo_pool_def)
  from pool_run.step [OF 1 this] show ?thesis .
qed

text \<open>The same when the worker was already blocked.\<close>

lemma demo_pool_asleep: "pool_run 1 (demo_pool\<lparr>idlThrNum := 0, tasks := [7], pools := [Waiting], lock := None, started := []\<rparr>)"
proof -
  let ?p = "create_threadpool 1 :: nat thread_pool"
  have 1: "pool_run 1 (?p\<lparr>pools := [Locking]\<rparr>)"
    by (rule pool_run_worker [OF pool_run.start, of 0]) (simp_all add: pool_worker_step_def create_one)
  have 2: "pool_run 1 (?p\<lparr>lock := Some 0, pools := [Testing]\<rparr>)"
    by (rule pool_run_worker [OF 1, of 0]) (simp_all add: pool_worker_step_def create_one)
  have 3: "pool_run 1 (?p\<lparr>lock := Some 0, pools := [Blocking]\<rparr>)"
    by (rule pool_run_worker [OF 2, of 0]) (simp_all add: pool_worker_step_def create_one)
  have 4: "pool_run 1 (?p\<lparr>pools := [Waiting]\<rparr>)"
    by (rule pool_run_worker [OF 3, of 0]) (simp_all add: pool_worker_step_def create_one)
  have "pool_step (?p\<lparr>pools := [Waiting]\<rparr>) (?p\<lparr>pools := [Waiting], admitted := [7]\<rparr>)"
    by (rule pool_step.check [of 7]) (simp add: commit_check_def create_one)
  note 5 = pool_run.step [OF 4 this]
  have "pool_step (?p\<lparr>pools := [Waiting], admitted := [7]\<rparr>)
      (demo_pool\<lparr>idlThrNum := 0, tasks := [7], pools := [Waiting], lock := None, started := []\<rparr>)"
    by (rule pool_step.push [of 7]) (simp add: commit_push_def create_one demo_pool_def)
  from pool_run.step [OF 5 this] show ?thesis .
qed

lemma demo_pool_run: "pool_run 1 demo_pool"
proof -
  note 1 = pool_run_worker [OF demo_pool_waiting_task, of 0]
  have 2: "pool_run 1 (demo_pool\<lparr>idlThrNum := 0, tasks := [7], pools := [Locking], lock := None, started := []\<rparr>)"
    by (rule 1) (simp_all add: pool_worker_step_def demo_pool_def)
  have 3: "pool_run 1 (demo_pool\<lparr>idlThrNum := 0, tasks := [7], pools := [Testing], started := []\<rparr>)"
    by (rule pool_run_worker [OF 2, of 0]) (simp_all add: pool_worker_step_def demo_pool_def)
  show ?thesis
    by (rule pool_run_worker [OF 3, of 0]) (simp_all add: pool_worker_step_def demo_pool_def)
qed

theorem pool_serial_fifo_witness:
  "pool_run 1 demo_pool \<and> pools demo_pool ! 0 = Running 7 \<and> (\<exists>ts. started demo_pool = ts @ [7]) \<and>
   free_thread_count demo_pool \<in> {-1, 0}"
  using pool_serial_fifo [OF demo_pool_run] demo_pool_run by (simp add: thread_count_def demo_pool_def)

text \<open>
  C21. Before the pool is stopped no wake-up is lost: from every state that an interleaving reaches in
  which a task is queued and there is a worker, the task at the head of the queue is bound to be started,
  in whatever order the workers and the notifications still to come proceed. The moves considered are
  only these: no spurious wake-up helps, and nobody commits another task or stops the pool; a task that
  is executed ends.
\<close>

theorem pool_progress:
  assumes "pool_run n p" and "\<not> stop p" and "tasks p = t # ts" and "0 < thread_count p"
  shows "bound_to (\<lambda>p'. started p' = started p @ [t]) p"
  by (rule pool_bound_to_start) (use assms in simp_all)

theorem pool_progress_witness:
  "bound_to (\<lambda>p'. started p' = [7]) (demo_pool\<lparr>idlThrNum := 0, tasks := [7], pools := [Waiting], lock := None, started := []\<rparr>)"
  using pool_progress [OF demo_pool_asleep, of 7 "[]"] by (simp add: demo_pool_def thread_count_def)

text \<open>A pool of one worker that has blocked after \<open>stop\<close> was set and notified.\<close>

definition dead_pool :: "nat thread_pool" where
  "dead_pool = (create_threadpool 1)\<lparr>stop := True, pools := [Waiting], joining := True\<rparr>"

text \<open>
  C38. The destructor can wait for ever. It sets \<open>stop\<close> and notifies without the mutex: a worker that has
  just found nothing to do and is about to block misses both. Then the destructor is in its join, the
  worker is blocked, and nobody will notify it again: only a spurious wake-up could free them.
\<close>

theorem stop_wakeup_lost:
  "pool_run 1 dead_pool \<and> joining dead_pool \<and> list_all (\<lambda>w. pool_worker_step w dead_pool = None) [0..<thread_count dead_pool] \<and>
   (\<forall>w. commit_notify w dead_pool = None) \<and> (\<forall>t. commit_check t dead_pool = Inl Pool_stopped \<and> commit_push t dead_pool = None)"
proof -
  let ?p = "create_threadpool 1 :: nat thread_pool"
  have 1: "pool_run 1 (?p\<lparr>pools := [Locking]\<rparr>)"
    by (rule pool_run_worker [OF pool_run.start, of 0]) (simp_all add: pool_worker_step_def create_one)
  have 2: "pool_run 1 (?p\<lparr>lock := Some 0, pools := [Testing]\<rparr>)"
    by (rule pool_run_worker [OF 1, of 0]) (simp_all add: pool_worker_step_def create_one)
  have 3: "pool_run 1 (?p\<lparr>lock := Some 0, pools := [Blocking]\<rparr>)"
    by (rule pool_run_worker [OF 2, of 0]) (simp_all add: pool_worker_step_def create_one)
  have 4: "pool_run 1 (pool_stop (?p\<lparr>lock := Some 0, pools := [Blocking]\<rparr>))"
    by (rule pool_run.step [OF 3 pool_step.stop]) (simp add: create_one)
  have 5: "pool_run 1 (pool_notify_all (pool_stop (?p\<lparr>lock := Some 0, pools := [Blocking]\<rparr>)))"
    by (rule pool_run.step [OF 4 pool_step.notify_all]) (simp_all add: pool_stop_def create_one)
  have "pool_run 1 dead_pool"
    by (rule pool_run_worker [OF 5, of 0])
      (simp_all add: pool_worker_step_def create_one dead_pool_def pool_notify_all_def pool_stop_def)
  then show ?thesis
    by (simp add: dead_pool_def create_one pool_worker_step_def commit_notify_def commit_check_def commit_push_def thread_count_def)
qed

text \<open>
  Workers leave their loop as soon as the pool is stopped, whatever is still queued: a task that was
  accepted need not be executed.
\<close>

lemma stop_drops_task:
  "\<exists>p :: nat thread_pool. pool_run 1 p \<and> joining p \<and> pools p = [Ended] \<and> tasks p = [7] \<and> committed p = [7]"
proof -
  let ?p = "demo_pool\<lparr>idlThrNum := 0, tasks := [7], pools := [Top], lock := None, started := []\<rparr>"
  have 1: "pool_run 1 (pool_stop ?p)"
    by (rule pool_run.step [OF demo_pool_waiting_task pool_step.stop]) (simp add: demo_pool_def)
  have 2: "pool_run 1 (pool_notify_all (pool_stop ?p))"
    by (rule pool_run.step [OF 1 pool_step.notify_all]) (simp_all add: pool_stop_def demo_pool_def)
  have "pool_run 1 ((pool_notify_all (pool_stop ?p))\<lparr>idlThrNum := 1, pools := [Ended]\<rparr>)"
    by (rule pool_run_worker [OF 2, of 0]) (simp_all add: pool_worker_step_def demo_pool_def pool_notify_all_def pool_stop_def)
  then show ?thesis by (intro exI conjI, assumption) (simp_all add: pool_notify_all_def pool_stop_def demo_pool_def)
qed

text \<open>A pool of 16 threads or more has none at all.\<close>

lemma too_many_threads: "16 \<le> n \<Longrightarrow> n < 2 ^ 63 \<Longrightarrow> thread_count (create_threadpool n) = 0"
  by (simp add: thread_count_def create_threadpool_def create_loop.simps THREADPOOL_MAX_NUM_def sint_sbintrunc'
      signed_take_bit_int_eq_self)

end
