(* ===== verification/Reactor.thy ===== *)
theory Reactor
  imports Std_String
begin

text \<open>
  What the callback servers of the repository share (\<open>src/websocket\<close>, \<open>src/epoll_reactor\<close>): the
  part of the Linux kernel they talk to (open descriptors and the interest list of one epoll
  instance), the heap of their \<open>sock_item\<close>s, the calls they make on both, and the event loop.

  Every call whose outcome the program does not determine takes the outcome as an argument, an
  \<open>answer\<close>. The loop runs over the events of one \<open>epoll_wait\<close> before it waits again.
\<close>

section \<open>Kernel and heap\<close>

datatype errno = EAGAIN | EINTR | ECONNABORTED | ENOTCONN | ETIMEDOUT | Errno nat

definition EPOLLIN :: u32 where "EPOLLIN = 0x001"
definition EPOLLOUT :: u32 where "EPOLLOUT = 0x004"
definition EPOLLERR :: u32 where "EPOLLERR = 0x008"
definition EPOLLHUP :: u32 where "EPOLLHUP = 0x010"
definition EPOLLET :: u32 where "EPOLLET = 0x80000000"

lemmas epoll_bits = EPOLLIN_def EPOLLOUT_def EPOLLERR_def EPOLLHUP_def EPOLLET_def

text \<open>The callbacks a \<open>sock_item\<close> can carry, and the events each is registered for.\<close>

datatype callback = Accept_cb | Recv_cb | Send_cb

fun cb_events :: "callback \<Rightarrow> u32" where
  "cb_events Accept_cb = EPOLLIN"
| "cb_events Recv_cb = EPOLLIN OR EPOLLET"
| "cb_events Send_cb = EPOLLOUT OR EPOLLET"

text \<open>The members all items have; each server extends the record by its own.\<close>

record item =
  sock_fd :: int
  callback :: callback

type_synonym addr = nat

text \<open>
  The interest list maps a descriptor to the events and the pointer registered for it.
  \<open>outbox\<close> records what was handed to \<open>send\<close>, \<open>printed\<close> what was printed about a message,
  \<open>brk\<close> is the next address \<open>malloc\<close> returns.
\<close>

record 'i server =
  interest :: "int \<Rightarrow> (u32 \<times> addr) option"
  open_fds :: "int set"
  heap :: "addr \<Rightarrow> 'i option"
  brk :: addr
  outbox :: "(int \<times> byte list) list"
  printed :: "(byte list \<times> int) list"

text \<open>An outcome of \<open>accept\<close> (a descriptor or a negative value) and of \<open>recv\<close>.\<close>

record answer =
  ans_accept :: int
  ans_recv :: "errno + byte list"

text \<open>\<open>recv\<close> with room for \<open>n\<close> bytes: the kernel delivers no more than that.\<close>

definition recv_n :: "nat \<Rightarrow> answer \<Rightarrow> errno + byte list" where
  "recv_n n a = (case ans_recv a of Inl e \<Rightarrow> Inl e | Inr d \<Rightarrow> Inr (take n d))"

text \<open>The three operations of \<open>epoll_ctl\<close>; their errors are ignored by all callers.\<close>

definition ctl_add :: "int \<Rightarrow> u32 \<Rightarrow> addr \<Rightarrow> 'i server \<Rightarrow> 'i server" where
  "ctl_add fd ev p s =
     (if fd \<in> open_fds s \<and> interest s fd = None then s\<lparr>interest := (interest s)(fd \<mapsto> (ev, p))\<rparr> else s)"

definition ctl_mod :: "int \<Rightarrow> u32 \<Rightarrow> addr \<Rightarrow> 'i server \<Rightarrow> 'i server" where
  "ctl_mod fd ev p s = (if interest s fd \<noteq> None then s\<lparr>interest := (interest s)(fd \<mapsto> (ev, p))\<rparr> else s)"

definition ctl_del :: "int \<Rightarrow> 'i server \<Rightarrow> 'i server" where
  "ctl_del fd s = s\<lparr>interest := (interest s)(fd := None)\<rparr>"

text \<open>Closing a descriptor also takes it off the interest list.\<close>

definition close_fd :: "int \<Rightarrow> 'i server \<Rightarrow> 'i server" where
  "close_fd fd s = s\<lparr>open_fds := open_fds s - {fd}, interest := (interest s)(fd := None)\<rparr>"

definition open_fd :: "int \<Rightarrow> 'i server \<Rightarrow> 'i server" where
  "open_fd fd s = (if 0 \<le> fd then s\<lparr>open_fds := insert fd (open_fds s)\<rparr> else s)"

definition free_item :: "addr \<Rightarrow> 'i server \<Rightarrow> 'i server" where
  "free_item p s = s\<lparr>heap := (heap s)(p := None)\<rparr>"

definition malloc_item :: "'i \<Rightarrow> 'i server \<Rightarrow> 'i server" where
  "malloc_item si s = s\<lparr>heap := (heap s)(brk s \<mapsto> si), brk := brk s + 1\<rparr>"

definition put_item :: "addr \<Rightarrow> 'i \<Rightarrow> 'i server \<Rightarrow> 'i server" where
  "put_item p si s = s\<lparr>heap := (heap s)(p \<mapsto> si)\<rparr>"

definition send_fd :: "int \<Rightarrow> byte list \<Rightarrow> 'i server \<Rightarrow> 'i server" where
  "send_fd fd d s = s\<lparr>outbox := outbox s @ [(fd, d)]\<rparr>"

definition print_msg :: "byte list \<Rightarrow> int \<Rightarrow> 'i server \<Rightarrow> 'i server" where
  "print_msg d n s = s\<lparr>printed := printed s @ [(d, n)]\<rparr>"

lemmas server_ops = ctl_add_def ctl_mod_def ctl_del_def close_fd_def open_fd_def free_item_def
  malloc_item_def put_item_def send_fd_def print_msg_def

section \<open>The event loop\<close>

text \<open>
  One ready event is the pair of its \<open>events\<close> and its \<open>data.ptr\<close>. The body of the loop calls
  the item's callback for \<open>EPOLLIN\<close> and, reading the item again, for \<open>EPOLLOUT\<close>.
\<close>

type_synonym ready = "u32 \<times> addr"

definition on_ready ::
  "('i server \<Rightarrow> addr \<Rightarrow> answer \<Rightarrow> fault + 'i server) \<Rightarrow> 'i server \<Rightarrow> ready \<Rightarrow> answer \<times> answer \<Rightarrow>
     fault + 'i server" where
  "on_ready call s e a =
     (case (if fst e AND EPOLLIN \<noteq> 0 then call s (snd e) (fst a) else Inr s) of
        Inl f \<Rightarrow> Inl f
      | Inr s \<Rightarrow> if fst e AND EPOLLOUT \<noteq> 0 then call s (snd e) (snd a) else Inr s)"

text \<open>What \<open>epoll_wait\<close> may report: registered events, errors and hang-ups of registered descriptors.\<close>

definition reported :: "'i server \<Rightarrow> ready \<Rightarrow> bool" where
  "reported s e \<longleftrightarrow> (\<exists>fd ev. interest s fd = Some (ev, snd e) \<and>
     fst e AND NOT (ev OR EPOLLERR OR EPOLLHUP) = 0)"

text \<open>\<open>accept\<close> returns a descriptor that is not open.\<close>

definition answer_ok :: "'i server \<Rightarrow> answer \<times> answer \<Rightarrow> bool" where
  "answer_ok s a \<longleftrightarrow> ans_accept (fst a) \<notin> open_fds s \<and> ans_accept (snd a) \<notin> open_fds s"

text \<open>
  The reachable configurations of a loop: the state and the ready events still to be handled.
  One call of \<open>epoll_wait\<close> reports an item at most once.
\<close>

inductive reaches ::
  "('i server \<Rightarrow> addr \<Rightarrow> answer \<Rightarrow> fault + 'i server) \<Rightarrow> 'i server \<Rightarrow> 'i server \<Rightarrow> ready list \<Rightarrow> bool"
  for call :: "'i server \<Rightarrow> addr \<Rightarrow> answer \<Rightarrow> fault + 'i server" and s0 :: "'i server" where
  start: "reaches call s0 s0 []"
| wait: "reaches call s0 s [] \<Longrightarrow> (\<And>e. e \<in> set es \<Longrightarrow> reported s e) \<Longrightarrow> distinct (map snd es) \<Longrightarrow>
    reaches call s0 s es"
| handle: "reaches call s0 s (e # es) \<Longrightarrow> answer_ok s a \<Longrightarrow> on_ready call s e a = Inr s' \<Longrightarrow>
    reaches call s0 s' es"

section \<open>Well-formed servers\<close>

text \<open>
  Every registered descriptor is open, its pointer leads to a live item that names the same
  descriptor, and the registered events are those of the item's callback.
\<close>

definition wf_server :: "'a item_scheme server \<Rightarrow> bool" where
  "wf_server s \<longleftrightarrow>
     (\<forall>fd ev p. interest s fd = Some (ev, p) \<longrightarrow>
        fd \<in> open_fds s \<and> (\<exists>si. heap s p = Some si \<and> sock_fd si = fd \<and> cb_events (callback si) = ev)) \<and>
     (\<forall>p. heap s p \<noteq> None \<longrightarrow> p < brk s)"

lemma wf_serverI:
  assumes "\<And>fd ev p. interest s fd = Some (ev, p) \<Longrightarrow>
      fd \<in> open_fds s \<and> (\<exists>si. heap s p = Some si \<and> sock_fd si = fd \<and> cb_events (callback si) = ev)"
    and "\<And>p si. heap s p = Some si \<Longrightarrow> p < brk s"
  shows "wf_server s"
  using assms by (fastforce simp: wf_server_def)

lemma wf_serverD:
  assumes "wf_server s" and "interest s fd = Some (ev, p)"
  obtains si where "fd \<in> open_fds s" "heap s p = Some si" "sock_fd si = fd" "cb_events (callback si) = ev"
  using assms unfolding wf_server_def by blast

lemma wf_heap_less: "wf_server s \<Longrightarrow> heap s p = Some si \<Longrightarrow> p < brk s"
  by (auto simp: wf_server_def)

text \<open>No two descriptors share an item.\<close>

lemma wf_interest_inj:
  "wf_server s \<Longrightarrow> interest s fd = Some (ev, p) \<Longrightarrow> interest s fd' = Some (ev', p) \<Longrightarrow> fd' = fd"
  by (metis option.inject wf_serverD)

text \<open>
  What handling the item at \<open>p\<close> may do to the rest: registrations of other items stay, and new
  ones carry an address that was not in use.
\<close>

definition local_to :: "addr \<Rightarrow> 'i server \<Rightarrow> 'i server \<Rightarrow> bool" where
  "local_to p s s' \<longleftrightarrow> (\<forall>fd ev q. interest s fd = Some (ev, q) \<and> q \<noteq> p \<longrightarrow> interest s' fd = Some (ev, q))"

lemma local_to_refl [simp]: "local_to p s s"
  by (simp add: local_to_def)

lemma local_to_trans: "local_to p s t \<Longrightarrow> local_to p t u \<Longrightarrow> local_to p s u"
  by (simp add: local_to_def)

lemma reported_local: "reported s e \<Longrightarrow> local_to p s s' \<Longrightarrow> snd e \<noteq> p \<Longrightarrow> reported s' e"
  unfolding reported_def local_to_def by blast

text \<open>An item registered for input is not reported for output, nor the other way round.\<close>

lemma reported_bits:
  assumes "reported s (evs, p)" and "wf_server s"
  obtains si where "heap s p = Some si" "interest s (sock_fd si) = Some (cb_events (callback si), p)"
    "evs AND EPOLLOUT \<noteq> 0 \<Longrightarrow> callback si = Send_cb" "evs AND EPOLLIN \<noteq> 0 \<Longrightarrow> callback si \<noteq> Send_cb"
proof -
  from assms(1) obtain fd ev where ev: "interest s fd = Some (ev, p)"
    "evs AND NOT (ev OR EPOLLERR OR EPOLLHUP) = 0"
    by (auto simp: reported_def)
  with assms(2) obtain si where si: "heap s p = Some si" "sock_fd si = fd" "cb_events (callback si) = ev"
    by (metis wf_serverD)
  have sub: "evs AND b = 0" if "ev AND b = 0" "(EPOLLERR OR EPOLLHUP) AND b = 0" for b
  proof (rule bit_word_eqI)
    fix n assume "n < LENGTH(32)"
    then show "bit (evs AND b) n \<longleftrightarrow> bit (0 :: u32) n"
      using ev(2) that by (auto simp: bit_eq_iff bit_simps)
  qed
  have "callback si = Send_cb" if "evs AND EPOLLOUT \<noteq> 0"
    using sub [of EPOLLOUT] that si(3) by (cases "callback si") (auto simp: epoll_bits)
  moreover have "callback si \<noteq> Send_cb" if "evs AND EPOLLIN \<noteq> 0"
    using sub [of EPOLLIN] that si(3) by (auto simp: epoll_bits)
  ultimately show ?thesis using that si ev(1) by blast
qed

section \<open>What the callbacks do\<close>

text \<open>
  The transitions the callbacks consist of: an item is given a new callback and registered for
  its events; an item is destroyed; a new connection gets an item.
\<close>

lemma wf_change:
  assumes "wf_server s"
    and "\<And>fd ev q. interest s' fd = Some (ev, q) \<Longrightarrow>
      interest s fd = Some (ev, q) \<and> fd \<in> open_fds s' \<and> heap s' q = heap s q \<or>
      fd \<in> open_fds s' \<and> (\<exists>si. heap s' q = Some si \<and> sock_fd si = fd \<and> cb_events (callback si) = ev)"
    and "\<And>q. heap s' q \<noteq> None \<Longrightarrow> q < brk s'"
  shows "wf_server s'"
proof (rule wf_serverI)
  fix fd ev q assume "interest s' fd = Some (ev, q)"
  from assms(2) [OF this]
  show "fd \<in> open_fds s' \<and> (\<exists>si. heap s' q = Some si \<and> sock_fd si = fd \<and> cb_events (callback si) = ev)"
    by (metis wf_serverD [OF assms(1)])
next
  fix q si assume "heap s' q = Some si"
  then show "q < brk s'" using assms(3) by simp
qed

lemma wf_open: "wf_server s \<Longrightarrow> interest s fd = Some (ev, q) \<Longrightarrow> fd \<in> open_fds s"
  by (metis wf_serverD)

lemma rearm:
  assumes "wf_server s" and "interest s fd = Some (ev, p)" and "heap s p = Some si"
    and "sock_fd si' = fd"
  shows "wf_server (ctl_mod fd (cb_events (callback si')) p (put_item p si' s))"
    and "local_to p s (ctl_mod fd (cb_events (callback si')) p (put_item p si' s))"
proof -
  let ?s = "ctl_mod fd (cb_events (callback si')) p (put_item p si' s)"
  have s: "?s = s\<lparr>interest := (interest s)(fd \<mapsto> (cb_events (callback si'), p)), heap := (heap s)(p \<mapsto> si')\<rparr>"
    using assms(2) by (simp add: server_ops)
  show "wf_server ?s"
  proof (rule wf_change [OF assms(1)])
    fix fd' ev' q assume q: "interest ?s fd' = Some (ev', q)"
    show "interest s fd' = Some (ev', q) \<and> fd' \<in> open_fds ?s \<and> heap ?s q = heap s q \<or>
      fd' \<in> open_fds ?s \<and> (\<exists>si. heap ?s q = Some si \<and> sock_fd si = fd' \<and> cb_events (callback si) = ev')"
    proof (cases "fd' = fd")
      case True
      then show ?thesis using q assms(4) wf_open [OF assms(1,2)] unfolding s by auto
    next
      case False
      then have "interest s fd' = Some (ev', q)" using q by (simp add: s)
      with False show ?thesis
        using wf_interest_inj [OF assms(1,2)] wf_open [OF assms(1)] unfolding s by auto
    qed
  qed (use wf_heap_less [OF assms(1)] assms(3) in \<open>auto simp: s split: if_splits\<close>)
  show "local_to p s ?s"
    unfolding s using assms(2) by (simp add: local_to_def)
qed

lemma update_item:
  assumes "wf_server s" and "heap s p = Some si"
    and "sock_fd si' = sock_fd si" and "callback si' = callback si"
  shows "wf_server (put_item p si' s)" and "local_to p s (put_item p si' s)"
proof -
  have "sock_fd si' = fd \<and> cb_events (callback si') = ev" if "interest s fd = Some (ev, p)" for fd ev
    using wf_serverD [OF assms(1) that] assms(2-4) by (metis option.inject)
  then show "wf_server (put_item p si' s)"
    using wf_open [OF assms(1)] wf_heap_less [OF assms(1)] assms(2)
    by (intro wf_change [OF assms(1)]) (auto simp: put_item_def split: if_splits)
qed (simp add: local_to_def server_ops)

lemma destroy:
  assumes "wf_server s" and "interest s fd = Some (ev, p)"
  shows "wf_server (free_item p (close_fd fd (ctl_del fd s)))"
    and "local_to p s (free_item p (close_fd fd (ctl_del fd s)))"
proof -
  show "wf_server (free_item p (close_fd fd (ctl_del fd s)))"
    using wf_interest_inj [OF assms(1,2)] wf_open [OF assms(1)] wf_heap_less [OF assms(1)]
    by (intro wf_change [OF assms(1)])
      (auto simp: ctl_del_def close_fd_def free_item_def split: if_splits)
  show "local_to p s (free_item p (close_fd fd (ctl_del fd s)))"
    using assms(2) by (simp add: local_to_def server_ops)
qed

text \<open>The two orders in which the sources close and deregister a descriptor agree.\<close>

lemma del_close [simp]: "ctl_del fd (close_fd fd s) = close_fd fd (ctl_del fd s)"
  by (simp add: server_ops)

lemma connect:
  assumes "wf_server s" and "c \<notin> open_fds s" and "0 \<le> c" and "sock_fd si = c"
  shows "wf_server (ctl_add c (cb_events (callback si)) (brk s) (malloc_item si (open_fd c s)))"
    and "local_to p s (ctl_add c (cb_events (callback si)) (brk s) (malloc_item si (open_fd c s)))"
proof -
  have c: "interest s c = None"
    using assms(1,2) by (metis not_Some_eq prod.collapse wf_serverD)
  have brk: "heap s (brk s) = None"
    using wf_heap_less [OF assms(1)] by (metis less_irrefl not_Some_eq)
  let ?s = "ctl_add c (cb_events (callback si)) (brk s) (malloc_item si (open_fd c s))"
  have s: "?s = s\<lparr>interest := (interest s)(c \<mapsto> (cb_events (callback si), brk s)),
      open_fds := insert c (open_fds s), heap := (heap s)(brk s \<mapsto> si), brk := brk s + 1\<rparr>"
    using assms(3) c by (simp add: server_ops)
  have "q \<noteq> brk s" if "interest s fd = Some (ev, q)" for fd ev q
    using wf_serverD [OF assms(1) that] brk by force
  then show "wf_server ?s"
    using wf_open [OF assms(1)] wf_heap_less [OF assms(1)] assms(4)
    unfolding s by (intro wf_change [OF assms(1)]) (auto simp: less_SucI split: if_splits)
  show "local_to p s ?s"
    unfolding s using c by (auto simp: local_to_def)
qed

text \<open>Opening a descriptor, sending and printing do not touch what the invariant is about.\<close>

lemma wf_open_fd [simp]: "wf_server s \<Longrightarrow> wf_server (open_fd fd s)"
  using wf_open [of s] wf_heap_less [of s]
  by (rule_tac wf_change [of s]) (auto simp: open_fd_def split: if_splits)

lemma wf_send_print [simp]:
  "wf_server (send_fd fd d s) = wf_server s" "wf_server (print_msg d n s) = wf_server s"
  by (simp_all add: wf_server_def server_ops)

lemma local_to_send_print [simp]:
  "local_to p s (open_fd fd t) = local_to p s t"
  "local_to p s (send_fd fd d t) = local_to p s t" "local_to p s (print_msg d n t) = local_to p s t"
  by (simp_all add: local_to_def server_ops)

section \<open>Callback servers\<close>

text \<open>
  The contract of a server built on this loop: called for a registered item, it stays well
  formed and touches no other item, or it ends with one of the faults \<open>F\<close>. What follows from it
  for the whole loop is proved once: no ready event ever leads to a freed item.
\<close>

locale callback_server =
  fixes call :: "'a item_scheme server \<Rightarrow> addr \<Rightarrow> answer \<Rightarrow> fault + 'a item_scheme server"
    and F :: "fault set"
  assumes call_ok: "wf_server s \<Longrightarrow> heap s p = Some si \<Longrightarrow>
      interest s (sock_fd si) = Some (cb_events (callback si), p) \<Longrightarrow> ans_accept a \<notin> open_fds s \<Longrightarrow>
      (case call s p a of Inl f \<Rightarrow> f \<in> F | Inr s' \<Rightarrow> wf_server s' \<and> local_to p s s')"
begin

lemma on_ready_ok:
  assumes "wf_server s" and "reported s e" and "answer_ok s a"
  shows "case on_ready call s e a of Inl f \<Rightarrow> f \<in> F | Inr s' \<Rightarrow> wf_server s' \<and> local_to (snd e) s s'"
proof -
  obtain evs p where e: "e = (evs, p)" by (cases e)
  obtain si where si: "heap s p = Some si" "interest s (sock_fd si) = Some (cb_events (callback si), p)"
    "evs AND EPOLLOUT \<noteq> 0 \<Longrightarrow> callback si = Send_cb" "evs AND EPOLLIN \<noteq> 0 \<Longrightarrow> callback si \<noteq> Send_cb"
    using reported_bits assms(1,2) unfolding e by blast
  have "case call s p (fst a) of Inl f \<Rightarrow> f \<in> F | Inr s' \<Rightarrow> wf_server s' \<and> local_to p s s'"
    "case call s p (snd a) of Inl f \<Rightarrow> f \<in> F | Inr s' \<Rightarrow> wf_server s' \<and> local_to p s s'"
    using call_ok [OF assms(1) si(1,2)] assms(3) by (simp_all add: answer_ok_def)
  moreover have "evs AND EPOLLIN = 0 \<or> evs AND EPOLLOUT = 0" using si(3,4) by blast
  ultimately show ?thesis
    using assms(1) by (elim disjE) (simp_all add: on_ready_def e split: sum.split_asm)
qed

lemma reaches_wf:
  assumes "reaches call s0 s es" and "wf_server s0"
  shows "wf_server s \<and> (\<forall>e \<in> set es. reported s e) \<and> distinct (map snd es)"
  using assms(1)
proof induction
  case (handle s e es a s')
  have "reported s e" using handle.IH by simp
  from on_ready_ok [OF _ this handle.hyps(2)] handle.IH handle.hyps(3)
  have s': "wf_server s'" "local_to (snd e) s s'" by auto
  moreover have "reported s' e'" if "e' \<in> set es" for e'
  proof (rule reported_local [OF _ s'(2)])
    show "reported s e'" using that handle.IH by simp
    show "snd e' \<noteq> snd e"
      using that handle.IH by (metis distinct.simps(2) image_eqI image_set list.map(2))
  qed
  ultimately show ?case using handle.IH by simp
qed (use assms(2) in simp_all)

theorem loop_safe:
  assumes "reaches call s0 s (e # es)" and "wf_server s0" and "answer_ok s a"
    and "on_ready call s e a = Inl f"
  shows "f \<in> F"
  using reaches_wf [OF assms(1,2)] on_ready_ok [of s e a] assms(3,4) by simp

end

end
