(* ===== verification/Wrap_IO.thy ===== *)
theory Wrap_IO
  imports Reactor
begin

text \<open>
  The wrappers around the socket calls, \<open>src/webserver/wrap.cpp\<close> (other directories of the
  repository hold copies). The kernel's behaviour is a script of answers that each call consumes;
  when the script is used up the call blocks, which is the result \<open>None\<close>.
\<close>

section \<open>The kernel side\<close>

text \<open>One answer of \<open>read\<close> or \<open>write\<close>: at most so many bytes, or a failure.\<close>

datatype io = Bytes nat | Fail errno

text \<open>A connected socket: what the peer has still to deliver until it closes, and what it was sent.\<close>

record sock =
  script :: "io list"
  incoming :: "byte list"
  outgoing :: "byte list"

text \<open>\<open>read\<close>: no bytes mean the end of the stream, so an answer yields at least one byte before it.\<close>

definition read_sys :: "nat \<Rightarrow> sock \<Rightarrow> ((errno + byte list) \<times> sock) option" where
  "read_sys n s =
     (case script s of
        [] \<Rightarrow> None
      | Fail e # sc \<Rightarrow> Some (Inl e, s\<lparr>script := sc\<rparr>)
      | Bytes k # sc \<Rightarrow>
          let m = min n (max 1 k)
          in Some (Inr (take m (incoming s)), s\<lparr>script := sc, incoming := drop m (incoming s)\<rparr>))"

definition write_sys :: "byte list \<Rightarrow> sock \<Rightarrow> ((errno + nat) \<times> sock) option" where
  "write_sys d s =
     (case script s of
        [] \<Rightarrow> None
      | Fail e # sc \<Rightarrow> Some (Inl e, s\<lparr>script := sc\<rparr>)
      | Bytes k # sc \<Rightarrow>
          Some (Inr (min k (length d)), s\<lparr>script := sc, outgoing := outgoing s @ take k d\<rparr>))"

lemma read_sys_script: "read_sys n s = Some (r, s') \<Longrightarrow> length (script s') < length (script s)"
  by (auto simp: read_sys_def Let_def split: list.splits io.splits)

lemma write_sys_script: "write_sys d s = Some (r, s') \<Longrightarrow> length (script s') < length (script s)"
  by (auto simp: write_sys_def split: list.splits io.splits)

section \<open>The wrappers\<close>

datatype 'a outcome = Returns 'a | Exits int

definition perr_exit :: "'a outcome" where
  "perr_exit = Exits (-1)"

text \<open>\<open>Accept\<close> tries again after an aborted connection or a signal; one answer per attempt.\<close>

fun Accept :: "(errno + int) list \<Rightarrow> (int outcome \<times> (errno + int) list) option" where
  "Accept [] = None"
| "Accept (Inr n # answers) = Some (Returns n, answers)"
| "Accept (Inl e # answers) =
     (if e = ECONNABORTED \<or> e = EINTR then Accept answers else Some (perr_exit, answers))"

text \<open>\<open>Bind\<close>, \<open>Connect\<close>, \<open>Listen\<close>, \<open>Socket\<close> and \<open>Close\<close>, given the result of the call they wrap.\<close>

definition Bind :: "int \<Rightarrow> int outcome" where
  "Bind n = (if n < 0 then perr_exit else Returns n)"

definition Connect :: "int \<Rightarrow> int outcome" where
  "Connect n = (if n < 0 then perr_exit else Returns n)"

definition Listen :: "int \<Rightarrow> int outcome" where
  "Listen n = (if n < 0 then perr_exit else Returns n)"

definition Socket :: "int \<Rightarrow> int outcome" where
  "Socket n = (if n < 0 then perr_exit else Returns n)"

definition Close :: "int \<Rightarrow> int outcome" where
  "Close n = (if n = -1 then perr_exit else Returns n)"

text \<open>\<open>tcp4bind\<close>: the address is checked after the socket was made; 1 is the result of a good \<open>inet_pton\<close>.\<close>

definition tcp4bind :: "int \<Rightarrow> int option \<Rightarrow> int \<Rightarrow> int outcome" where
  "tcp4bind sock_r pton_r bind_r =
     (case Socket sock_r of
        Exits c \<Rightarrow> Exits c
      | Returns lfd \<Rightarrow>
          (case pton_r of
             Some r \<Rightarrow>
               if r \<le> 0 then Exits 1
               else (case Bind bind_r of Exits c \<Rightarrow> Exits c | Returns n \<Rightarrow> Returns lfd)
           | None \<Rightarrow> (case Bind bind_r of Exits c \<Rightarrow> Exits c | Returns n \<Rightarrow> Returns lfd)))"

text \<open>
  The reading functions return their result, the bytes stored at the pointer and the socket.
\<close>

function Read :: "nat \<Rightarrow> sock \<Rightarrow> (int \<times> byte list \<times> sock) option" where
  "Read nbytes s =
     (case read_sys nbytes s of
        None \<Rightarrow> None
      | Some (Inl e, s') \<Rightarrow> if e = EINTR then Read nbytes s' else Some (-1, [], s')
      | Some (Inr d, s') \<Rightarrow> Some (int (length d), d, s'))"
  by pat_completeness auto
termination by (relation "measure (\<lambda>(n, s). length (script s))") (auto dest: read_sys_script)

function Write :: "byte list \<Rightarrow> sock \<Rightarrow> (int \<times> sock) option" where
  "Write d s =
     (case write_sys d s of
        None \<Rightarrow> None
      | Some (Inl e, s') \<Rightarrow> if e = EINTR then Write d s' else Some (-1, s')
      | Some (Inr n, s') \<Rightarrow> Some (int n, s'))"
  by pat_completeness auto
termination by (relation "measure (\<lambda>(d, s). length (script s))") (auto dest: write_sys_script)

function Readn_loop :: "nat \<Rightarrow> byte list \<Rightarrow> nat \<Rightarrow> sock \<Rightarrow> (int \<times> byte list \<times> sock) option" where
  "Readn_loop n buf nleft s =
     (if nleft = 0 then Some (int n - int nleft, buf, s)
      else case read_sys nleft s of
             None \<Rightarrow> None
           | Some (Inl e, s') \<Rightarrow>
               if e = EINTR then Readn_loop n buf nleft s' else Some (-1, buf, s')
           | Some (Inr d, s') \<Rightarrow>
               if d = [] then Some (int n - int nleft, buf, s')
               else Readn_loop n (buf @ d) (nleft - length d) s')"
  by pat_completeness auto
termination
  by (relation "measure (\<lambda>(n, buf, nleft, s). length (script s))") (auto dest: read_sys_script)

definition Readn :: "nat \<Rightarrow> sock \<Rightarrow> (int \<times> byte list \<times> sock) option" where
  "Readn n s = Readn_loop n [] n s"

text \<open>\<open>rest\<close> are the bytes from \<open>ptr\<close> on, so \<open>nleft\<close> is their number.\<close>

function Writen_loop :: "nat \<Rightarrow> byte list \<Rightarrow> sock \<Rightarrow> (int \<times> sock) option" where
  "Writen_loop n rest s =
     (if rest = [] then Some (int n, s)
      else case write_sys rest s of
             None \<Rightarrow> None
           | Some (Inl e, s') \<Rightarrow> if e = EINTR then Writen_loop n rest s' else Some (-1, s')
           | Some (Inr k, s') \<Rightarrow>
               if k = 0 then Some (-1, s') else Writen_loop n (drop k rest) s')"
  by pat_completeness auto
termination
  by (relation "measure (\<lambda>(n, rest, s). length (script s))") (auto dest: write_sys_script)

definition Writen :: "byte list \<Rightarrow> sock \<Rightarrow> (int \<times> sock) option" where
  "Writen d s = Writen_loop (length d) d s"

text \<open>
  \<open>my_read\<close> keeps a static buffer; \<open>pending\<close> are the \<open>read_cnt\<close> bytes at \<open>read_ptr\<close>. The result is 1
  and a byte, 0 or -1.
\<close>

function my_read :: "byte list \<Rightarrow> sock \<Rightarrow> (int \<times> byte option \<times> byte list \<times> sock) option" where
  "my_read pending s =
     (case pending of
        c # rest \<Rightarrow> Some (1, Some c, rest, s)
      | [] \<Rightarrow>
          (case read_sys 100 s of
             None \<Rightarrow> None
           | Some (Inl e, s') \<Rightarrow> if e = EINTR then my_read [] s' else Some (-1, None, [], s')
           | Some (Inr d, s') \<Rightarrow>
               (case d of
                  [] \<Rightarrow> Some (0, None, [], s')
                | c # rest \<Rightarrow> Some (1, Some c, rest, s'))))"
  by pat_completeness auto
termination by (relation "measure (\<lambda>(p, s). length (script s))") (auto dest: read_sys_script)

declare Read.simps [simp del] Write.simps [simp del] Readn_loop.simps [simp del] Writen_loop.simps [simp del]
  my_read.simps [simp del]

text \<open>
  The loop of \<open>Readline\<close>: \<open>k\<close> is \<open>maxlen - n\<close>, \<open>buf\<close> what was stored so far. The terminator is
  stored after the loop and at the end of the stream, not on an error.
\<close>

fun Readline_loop :: "nat \<Rightarrow> nat \<Rightarrow> byte list \<Rightarrow> byte list \<Rightarrow> sock \<Rightarrow> (int \<times> byte list \<times> byte list \<times> sock) option" where
  "Readline_loop 0 n buf pending s = Some (int n, buf @ [0], pending, s)"
| "Readline_loop (Suc k) n buf pending s =
     (case my_read pending s of
        None \<Rightarrow> None
      | Some (rc, c, pending', s') \<Rightarrow>
          (case c of
             Some b \<Rightarrow>
               if b = 10 then Some (int n, buf @ [b, 0], pending', s')
               else Readline_loop k (n + 1) (buf @ [b]) pending' s'
           | None \<Rightarrow>
               if rc = 0 then Some (int n - 1, buf @ [0], pending', s') else Some (-1, buf, pending', s')))"

definition Readline :: "nat \<Rightarrow> byte list \<Rightarrow> sock \<Rightarrow> (int \<times> byte list \<times> byte list \<times> sock) option" where
  "Readline maxlen pending s = Readline_loop (maxlen - 1) 1 [] pending s"

section \<open>Scripts\<close>

text \<open>
  A script on which nothing fails but for signals, and the number of its answers that carry
  bytes. One of them is enough for every byte that is asked for.
\<close>

definition quiet :: "io list \<Rightarrow> bool" where
  "quiet sc \<longleftrightarrow> (\<forall>e. Fail e \<in> set sc \<longrightarrow> e = EINTR)"

fun chunks :: "io list \<Rightarrow> nat" where
  "chunks [] = 0"
| "chunks (Bytes k # sc) = Suc (chunks sc)"
| "chunks (Fail e # sc) = chunks sc"

lemma quiet_simps [simp]: "quiet []" "quiet (Bytes k # sc) = quiet sc" "quiet (Fail e # sc) \<longleftrightarrow> e = EINTR \<and> quiet sc"
  by (auto simp: quiet_def)

text \<open>What one call of \<open>read\<close> does on such a script.\<close>

lemma read_sys_quiet:
  assumes "quiet (script s)" and "0 < chunks (script s)" and "0 < n"
  obtains s' where "read_sys n s = Some (Inl EINTR, s')" "incoming s' = incoming s" "quiet (script s')"
      "chunks (script s') = chunks (script s)"
  | m s' where "read_sys n s = Some (Inr (take m (incoming s)), s')" "incoming s' = drop m (incoming s)"
      "0 < m" "m \<le> n" "quiet (script s')" "Suc (chunks (script s')) = chunks (script s)"
proof (cases "script s")
  case Nil
  with assms(2) show ?thesis by simp
next
  case (Cons a sc)
  show ?thesis
  proof (cases a)
    case (Bytes k)
    with Cons assms show ?thesis
      by (intro that(2) [of "min n (max 1 k)" "s\<lparr>script := sc, incoming := drop (min n (max 1 k)) (incoming s)\<rparr>"])
        (simp_all add: read_sys_def Let_def)
  next
    case (Fail e)
    with Cons assms show ?thesis
      by (intro that(1) [of "s\<lparr>script := sc\<rparr>"]) (simp_all add: read_sys_def)
  qed
qed

lemma Readn_loop_quiet:
  assumes "quiet (script s)" and "nleft \<le> chunks (script s)" and "nleft \<le> n"
  shows "\<exists>s'. Readn_loop n buf nleft s =
      Some (int n - int nleft + int (min nleft (length (incoming s))), buf @ take nleft (incoming s), s') \<and>
    incoming s' = drop nleft (incoming s)"
  using assms
proof (induction "length (script s)" arbitrary: s buf nleft rule: less_induct)
  case less
  show ?case
  proof (cases "nleft = 0")
    case True
    then show ?thesis by (simp add: Readn_loop.simps)
  next
    case False
    then have "0 < chunks (script s)" "0 < nleft" using less.prems by auto
    from read_sys_quiet [OF less.prems(1) this] show ?thesis
    proof cases
      case (1 s')
      then show ?thesis
        using less.hyps [of s' nleft buf] read_sys_script [OF 1(1)] less.prems False
        by (simp add: Readn_loop.simps [of n buf nleft s])
    next
      case (2 m s')
      let ?d = "take m (incoming s)"
      show ?thesis
      proof (cases "incoming s = []")
        case True
        then show ?thesis using 2 False by (simp add: Readn_loop.simps [of n buf nleft s])
      next
        case nonempty: False
        have "0 < length ?d" using 2(3) nonempty by simp
        then have "nleft - length ?d \<le> chunks (script s')" "nleft - length ?d \<le> n"
          using 2(6) less.prems by linarith+
        from less.hyps [OF read_sys_script [OF 2(1)] 2(5) this, of "buf @ ?d"]
        obtain s'' where s'': "Readn_loop n (buf @ ?d) (nleft - length ?d) s' =
            Some (int n - int (nleft - length ?d) + int (min (nleft - length ?d) (length (incoming s'))),
              (buf @ ?d) @ take (nleft - length ?d) (incoming s'), s'')"
          "incoming s'' = drop (nleft - length ?d) (incoming s')"
          by blast
        have "?d @ take (nleft - length ?d) (incoming s') = take nleft (incoming s)"
          using 2(2,4) by (cases "m \<le> length (incoming s)") (simp_all add: take_add flip: take_add)
        moreover have "drop (nleft - length ?d) (incoming s') = drop nleft (incoming s)"
          using 2(2,4) by (cases "m \<le> length (incoming s)") simp_all
        moreover have "int n - int (nleft - length ?d) + int (min (nleft - length ?d) (length (incoming s'))) =
            int n - int nleft + int (min nleft (length (incoming s)))"
          using 2(2,4) by (cases "m \<le> length (incoming s)") (auto simp: of_nat_diff)
        ultimately show ?thesis
          using s'' 2(1,3) False nonempty by (simp add: Readn_loop.simps [of n buf nleft s])
      qed
    qed
  qed
qed

lemma Writen_loop_quiet:
  assumes "quiet (script s)" and "Bytes 0 \<notin> set (script s)" and "length rest \<le> chunks (script s)"
  shows "\<exists>s'. Writen_loop n rest s = Some (int n, s') \<and> outgoing s' = outgoing s @ rest"
  using assms
proof (induction "length (script s)" arbitrary: s rest rule: less_induct)
  case less
  show ?case
  proof (cases "rest = []")
    case True
    then show ?thesis by (simp add: Writen_loop.simps)
  next
    case False
    then obtain a sc where sc: "script s = a # sc" using less.prems by (cases "script s") auto
    show ?thesis
    proof (cases a)
      case (Bytes k)
      define s' where "s' = s\<lparr>script := sc, outgoing := outgoing s @ take k rest\<rparr>"
      have k: "0 < k" using less.prems sc Bytes by (cases k) auto
      have "length (drop k rest) \<le> chunks sc" using less.prems(3) k sc Bytes by simp
      then obtain s'' where "Writen_loop n (drop k rest) s' = Some (int n, s'')"
        "outgoing s'' = outgoing s' @ drop k rest"
        using less.hyps [of s' "drop k rest"] less.prems sc Bytes by (auto simp: s'_def)
      moreover have "drop (min k (length rest)) rest = drop k rest"
        by (cases "k \<le> length rest") simp_all
      ultimately show ?thesis
        using False k sc Bytes by (simp add: Writen_loop.simps [of n rest s] write_sys_def s'_def)
    next
      case (Fail e)
      then show ?thesis
        using less.hyps [of "s\<lparr>script := sc\<rparr>" rest] less.prems sc False
        by (simp add: Writen_loop.simps [of n rest s] write_sys_def)
    qed
  qed
qed

text \<open>\<open>my_read\<close> delivers the next byte of what is buffered and still to come.\<close>

lemma my_read_quiet:
  assumes "quiet (script s)" and "pending = [] \<Longrightarrow> 0 < chunks (script s)"
  shows "\<exists>p' s'. my_read pending s =
      (case pending @ incoming s of [] \<Rightarrow> Some (0, None, p', s') | c # r \<Rightarrow> Some (1, Some c, p', s')) \<and>
    p' @ incoming s' = tl (pending @ incoming s) \<and> quiet (script s') \<and> chunks (script s) \<le> Suc (chunks (script s'))"
  using assms
proof (induction "length (script s)" arbitrary: s rule: less_induct)
  case less
  show ?case
  proof (cases pending)
    case (Cons c rest)
    then show ?thesis using less.prems by (simp add: my_read.simps)
  next
    case Nil
    from read_sys_quiet [where n = 100, OF less.prems(1) less.prems(2) [OF Nil] zero_less_numeral] show ?thesis
    proof cases
      case (1 s')
      then show ?thesis
        using less.hyps [of s'] read_sys_script [OF 1(1)] less.prems Nil by (simp add: my_read.simps [of "[]" s])
    next
      case (2 m s')
      then show ?thesis
        using Nil by (cases "incoming s"; cases m) (simp_all add: my_read.simps [of "[]" s])
    qed
  qed
qed

text \<open>The line a call of \<open>Readline\<close> with room for \<open>k\<close> bytes is to deliver.\<close>

fun first_line :: "nat \<Rightarrow> byte list \<Rightarrow> byte list" where
  "first_line 0 st = []"
| "first_line (Suc k) [] = []"
| "first_line (Suc k) (b # st) = (if b = 10 then [10] else b # first_line k st)"

definition ends_line :: "byte list \<Rightarrow> bool" where
  "ends_line l \<longleftrightarrow> l \<noteq> [] \<and> last l = 10"

lemma Readline_loop_quiet:
  assumes "quiet (script s)" and "k \<le> chunks (script s)" and "line = first_line k (pending @ incoming s)"
  shows "\<exists>p' s'. Readline_loop k (Suc n) buf pending s =
      Some (int n + int (length line) + (if length line = k \<and> \<not> ends_line line then 1 else 0), buf @ line @ [0], p', s') \<and>
    line @ p' @ incoming s' = pending @ incoming s"
  using assms
proof (induction k arbitrary: s pending n buf line)
  case 0
  then show ?case by (simp add: ends_line_def)
next
  case (Suc k)
  obtain p' s' where r: "my_read pending s =
      (case pending @ incoming s of [] \<Rightarrow> Some (0, None, p', s') | c # r \<Rightarrow> Some (1, Some c, p', s'))"
    "p' @ incoming s' = tl (pending @ incoming s)" "quiet (script s')" "chunks (script s) \<le> Suc (chunks (script s'))"
    using my_read_quiet [OF Suc.prems(1), of pending] Suc.prems(2) by auto
  show ?case
  proof (cases "pending @ incoming s")
    case Nil
    then show ?thesis using r Suc.prems(3) by simp
  next
    case (Cons b st)
    show ?thesis
    proof (cases "b = 10")
      case True
      then show ?thesis using r Cons Suc.prems(3) by (simp add: ends_line_def)
    next
      case False
      let ?l = "first_line k (p' @ incoming s')"
      have l: "line = b # ?l" "ends_line line = ends_line ?l" using False Cons r(2) Suc.prems(3) by (auto simp: ends_line_def)
      have "k \<le> chunks (script s')" using r(4) Suc.prems(2) by simp
      from Suc.IH [OF r(3) this refl, where n = "Suc n" and buf = "buf @ [b]" and pending = p'] show ?thesis
        using r(1,2) Cons False l by auto
    qed
  qed
qed

section \<open>Properties\<close>

text \<open>
  C30. \<open>Readn\<close> returns and delivers all it was asked for: however the kernel cuts the stream into
  pieces and however often signals interrupt the calls, it stores the next \<open>n\<close> bytes of the
  stream, fewer only when the peer closes before, and its result is their number.
\<close>

theorem Readn_complete:
  assumes "quiet (script s)" and "n \<le> chunks (script s)"
  shows "\<exists>s'. Readn n s = Some (int (min n (length (incoming s))), take n (incoming s), s') \<and>
    incoming s' = drop n (incoming s)"
  using Readn_loop_quiet [OF assms, of n "[]"] by (simp add: Readn_def)

theorem Readn_complete_witness:
  "\<exists>s'. Readn 4 \<lparr>script = [Bytes 3, Fail EINTR, Bytes 1, Bytes 9, Bytes 1], incoming = bs ''abcdef'', outgoing = []\<rparr> =
     Some (4, bs ''abcd'', s') \<and> incoming s' = bs ''ef''"
  using Readn_complete [of "\<lparr>script = [Bytes 3, Fail EINTR, Bytes 1, Bytes 9, Bytes 1], incoming = bs ''abcdef'',
    outgoing = []\<rparr>" 4] by (simp add: bs_def)

text \<open>
  \<open>Writen\<close> returns and sends everything: across partial writes and interruptions the peer is
  sent exactly the given bytes, in order and once, and the result is their number.
\<close>

theorem Writen_complete:
  assumes "quiet (script s)" and "Bytes 0 \<notin> set (script s)" and "length d \<le> chunks (script s)"
  shows "\<exists>s'. Writen d s = Some (int (length d), s') \<and> outgoing s' = outgoing s @ d"
  using Writen_loop_quiet [OF assms] by (simp add: Writen_def)

theorem Writen_complete_witness:
  "\<exists>s'. Writen (bs ''abc'') \<lparr>script = [Bytes 1, Fail EINTR, Bytes 7, Bytes 1], incoming = [], outgoing = []\<rparr> =
     Some (3, s') \<and> outgoing s' = bs ''abc''"
  using Writen_complete [of "\<lparr>script = [Bytes 1, Fail EINTR, Bytes 7, Bytes 1], incoming = [], outgoing = []\<rparr>" "bs ''abc''"]
  by (simp add: bs_def)

text \<open>
  C8. \<open>Readline\<close> implements reading a line from an unbuffered stream: it stores the line with its
  line feed and a terminator, and buffered and coming bytes together are what follows the
  line, so nothing is lost between calls. The result is the length of the line, but one more
  than that when the room is used up before a line feed.
\<close>

theorem Readline_refines:
  assumes "quiet (script s)" and "maxlen \<le> chunks (script s)" and "0 < maxlen"
  shows "\<exists>p' s' line. Readline maxlen pending s =
      Some (int (length line) + (if length line = maxlen - 1 \<and> \<not> ends_line line then 1 else 0), line @ [0], p', s') \<and>
    line = first_line (maxlen - 1) (pending @ incoming s) \<and> line @ p' @ incoming s' = pending @ incoming s"
  using Readline_loop_quiet [OF assms(1) _ refl, where k = "maxlen - 1" and n = 0 and buf = "[]"] assms(2)
  by (auto simp: Readline_def)

theorem Readline_refines_witness:
  "\<exists>p' s'. Readline 8 [97] \<lparr>script = replicate 8 (Bytes 3), incoming = [98, 10, 99, 100], outgoing = []\<rparr> =
     Some (3, [97, 98, 10, 0], p', s') \<and> p' @ incoming s' = [99, 100]"
proof -
  have "first_line (8 - 1) ([97] @ [98, 10, 99, 100]) = [97, 98, 10]" "quiet (replicate 8 (Bytes 3))"
    "chunks (replicate 8 (Bytes 3)) = 8"
    by (code_simp, simp add: quiet_def, simp add: numeral_eq_Suc)
  then show ?thesis
    using Readline_refines [of "\<lparr>script = replicate 8 (Bytes 3), incoming = [98, 10, 99, 100], outgoing = []\<rparr>" 8 "[97]"]
    by (auto simp: ends_line_def)
qed

end
