(* ===== verification/Echo_Servers.thy ===== *)
theory Echo_Servers
  imports Wrap_IO
begin

text \<open>
  Four servers on \<open>epoll\<close> that answer what a client sends with \<open>server data : \<close> and the same text:
  \<open>src/epoll_study/epoll_server.cpp\<close> (level-triggered), \<open>epoll_server_edge_triggered.cpp\<close>, the same on
  the thread pool (\<open>epoll_server_edge_triggered_thread_pool.cpp\<close>), and the class \<open>Rector\<close> of
  \<open>src/epoll_reactor/reactor_class.cpp\<close>. Every client has a socket with the kernel's answers on it, as
  in theory \<open>Wrap_IO\<close>. The locale \<open>isolated_clients\<close> states when a server treats its clients
  independently of each other.
\<close>

section \<open>What the servers share\<close>

text \<open>Ways not to come back: a call blocks, the process exits, an access outside an object.\<close>

datatype echo_end = Blocks | Quits int | Bad fault

text \<open>A ready event with what \<open>Accept\<close> will be answered and the text of the new client's address.\<close>

record ready_event =
  re_events :: u32
  re_fd :: int
  re_accept :: "(errno + int) list"
  re_addr :: "byte list"

record ep =
  ep_tree :: "int \<Rightarrow> u32 option"
  ep_open :: "int set"
  ep_names :: "int \<Rightarrow> byte list option"
  ep_socks :: "int \<Rightarrow> sock"

text \<open>Registering a descriptor, closing one, and the reading access \<open>map[fd]\<close>, which makes an entry.\<close>

definition ep_add :: "int \<Rightarrow> u32 \<Rightarrow> 'a ep_scheme \<Rightarrow> 'a ep_scheme" where
  "ep_add fd ev s = (if fd \<in> ep_open s \<and> ep_tree s fd = None then s\<lparr>ep_tree := (ep_tree s)(fd \<mapsto> ev)\<rparr> else s)"

definition ep_del :: "int \<Rightarrow> 'a ep_scheme \<Rightarrow> 'a ep_scheme" where
  "ep_del fd s = s\<lparr>ep_tree := (ep_tree s)(fd := None)\<rparr>"

definition ep_close :: "int \<Rightarrow> 'a ep_scheme \<Rightarrow> 'a ep_scheme" where
  "ep_close fd s = s\<lparr>ep_open := ep_open s - {fd}, ep_tree := (ep_tree s)(fd := None)\<rparr>"

definition ep_name :: "int \<Rightarrow> 'a ep_scheme \<Rightarrow> 'a ep_scheme" where
  "ep_name fd s = (if ep_names s fd = None then s\<lparr>ep_names := (ep_names s)(fd \<mapsto> [])\<rparr> else s)"

lemmas ep_ops = ep_add_def ep_del_def ep_close_def ep_name_def

definition ep_accept :: "u32 \<Rightarrow> ready_event \<Rightarrow> 'a ep_scheme \<Rightarrow> echo_end + 'a ep_scheme" where
  "ep_accept ev e s =
     (case Accept (re_accept e) of
        None \<Rightarrow> Inl Blocks
      | Some (Exits c, _) \<Rightarrow> Inl (Quits c)
      | Some (Returns cfd, _) \<Rightarrow>
          Inr (ep_add cfd ev (s\<lparr>ep_open := insert cfd (ep_open s), ep_names := (ep_names s)(cfd \<mapsto> re_addr e)\<rparr>)))"

text \<open>\<open>string str(buffer); str = "server data : " + str; Write(fd, ...)\<close>.\<close>

definition say :: "byte list \<Rightarrow> sock \<Rightarrow> echo_end + sock" where
  "say buffer sk =
     (case cstr buffer of
        Inl f \<Rightarrow> Inl (Bad f)
      | Inr str \<Rightarrow>
          (case Write (bs ''server data : '' @ str) sk of
             None \<Rightarrow> Inl Blocks
           | Some (n, sk') \<Rightarrow> Inr sk'))"

definition ep_say :: "int \<Rightarrow> byte list \<Rightarrow> 'a ep_scheme \<Rightarrow> echo_end + 'a ep_scheme" where
  "ep_say fd buffer s =
     (case say buffer (ep_socks s fd) of
        Inl f \<Rightarrow> Inl f
      | Inr sk \<Rightarrow> Inr (ep_name fd s\<lparr>ep_socks := (ep_socks s)(fd := sk)\<rparr>))"

text \<open>A loop over events.\<close>

fun run_events :: "('e \<Rightarrow> 's \<Rightarrow> 'f + 's) \<Rightarrow> 'e list \<Rightarrow> 's \<Rightarrow> 'f + 's" where
  "run_events f [] s = Inr s"
| "run_events f (e # es) s = (case f e s of Inl x \<Rightarrow> Inl x | Inr s' \<Rightarrow> run_events f es s')"

section \<open>Independent clients\<close>

text \<open>
  An event concerns the socket of at most one client; what happens to that socket depends on nothing
  else, as long as an invariant of the server holds.
\<close>

locale isolated_clients =
  fixes handle :: "'e \<Rightarrow> 's \<Rightarrow> 'f + 's" and socks :: "'s \<Rightarrow> int \<Rightarrow> sock" and target :: "'e \<Rightarrow> int option"
    and chat :: "sock \<Rightarrow> 'f + sock" and inv :: "'s \<Rightarrow> bool"
  assumes inv_kept: "inv s \<Longrightarrow> handle e s = Inr s' \<Longrightarrow> inv s'"
    and own: "inv s \<Longrightarrow> handle e s = Inr s' \<Longrightarrow> target e = Some fd \<Longrightarrow> chat (socks s fd) = Inr (socks s' fd)"
    and others: "inv s \<Longrightarrow> handle e s = Inr s' \<Longrightarrow> target e \<noteq> Some fd \<Longrightarrow> socks s' fd = socks s fd"
begin

lemma run_inv: "inv s \<Longrightarrow> run_events handle es s = Inr s' \<Longrightarrow> inv s'"
  by (induction es arbitrary: s) (auto split: sum.splits dest: inv_kept)

lemma isolated:
  "inv s \<Longrightarrow> run_events handle es s = Inr s' \<Longrightarrow>
     run_events (\<lambda>e. chat) (filter (\<lambda>e. target e = Some fd) es) (socks s fd) = Inr (socks s' fd)"
proof (induction es arbitrary: s)
  case (Cons e es)
  then obtain s1 where s1: "handle e s = Inr s1" "run_events handle es s1 = Inr s'" by (auto split: sum.splits)
  note IH = Cons.IH [OF inv_kept [OF Cons.prems(1) s1(1)] s1(2)]
  show ?case
    using IH own [OF Cons.prems(1) s1(1)] others [OF Cons.prems(1) s1(1)] by (cases "target e = Some fd") auto
qed simp

end

section \<open>The level-triggered server\<close>

definition LT_BufferSize :: nat where "LT_BufferSize = 1500"

definition lt_accept :: "ready_event \<Rightarrow> ep \<Rightarrow> echo_end + ep" where
  "lt_accept e s = ep_accept EPOLLIN e s"

text \<open>The descriptor of a client that has closed is taken off the tree, but not closed.\<close>

definition lt_client :: "int \<Rightarrow> ep \<Rightarrow> echo_end + ep" where
  "lt_client fd s =
     (case Read LT_BufferSize (ep_socks s fd) of
        None \<Rightarrow> Inl Blocks
      | Some (n, d, sk) \<Rightarrow>
          let buffer = d @ replicate (LT_BufferSize - length d) 0;
              s = s\<lparr>ep_socks := (ep_socks s)(fd := sk)\<rparr>
          in if n < 0 then Inr (ep_del fd s)
             else if n = 0 then Inr (ep_del fd (ep_name fd s))
             else ep_say fd buffer s)"

definition lt_event :: "int \<Rightarrow> ready_event \<Rightarrow> ep \<Rightarrow> echo_end + ep" where
  "lt_event listen_fd e s =
     (if re_fd e = listen_fd \<and> re_events e AND EPOLLIN \<noteq> 0 then lt_accept e s
      else if re_events e AND EPOLLIN \<noteq> 0 then lt_client (re_fd e) s
      else Inr s)"

text \<open>One \<open>epoll_wait\<close>: it fails, which ends the loop, or reports some events.\<close>

definition lt_round :: "int \<Rightarrow> errno + ready_event list \<Rightarrow> ep \<Rightarrow> (echo_end + ep) option" where
  "lt_round listen_fd w s = (case w of Inl err \<Rightarrow> None | Inr evs \<Rightarrow> Some (run_events (lt_event listen_fd) evs s))"

section \<open>The edge-triggered server\<close>

definition ReadBufferSize_et :: nat where "ReadBufferSize_et = 1500"

definition et_accept :: "ready_event \<Rightarrow> ep \<Rightarrow> echo_end + ep" where
  "et_accept e s = ep_accept (EPOLLIN OR EPOLLET) e s"

text \<open>
  The loop that empties the socket. The array is not initialised: \<open>junk\<close> is what it holds, which may
  differ from round to round.
\<close>

lemma Write_script: "Write d sk = Some (n, sk') \<Longrightarrow> length (script sk') < length (script sk)"
proof (induction d sk rule: Write.induct)
  case (1 d sk)
  show ?case
  proof (cases "write_sys d sk")
    case None
    then show ?thesis using "1.prems" by (simp add: Write.simps)
  next
    case (Some r)
    obtain x sk1 where r: "r = (x, sk1)" by (cases r)
    note IH = "1.IH" [OF Some r [symmetric]]
    show ?thesis
      using "1.prems" IH write_sys_script [OF Some [unfolded r]] Some r
      by (cases x) (auto simp: Write.simps [of d sk] split: if_splits)
  qed
qed

lemma say_script: "say buffer sk = Inr sk' \<Longrightarrow> length (script sk') < length (script sk)"
  by (auto simp: say_def split: sum.splits option.splits dest: Write_script)

lemma ep_say_script:
  "ep_say fd buffer s = Inr s' \<Longrightarrow> length (script (ep_socks s' fd)) < length (script (ep_socks s fd))"
  by (auto simp: ep_say_def ep_name_def split: sum.splits if_splits dest: say_script)

function et_loop :: "(sock \<Rightarrow> byte list) \<Rightarrow> int \<Rightarrow> ep \<Rightarrow> echo_end + ep" where
  "et_loop junk fd s =
     (case read_sys ReadBufferSize_et (ep_socks s fd) of
        None \<Rightarrow> Inl Blocks
      | Some (Inl e, sk) \<Rightarrow>
          let s = s\<lparr>ep_socks := (ep_socks s)(fd := sk)\<rparr>
          in if e = EAGAIN then Inr s else Inr (ep_close fd s)
      | Some (Inr d, sk) \<Rightarrow>
          let buffer = d @ drop (length d) (junk sk);
              s = s\<lparr>ep_socks := (ep_socks s)(fd := sk)\<rparr>
          in if d = [] then Inr (ep_close fd (ep_name fd s))
             else (case ep_say fd buffer s of
                     Inl f \<Rightarrow> Inl f
                   | Inr s' \<Rightarrow> et_loop junk fd s'))"
  by pat_completeness auto
termination
  by (relation "measure (\<lambda>(junk, fd, s). length (script (ep_socks s fd)))")
    (auto dest!: read_sys_script ep_say_script)

declare et_loop.simps [simp del]

definition et_event :: "(sock \<Rightarrow> byte list) \<Rightarrow> int \<Rightarrow> ready_event \<Rightarrow> ep \<Rightarrow> echo_end + ep" where
  "et_event junk listen_fd e s =
     (if re_fd e = listen_fd \<and> re_events e AND EPOLLIN \<noteq> 0 then et_accept e s
      else if re_events e AND EPOLLIN \<noteq> 0 then et_loop junk (re_fd e) s
      else Inr s)"

text \<open>Here an interrupted \<open>epoll_wait\<close> is repeated.\<close>

definition et_round :: "(sock \<Rightarrow> byte list) \<Rightarrow> int \<Rightarrow> errno + ready_event list \<Rightarrow> ep \<Rightarrow> (echo_end + ep) option" where
  "et_round junk listen_fd w s =
     (case w of
        Inl err \<Rightarrow> if err = EINTR then Some (Inr s) else None
      | Inr evs \<Rightarrow> Some (run_events (et_event junk listen_fd) evs s))"

section \<open>The edge-triggered server on the thread pool\<close>

definition ReadBufferSize_pool :: nat where "ReadBufferSize_pool = 4"

text \<open>
  The task reads once. It has copies of the event, the map and the descriptor, so nothing is entered in
  the map; the flag tells whether to go on.
\<close>

definition thread_read_write :: "(sock \<Rightarrow> byte list) \<Rightarrow> int \<Rightarrow> ep \<Rightarrow> echo_end + bool \<times> ep" where
  "thread_read_write junk fd s =
     (case read_sys ReadBufferSize_pool (ep_socks s fd) of
        None \<Rightarrow> Inl Blocks
      | Some (Inl e, sk) \<Rightarrow>
          let s = s\<lparr>ep_socks := (ep_socks s)(fd := sk)\<rparr>
          in if e = EAGAIN then Inr (False, s) else Inr (False, ep_close fd s)
      | Some (Inr d, sk) \<Rightarrow>
          let buffer = d @ drop (length d) (junk sk)
          in if d = [] then Inr (False, ep_close fd (s\<lparr>ep_socks := (ep_socks s)(fd := sk)\<rparr>))
             else (case say buffer sk of
                     Inl f \<Rightarrow> Inl f
                   | Inr sk' \<Rightarrow> Inr (True, s\<lparr>ep_socks := (ep_socks s)(fd := sk')\<rparr>)))"

lemma thread_read_write_script:
  "thread_read_write junk fd s = Inr (b, s') \<Longrightarrow> length (script (ep_socks s' fd)) < length (script (ep_socks s fd))"
  by (auto simp: thread_read_write_def Let_def ep_close_def split: option.splits sum.splits if_splits
      dest!: read_sys_script say_script)

text \<open>The main thread commits the task and waits for its result, until that is false.\<close>

function commit_loop :: "(sock \<Rightarrow> byte list) \<Rightarrow> int \<Rightarrow> ep \<Rightarrow> echo_end + ep" where
  "commit_loop junk fd s =
     (case thread_read_write junk fd s of
        Inl f \<Rightarrow> Inl f
      | Inr (go_on, s') \<Rightarrow> if go_on then commit_loop junk fd s' else Inr s')"
  by pat_completeness auto
termination
  by (relation "measure (\<lambda>(junk, fd, s). length (script (ep_socks s fd)))") (auto dest: thread_read_write_script)

declare commit_loop.simps [simp del]

definition tp_event :: "(sock \<Rightarrow> byte list) \<Rightarrow> int \<Rightarrow> ready_event \<Rightarrow> ep \<Rightarrow> echo_end + ep" where
  "tp_event junk listen_fd e s =
     (if re_fd e = listen_fd \<and> re_events e AND EPOLLIN \<noteq> 0 then ep_accept (EPOLLIN OR EPOLLET) e s
      else if re_events e AND EPOLLIN \<noteq> 0 then commit_loop junk (re_fd e) s
      else Inr s)"

definition tp_round :: "(sock \<Rightarrow> byte list) \<Rightarrow> int \<Rightarrow> errno + ready_event list \<Rightarrow> ep \<Rightarrow> (echo_end + ep) option" where
  "tp_round junk listen_fd w s =
     (case w of
        Inl err \<Rightarrow> if err = EINTR then Some (Inr s) else None
      | Inr evs \<Rightarrow> Some (run_events (tp_event junk listen_fd) evs s))"

section \<open>The reactor class\<close>

definition RC_BUF_LEN :: nat where "RC_BUF_LEN = 1024"

record rector = ep +
  rc_buffer :: "byte list"

definition send_data :: "int \<Rightarrow> rector \<Rightarrow> echo_end + rector" where
  "send_data fd r =
     (case ep_say fd (rc_buffer r) r of
        Inl f \<Rightarrow> Inl f
      | Inr r' \<Rightarrow> Inr (r'\<lparr>rc_buffer := replicate RC_BUF_LEN 0\<rparr>))"

definition read_data :: "int \<Rightarrow> rector \<Rightarrow> echo_end + int \<times> rector" where
  "read_data fd r =
     (case read_sys RC_BUF_LEN (ep_socks r fd) of
        None \<Rightarrow> Inl Blocks
      | Some (Inl e, sk) \<Rightarrow> Inr (-1, r\<lparr>ep_socks := (ep_socks r)(fd := sk)\<rparr>)
      | Some (Inr d, sk) \<Rightarrow>
          let r = r\<lparr>ep_socks := (ep_socks r)(fd := sk), rc_buffer := d @ drop (length d) (rc_buffer r)\<rparr>
          in if d = [] then Inr (0, ep_close fd (ep_name fd r)) else Inr (int (length d), r))"

lemma read_data_script:
  "read_data fd r = Inr (n, r') \<Longrightarrow> length (script (ep_socks r' fd)) < length (script (ep_socks r fd))"
  by (auto simp: read_data_def Let_def ep_close_def ep_name_def split: option.splits sum.splits if_splits
      dest!: read_sys_script)

lemma send_data_script:
  "send_data fd r = Inr r' \<Longrightarrow> length (script (ep_socks r' fd)) < length (script (ep_socks r fd))"
  by (auto simp: send_data_def split: sum.splits dest!: ep_say_script)

function rector_loop :: "int \<Rightarrow> rector \<Rightarrow> echo_end + rector" where
  "rector_loop fd r =
     (case read_data fd r of
        Inl f \<Rightarrow> Inl f
      | Inr (n, r) \<Rightarrow>
          if n \<le> 0 then Inr r
          else (case send_data fd r of
                  Inl f \<Rightarrow> Inl f
                | Inr r \<Rightarrow> rector_loop fd r))"
  by pat_completeness auto
termination
  by (relation "measure (\<lambda>(fd, r). length (script (ep_socks r fd)))") (auto dest!: read_data_script send_data_script)

declare rector_loop.simps [simp del]

definition init_accept :: "ready_event \<Rightarrow> rector \<Rightarrow> echo_end + rector" where
  "init_accept e r = ep_accept (EPOLLIN OR EPOLLET) e r"

definition rector_event :: "int \<Rightarrow> ready_event \<Rightarrow> rector \<Rightarrow> echo_end + rector" where
  "rector_event listen_fd e r =
     (if re_fd e = listen_fd \<and> re_events e AND EPOLLIN \<noteq> 0 then init_accept e r
      else if re_events e AND EPOLLIN \<noteq> 0 then rector_loop (re_fd e) r
      else Inr r)"

text \<open>
  \<open>Run\<close>: the listening socket and the epoll instance (the results of the calls are given), then rounds of
  \<open>epoll_wait\<close> until one fails for another reason than a signal; the loop goes on for ever otherwise, so
  that the end of the list of rounds is a place where it waits. What the member array holds at first is an
  argument: nothing initialises it.
\<close>

definition listen_bind :: "int \<Rightarrow> int \<Rightarrow> int \<Rightarrow> int \<Rightarrow> int outcome" where
  "listen_bind sock_r bind_r listen_r epoll_r =
     (case tcp4bind sock_r None bind_r of
        Exits c \<Rightarrow> Exits c
      | Returns lfd \<Rightarrow>
          (case Listen listen_r of
             Exits c \<Rightarrow> Exits c
           | Returns n \<Rightarrow> if epoll_r = -1 then Exits 1 else Returns lfd))"

definition epoll_init :: "int \<Rightarrow> int \<Rightarrow> rector \<Rightarrow> rector outcome" where
  "epoll_init lfd ctl_r r =
     (if ctl_r = -1 then Exits 1 else Returns (r\<lparr>ep_tree := (ep_tree r)(lfd \<mapsto> EPOLLIN)\<rparr>))"

fun Run_loop :: "int \<Rightarrow> (errno + ready_event list) list \<Rightarrow> rector \<Rightarrow> echo_end + rector" where
  "Run_loop lfd [] r = Inr r"
| "Run_loop lfd (w # ws) r =
     (case w of
        Inl err \<Rightarrow> if err = EINTR then Run_loop lfd ws r else Inr (ep_close lfd r)
      | Inr evs \<Rightarrow>
          (case run_events (rector_event lfd) evs r of
             Inl f \<Rightarrow> Inl f
           | Inr r' \<Rightarrow> Run_loop lfd ws r'))"

definition Run ::
  "int \<Rightarrow> int \<Rightarrow> int \<Rightarrow> int \<Rightarrow> int \<Rightarrow> (int \<Rightarrow> sock) \<Rightarrow> byte list \<Rightarrow> (errno + ready_event list) list \<Rightarrow> echo_end + rector" where
  "Run sock_r bind_r listen_r epoll_r ctl_r sks buf ws =
     (case listen_bind sock_r bind_r listen_r epoll_r of
        Exits c \<Rightarrow> Inl (Quits c)
      | Returns lfd \<Rightarrow>
          (case epoll_init lfd ctl_r
                  \<lparr>ep_tree = Map.empty, ep_open = {lfd, epoll_r}, ep_names = Map.empty, ep_socks = sks, rc_buffer = buf\<rparr> of
             Exits c \<Rightarrow> Inl (Quits c)
           | Returns r \<Rightarrow> Run_loop lfd ws r))"

section \<open>One client by itself\<close>

text \<open>What each server makes of one client's socket when there is nobody else and every buffer is clean.\<close>

definition clean :: "nat \<Rightarrow> byte list \<Rightarrow> byte list" where
  "clean n d = d @ replicate (n - length d) 0"

definition lt_chat :: "sock \<Rightarrow> echo_end + sock" where
  "lt_chat sk =
     (case Read LT_BufferSize sk of
        None \<Rightarrow> Inl Blocks
      | Some (n, d, sk') \<Rightarrow> if n \<le> 0 then Inr sk' else say (clean LT_BufferSize d) sk')"

function drain_chat :: "nat \<Rightarrow> sock \<Rightarrow> echo_end + sock" where
  "drain_chat cap sk =
     (case read_sys cap sk of
        None \<Rightarrow> Inl Blocks
      | Some (Inl e, sk') \<Rightarrow> Inr sk'
      | Some (Inr d, sk') \<Rightarrow>
          if d = [] then Inr sk'
          else (case say (clean cap d) sk' of
                  Inl f \<Rightarrow> Inl f
                | Inr sk'' \<Rightarrow> drain_chat cap sk''))"
  by pat_completeness auto
termination
  by (relation "measure (\<lambda>(n, sk). length (script sk))") (auto dest!: read_sys_script say_script)

declare drain_chat.simps [simp del]

definition client_of :: "int \<Rightarrow> ready_event \<Rightarrow> int option" where
  "client_of lfd e = (if re_events e AND EPOLLIN \<noteq> 0 \<and> re_fd e \<noteq> lfd then Some (re_fd e) else None)"

lemma ep_ops_socks [simp]:
  "ep_socks (ep_add fd ev s) = ep_socks s" "ep_socks (ep_del fd s) = ep_socks s"
  "ep_socks (ep_close fd s) = ep_socks s" "ep_socks (ep_name fd s) = ep_socks s"
  by (simp_all add: ep_ops)

lemma ep_accept_socks: "ep_accept ev e s = Inr s' \<Longrightarrow> ep_socks s' = ep_socks s"
  by (auto simp: ep_accept_def split: option.splits outcome.splits)

lemma ep_say_socks:
  "ep_say fd buf s = (case say buf (ep_socks s fd) of Inl f \<Rightarrow> Inl f
     | Inr sk \<Rightarrow> Inr (ep_name fd s\<lparr>ep_socks := (ep_socks s)(fd := sk)\<rparr>))"
  by (simp add: ep_say_def)

subsection \<open>The level-triggered server\<close>

lemma lt_client_chat:
  assumes "lt_client fd s = Inr s'"
  shows "lt_chat (ep_socks s fd) = Inr (ep_socks s' fd) \<and> (\<forall>g. g \<noteq> fd \<longrightarrow> ep_socks s' g = ep_socks s g)"
  using assms
  by (auto simp: lt_client_def lt_chat_def clean_def ep_say_def Let_def split: option.splits sum.splits if_splits)

interpretation lt: isolated_clients "lt_event lfd" ep_socks "client_of lfd" lt_chat "\<lambda>s. True" for lfd
  by unfold_locales
    (auto simp: lt_event_def lt_accept_def client_of_def split: if_splits dest!: ep_accept_socks lt_client_chat)

subsection \<open>The reactor class\<close>

definition blank :: "rector \<Rightarrow> bool" where
  "blank r \<longleftrightarrow> rc_buffer r = replicate RC_BUF_LEN 0"

lemma ep_say_buffer: "ep_say fd buf r = Inr r' \<Longrightarrow> rc_buffer r' = rc_buffer r"
  by (auto simp: ep_say_def ep_name_def split: sum.splits if_splits)

lemma rector_loop_chat:
  "rector_loop fd r = Inr r' \<Longrightarrow> blank r \<Longrightarrow>
     drain_chat RC_BUF_LEN (ep_socks r fd) = Inr (ep_socks r' fd) \<and> blank r' \<and>
     (\<forall>g. g \<noteq> fd \<longrightarrow> ep_socks r' g = ep_socks r g)"
proof (induction fd r rule: rector_loop.induct)
  case (1 fd r)
  from "1.prems"(1) obtain n r1 where rd: "read_data fd r = Inr (n, r1)"
    and rest: "(if n \<le> 0 then Inr r1 else case send_data fd r1 of Inl f \<Rightarrow> Inl f | Inr r \<Rightarrow> rector_loop fd r) = Inr r'"
    by (subst (asm) rector_loop.simps) (auto split: sum.splits)
  note unfold = drain_chat.simps [of RC_BUF_LEN "ep_socks r fd"]
  from rd consider (err) e sk where "read_sys RC_BUF_LEN (ep_socks r fd) = Some (Inl e, sk)" "n = -1"
      "r1 = r\<lparr>ep_socks := (ep_socks r)(fd := sk)\<rparr>"
    | (closed) sk where "read_sys RC_BUF_LEN (ep_socks r fd) = Some (Inr [], sk)" "n = 0"
      "ep_socks r1 = (ep_socks r)(fd := sk)" "rc_buffer r1 = rc_buffer r"
    | (data) d sk where "read_sys RC_BUF_LEN (ep_socks r fd) = Some (Inr d, sk)" "d \<noteq> []" "0 < n"
      "r1 = r\<lparr>ep_socks := (ep_socks r)(fd := sk), rc_buffer := d @ drop (length d) (rc_buffer r)\<rparr>"
    by (auto simp: read_data_def Let_def ep_close_def ep_name_def split: option.splits sum.splits if_splits)
  then show ?case
  proof cases
    case err
    then show ?thesis using rest "1.prems"(2) by (subst unfold) (auto simp: blank_def)
  next
    case closed
    then show ?thesis using rest "1.prems"(2) by (subst unfold) (auto simp: blank_def)
  next
    case data
    from rest data(3) obtain r2 where snd: "send_data fd r1 = Inr r2" and loop: "rector_loop fd r2 = Inr r'"
      by (auto split: sum.splits)
    have buf: "rc_buffer r1 = clean RC_BUF_LEN d" using "1.prems"(2) data(4) by (simp add: blank_def clean_def)
    obtain sk' where sk': "say (clean RC_BUF_LEN d) sk = Inr sk'" and socks2: "ep_socks r2 = (ep_socks r)(fd := sk')"
        and blank2: "blank r2"
      using snd data(4) buf by (auto simp: send_data_def ep_say_def blank_def split: sum.splits)
    have IH: "drain_chat RC_BUF_LEN (ep_socks r2 fd) = Inr (ep_socks r' fd) \<and> blank r' \<and>
        (\<forall>g. g \<noteq> fd \<longrightarrow> ep_socks r' g = ep_socks r2 g)"
      using "1.IH" [OF rd refl _ snd loop blank2] data(3) by simp
    then show ?thesis using data(1,2) sk' socks2 by (subst unfold) auto
  qed
qed

interpretation rc: isolated_clients "rector_event lfd" ep_socks "client_of lfd" "drain_chat RC_BUF_LEN" blank for lfd
proof unfold_locales
  fix lfd e and r r' :: rector and fd
  assume r: "blank r" "rector_event lfd e r = Inr r'"
  have acc: "rc_buffer r' = rc_buffer r" if "init_accept e r = Inr r'"
    using that by (auto simp: init_accept_def ep_accept_def ep_add_def split: option.splits outcome.splits if_splits)
  show "blank r'"
    using r acc by (auto simp: rector_event_def blank_def split: if_splits dest: rector_loop_chat)
  show "client_of lfd e = Some fd \<Longrightarrow> drain_chat RC_BUF_LEN (ep_socks r fd) = Inr (ep_socks r' fd)"
    and "client_of lfd e \<noteq> Some fd \<Longrightarrow> ep_socks r' fd = ep_socks r fd"
    using r by (auto simp: rector_event_def init_accept_def client_of_def split: if_splits
        dest: ep_accept_socks rector_loop_chat)
qed

section \<open>Properties\<close>

text \<open>The events a run of the reactor gets to see.\<close>

fun events_of :: "(errno + ready_event list) list \<Rightarrow> ready_event list" where
  "events_of [] = []"
| "events_of (Inl err # ws) = (if err = EINTR then events_of ws else [])"
| "events_of (Inr evs # ws) = evs @ events_of ws"

lemma run_events_append:
  "run_events f (xs @ ys) s = (case run_events f xs s of Inl x \<Rightarrow> Inl x | Inr s' \<Rightarrow> run_events f ys s')"
  by (induction xs arbitrary: s) (auto split: sum.split)

lemma Run_loop_events:
  "Run_loop lfd ws r = Inr r' \<Longrightarrow> \<exists>r1. run_events (rector_event lfd) (events_of ws) r = Inr r1 \<and> ep_socks r' = ep_socks r1"
  by (induction lfd ws r rule: Run_loop.induct) (auto simp: run_events_append split: sum.splits if_splits)

text \<open>
  C9. The clients of the reactor class do not see each other, although all are read into one member
  array: after any run of the program in which that array was blank at first, the socket of each client
  (what was read from it and what it was sent) is that of a server that talks to this client alone and
  starts every answer with a fresh array.
\<close>

theorem rector_isolated:
  assumes "Run lfd bind_r listen_r epoll_r ctl_r sks (replicate RC_BUF_LEN 0) ws = Inr r'"
  shows "run_events (\<lambda>e. drain_chat RC_BUF_LEN) (filter (\<lambda>e. client_of lfd e = Some fd) (events_of ws)) (sks fd) =
    Inr (ep_socks r' fd)"
proof -
  obtain r where r: "Run_loop lfd ws r = Inr r'" "blank r" "ep_socks r = sks"
    using assms by (auto simp: Run_def listen_bind_def tcp4bind_def Socket_def epoll_init_def perr_exit_def blank_def
        split: outcome.splits if_splits)
  obtain r1 where r1: "run_events (rector_event lfd) (events_of ws) r = Inr r1" "ep_socks r' = ep_socks r1"
    using Run_loop_events [OF r(1)] by blast
  from rc.isolated [OF r(2) r1(1)] r1(2) r(3) show ?thesis by simp
qed

text \<open>Pieces of a stream.\<close>

fun pieces :: "nat list \<Rightarrow> byte list \<Rightarrow> byte list list" where
  "pieces [] xs = []"
| "pieces (k # ks) xs = take k xs # pieces ks (drop k xs)"

text \<open>
  Rounds of the kernel: it hands out a piece of the given size and then answers the attempt to write;
  after the last round it has nothing more. Of an answer goes out what the kernel takes.
\<close>

definition in_rounds :: "(nat \<times> io) list \<Rightarrow> io list" where
  "in_rounds rs = concat (map (\<lambda>(k, a). [Bytes k, a]) rs) @ [Fail EAGAIN]"

definition out_part :: "io \<Rightarrow> byte list \<Rightarrow> byte list" where
  "out_part a d = (case a of Bytes w \<Rightarrow> take w d | Fail e \<Rightarrow> [])"

definition echoes :: "(nat \<times> io) list \<Rightarrow> byte list \<Rightarrow> byte list list" where
  "echoes rs xs = map2 (\<lambda>(k, a) d. out_part a (bs ''server data : '' @ d)) rs (pieces (map fst rs) xs)"

lemma in_rounds_Cons: "in_rounds ((k, a) # rs) = Bytes k # a # in_rounds rs"
  by (simp add: in_rounds_def)

lemma echoes_Cons: "echoes ((k, a) # rs) xs = out_part a (bs ''server data : '' @ take k xs) # echoes rs (drop k xs)"
  by (simp add: echoes_def)

lemma say_part:
  assumes "0 \<notin> set d" and "length d < n" and "script sk = a # sc" and "a \<noteq> Fail EINTR"
  shows "say (clean n d) sk = Inr (sk\<lparr>script := sc, outgoing := outgoing sk @ out_part a (bs ''server data : '' @ d)\<rparr>)"
proof -
  have "cstr (clean n d) = Inr d"
  proof -
    have "n - length d = Suc (n - length d - 1)" using assms(2) by simp
    then have "clean n d = d @ 0 # replicate (n - length d - 1) 0" unfolding clean_def by (metis replicate_Suc)
    then show ?thesis using cstr_plain [OF assms(1)] by simp
  qed
  moreover obtain m where "Write (bs ''server data : '' @ d) sk =
      Some (m, sk\<lparr>script := sc, outgoing := outgoing sk @ out_part a (bs ''server data : '' @ d)\<rparr>)"
    using assms(3,4) by (cases a) (simp_all add: Write.simps [of _ sk] write_sys_def out_part_def)
  ultimately show ?thesis by (simp add: say_def)
qed

lemma drain_chat_rounds:
  assumes "list_all (\<lambda>(k, a). 0 < k \<and> k < n \<and> a \<noteq> Fail EINTR) rs" and "sum_list (map fst rs) \<le> length (incoming sk)"
    and "0 \<notin> set (incoming sk)" and "script sk = in_rounds rs @ later"
  shows "drain_chat n sk = Inr (sk\<lparr>script := later, incoming := drop (sum_list (map fst rs)) (incoming sk),
    outgoing := outgoing sk @ concat (echoes rs (incoming sk))\<rparr>)"
  using assms
proof (induction rs arbitrary: sk)
  case Nil
  then show ?case by (simp add: drain_chat.simps [of n sk] read_sys_def in_rounds_def echoes_def)
next
  case (Cons r rs)
  obtain k a where r: "r = (k, a)" by (cases r)
  let ?d = "take k (incoming sk)"
  define sk1 where "sk1 = sk\<lparr>script := a # in_rounds rs @ later, incoming := drop k (incoming sk)\<rparr>"
  define sk2 where "sk2 = sk1\<lparr>script := in_rounds rs @ later, outgoing := outgoing sk @ out_part a (bs ''server data : '' @ ?d)\<rparr>"
  have k: "0 < k" "k < n" "a \<noteq> Fail EINTR" "length ?d = k" "incoming sk \<noteq> []" using Cons.prems(1,2) r by auto
  have rd: "read_sys n sk = Some (Inr ?d, sk1)"
    using k Cons.prems(4) by (simp add: read_sys_def r in_rounds_Cons sk1_def min_absorb2)
  have "0 \<notin> set ?d" using Cons.prems(3) by (meson in_set_takeD)
  then have sy: "say (clean n ?d) sk1 = Inr sk2"
    using say_part [of ?d n sk1 a "in_rounds rs @ later"] k by (simp add: sk1_def sk2_def)
  have "0 \<notin> set (incoming sk2)" using Cons.prems(3) by (auto simp: sk1_def sk2_def dest: in_set_dropD)
  then have IH: "drain_chat n sk2 = Inr (sk2\<lparr>script := later, incoming := drop (sum_list (map fst rs)) (incoming sk2),
      outgoing := outgoing sk2 @ concat (echoes rs (incoming sk2))\<rparr>)"
    using Cons.prems(1,2) r by (intro Cons.IH) (simp_all add: sk1_def sk2_def)
  have "drain_chat n sk = drain_chat n sk2"
    using k(1,5) by (simp add: drain_chat.simps [of n sk] rd sy)
  from trans [OF this IH] show ?case by (simp add: sk1_def sk2_def r echoes_Cons add.commute)
qed

lemma echoes_whole:
  "list_all (\<lambda>(k, a). \<exists>w. a = Bytes w \<and> 14 + k \<le> w) rs \<Longrightarrow> echoes rs xs = map (\<lambda>d. bs ''server data : '' @ d) (pieces (map fst rs) xs)"
  by (induction rs arbitrary: xs) (auto simp: echoes_def out_part_def bs_def)

lemma rector_loop_returns:
  "blank r \<Longrightarrow> drain_chat RC_BUF_LEN (ep_socks r fd) = Inr sk' \<Longrightarrow> \<exists>r'. rector_loop fd r = Inr r'"
proof (induction fd r rule: rector_loop.induct)
  case (1 fd r)
  note unfold = drain_chat.simps [of RC_BUF_LEN "ep_socks r fd"]
  consider (stop) n r1 where "read_data fd r = Inr (n, r1)" "n \<le> 0"
    | (data) d sk where "read_sys RC_BUF_LEN (ep_socks r fd) = Some (Inr d, sk)" "d \<noteq> []"
    using "1.prems"(2) by (subst (asm) unfold) (auto simp: read_data_def Let_def split: option.splits sum.splits if_splits)
  then show ?case
  proof cases
    case stop
    then show ?thesis by (auto simp: rector_loop.simps [of fd r])
  next
    case data
    define r1 where "r1 = r\<lparr>ep_socks := (ep_socks r)(fd := sk), rc_buffer := clean RC_BUF_LEN d\<rparr>"
    have rd: "read_data fd r = Inr (int (length d), r1)"
      using data "1.prems"(1) by (simp add: read_data_def r1_def blank_def clean_def Let_def)
    obtain sk2 where sk2: "say (clean RC_BUF_LEN d) sk = Inr sk2" "drain_chat RC_BUF_LEN sk2 = Inr sk'"
      using "1.prems"(2) data by (subst (asm) unfold) (auto split: sum.splits)
    obtain r2 where r2: "send_data fd r1 = Inr r2" "blank r2" "ep_socks r2 fd = sk2"
      using sk2(1) by (simp add: send_data_def ep_say_def r1_def blank_def)
    have "\<exists>r'. rector_loop fd r2 = Inr r'"
      using "1.IH" [OF rd refl _ r2(1,2)] data(2) r2(3) sk2(2) by simp
    then show ?thesis using data(2) by (auto simp: rector_loop.simps [of fd r] rd r2(1))
  qed
qed

text \<open>
  C35. The answer of the reactor class, whose array was blank at first, to a client whose data arrives in
  pieces of fewer than 1024 bytes without a NUL: every piece is answered by itself, with the text in
  front, in order; of each answer the client gets what the one call of \<open>write\<close> takes (nothing when it
  fails), so all of it just when the kernel takes every answer whole. All data is read and the array is
  blank again.
\<close>

theorem rector_echo:
  assumes "blank r" and "script (ep_socks r fd) = concat (map (\<lambda>(k, a). [Bytes k, a]) rounds) @ [Fail EAGAIN]"
    and "list_all (\<lambda>(k, a). 0 < k \<and> k < 1024 \<and> a \<noteq> Fail EINTR) rounds"
    and "xs = incoming (ep_socks r fd)" and "sum_list (map fst rounds) = length xs" and "0 \<notin> set xs"
  shows "\<exists>r'. rector_loop fd r = Inr r' \<and> blank r' \<and> incoming (ep_socks r' fd) = [] \<and>
    outgoing (ep_socks r' fd) = outgoing (ep_socks r fd) @
      concat (map2 (\<lambda>(k, a) d. case a of Bytes w \<Rightarrow> take w (bs ''server data : '' @ d) | Fail e \<Rightarrow> [])
        rounds (pieces (map fst rounds) xs)) \<and>
    (list_all (\<lambda>(k, a). \<exists>w. a = Bytes w \<and> 14 + k \<le> w) rounds \<longrightarrow>
      outgoing (ep_socks r' fd) = outgoing (ep_socks r fd) @
        concat (map (\<lambda>d. bs ''server data : '' @ d) (pieces (map fst rounds) xs)))"
proof -
  have chat: "drain_chat RC_BUF_LEN (ep_socks r fd) = Inr ((ep_socks r fd)\<lparr>script := [], incoming := [],
      outgoing := outgoing (ep_socks r fd) @ concat (echoes rounds xs)\<rparr>)"
    using drain_chat_rounds [of RC_BUF_LEN rounds "ep_socks r fd" "[]"] assms(2-6) by (simp add: RC_BUF_LEN_def in_rounds_def)
  obtain r' where loop: "rector_loop fd r = Inr r'" using rector_loop_returns [OF assms(1) chat] by blast
  have r': "rector_loop fd r = Inr r'" "blank r'" "incoming (ep_socks r' fd) = []"
    "outgoing (ep_socks r' fd) = outgoing (ep_socks r fd) @ concat (echoes rounds xs)"
  proof -
    have "ep_socks r' fd = (ep_socks r fd)\<lparr>script := [], incoming := [], outgoing := outgoing (ep_socks r fd) @ concat (echoes rounds xs)\<rparr>"
      using rector_loop_chat [OF loop assms(1)] chat by (simp only: sum.inject)
    then show "incoming (ep_socks r' fd) = []" "outgoing (ep_socks r' fd) = outgoing (ep_socks r fd) @ concat (echoes rounds xs)"
      by simp_all
  qed (use loop rector_loop_chat [OF loop assms(1)] in simp_all)
  show ?thesis
  proof (intro exI conjI impI)
    show "outgoing (ep_socks r' fd) = outgoing (ep_socks r fd) @
        concat (map (\<lambda>d. bs ''server data : '' @ d) (pieces (map fst rounds) xs))"
      if "list_all (\<lambda>(k, a). \<exists>w. a = Bytes w \<and> 14 + k \<le> w) rounds"
      using r'(4) echoes_whole [OF that] by simp
  qed (rule r' r'(4) [unfolded echoes_def out_part_def])+
qed

text \<open>A client that sends \<open>hello\<close> in two pieces; the kernel takes only 15 bytes of the second answer.\<close>

definition demo_rector :: rector where
  "demo_rector = \<lparr>ep_tree = [3 \<mapsto> EPOLLIN, 5 \<mapsto> EPOLLIN OR EPOLLET], ep_open = {3, 5}, ep_names = [5 \<mapsto> bs ''10.0.0.1:7000''],
     ep_socks = (\<lambda>fd. \<lparr>script = in_rounds [(3, Bytes 100), (2, Bytes 15)], incoming = bs ''hello'', outgoing = []\<rparr>),
     rc_buffer = replicate RC_BUF_LEN 0\<rparr>"

definition demo_ready :: ready_event where
  "demo_ready = \<lparr>re_events = EPOLLIN, re_fd = 5, re_accept = [], re_addr = []\<rparr>"

lemma demo_rector_ok:
  "blank demo_rector" "script (ep_socks demo_rector 5) = in_rounds [(3, Bytes 100), (2, Bytes 15)]"
  "list_all (\<lambda>(k, a). 0 < k \<and> k < 1024 \<and> a \<noteq> Fail EINTR) [(3 :: nat, Bytes 100), (2, Bytes 15)]"
  "sum_list (map fst [(3, Bytes 100), (2, Bytes 15)]) = length (incoming (ep_socks demo_rector 5))"
  "0 \<notin> set (incoming (ep_socks demo_rector 5))"
  by (simp_all add: demo_rector_def blank_def bs_def)

theorem rector_echo_witness:
  "\<exists>r'. rector_loop 5 demo_rector = Inr r' \<and> outgoing (ep_socks r' 5) = bs ''server data : helserver data : l''"
  using rector_echo [OF demo_rector_ok(1,2) [unfolded in_rounds_def] demo_rector_ok(3) refl demo_rector_ok(4,5)]
  by (auto simp: demo_rector_def bs_def)

text \<open>The same client in a whole run.\<close>

definition demo_rector_run :: "echo_end + rector" where
  "demo_rector_run = Run 3 0 0 4 0 (ep_socks demo_rector) (replicate RC_BUF_LEN 0) [Inr [demo_ready]]"

lemma demo_rector_run_returns: "\<exists>r'. demo_rector_run = Inr r'"
proof -
  define r where "r = \<lparr>ep_tree = [3 \<mapsto> EPOLLIN], ep_open = {3, 4 :: int}, ep_names = Map.empty, ep_socks = ep_socks demo_rector,
    rc_buffer = replicate RC_BUF_LEN 0\<rparr>"
  have "blank r" by (simp add: r_def blank_def)
  then obtain r' where "rector_loop 5 r = Inr r'"
    using rector_loop_returns [of r 5] drain_chat_rounds [of RC_BUF_LEN "[(3, Bytes 100), (2, Bytes 15)]" "ep_socks demo_rector 5" "[]"]
      demo_rector_ok by (fastforce simp: RC_BUF_LEN_def r_def)
  then show ?thesis
    by (simp add: demo_rector_run_def Run_def listen_bind_def tcp4bind_def Socket_def Bind_def Listen_def epoll_init_def
        rector_event_def demo_ready_def EPOLLIN_def r_def)
qed

theorem rector_isolated_witness:
  "\<exists>r'. demo_rector_run = Inr r' \<and>
     run_events (\<lambda>e. drain_chat RC_BUF_LEN) [demo_ready] (ep_socks demo_rector 5) = Inr (ep_socks r' 5)"
proof -
  obtain r' where run: "demo_rector_run = Inr r'" using demo_rector_run_returns by blast
  have "filter (\<lambda>e. client_of 3 e = Some 5) (events_of [Inr [demo_ready]]) = [demo_ready]"
    by (simp add: client_of_def demo_ready_def EPOLLIN_def)
  with rector_isolated [OF run [unfolded demo_rector_run_def], of 5] run show ?thesis by auto
qed

text \<open>
  The edge-triggered server answers with memory it never wrote: its array is not initialised, and the
  string that is sent back goes on behind the received bytes up to the first NUL that happens to be there.
\<close>

theorem et_exposes_memory:
  assumes "script (ep_socks s fd) = [Bytes (length d), Bytes 1600, Fail EAGAIN]" and "incoming (ep_socks s fd) = d"
    and "d \<noteq> []" and "length d < 1500" and "0 \<notin> set d"
    and "length m = 1500" and "0 \<in> set (drop (length d) m)"
  shows "\<exists>s'. et_loop (\<lambda>sk. m) fd s = Inr s' \<and>
    outgoing (ep_socks s' fd) = outgoing (ep_socks s fd) @ bs ''server data : '' @ d @ takeWhile (\<lambda>b. b \<noteq> 0) (drop (length d) m)"
proof -
  define str where "str = d @ takeWhile (\<lambda>b. b \<noteq> 0) (drop (length d) m)"
  define sk where "sk = (ep_socks s fd)\<lparr>script := [Bytes 1600, Fail EAGAIN], incoming := []\<rparr>"
  define sk' where "sk' = sk\<lparr>script := [Fail EAGAIN], outgoing := outgoing sk @ bs ''server data : '' @ str\<rparr>"
  have rd: "read_sys 1500 (ep_socks s fd) = Some (Inr d, sk)"
    using assms(1-4) by (simp add: read_sys_def sk_def)
  have c: "cstr (d @ drop (length d) m) = Inr str"
    using assms(7) by (simp add: cstr_def str_def) (rule takeWhile_append2, use assms(5) in auto)
  have "length str \<le> 1500"
    using length_takeWhile_le [of "\<lambda>b. b \<noteq> 0" "drop (length d) m"] assms(4,6) by (simp add: str_def)
  moreover have "length (bs ''server data : '') = 14" by (simp add: bs_def)
  ultimately have sy: "say (d @ drop (length d) m) sk = Inr sk'"
    using c by (simp add: say_def Write.simps write_sys_def sk_def sk'_def)
  have "read_sys 1500 sk' = Some (Inl EAGAIN, sk'\<lparr>script := []\<rparr>)" by (simp add: read_sys_def sk'_def)
  then have stop: "\<exists>s'. et_loop (\<lambda>sk. m) fd t = Inr s' \<and> ep_socks s' fd = sk'\<lparr>script := []\<rparr>" if "ep_socks t fd = sk'" for t
    using that by (simp add: et_loop.simps [of _ fd t] ReadBufferSize_et_def Let_def)
  have "\<exists>s'. et_loop (\<lambda>sk. m) fd s = Inr s' \<and> ep_socks s' fd = sk'\<lparr>script := []\<rparr>"
    using rd assms(3) sy by (simp add: et_loop.simps [of _ fd s] ReadBufferSize_et_def Let_def ep_say_def stop)
  then show ?thesis by (auto simp: sk'_def sk_def str_def)
qed

theorem et_exposes_memory_witness:
  "\<exists>s'. et_loop (\<lambda>sk. bs ''secret'' @ replicate 1494 0) 5 (ep.truncate (demo_rector\<lparr>ep_socks := (\<lambda>fd.
       \<lparr>script = [Bytes 2, Bytes 1600, Fail EAGAIN], incoming = bs ''hi'', outgoing = []\<rparr>)\<rparr>)) = Inr s' \<and>
     outgoing (ep_socks s' 5) = bs ''server data : hicret''"
  using et_exposes_memory [of "ep.truncate (demo_rector\<lparr>ep_socks := (\<lambda>fd.
       \<lparr>script = [Bytes 2, Bytes 1600, Fail EAGAIN], incoming = bs ''hi'', outgoing = []\<rparr>)\<rparr>)" 5 "bs ''hi''"
      "bs ''secret'' @ replicate 1494 0"]
  by (simp add: demo_rector_def ep.defs bs_def)

text \<open>
  With its array of four bytes the server on the thread pool reads behind the end of the array whenever a
  client sends four bytes without a NUL at once.
\<close>

lemma pool_task_overrun:
  assumes "script (ep_socks s fd) = Bytes 4 # sc" and "4 \<le> length (incoming (ep_socks s fd))"
    and "0 \<notin> set (incoming (ep_socks s fd))" and "\<forall>sk. length (junk sk) = 4"
  shows "commit_loop junk fd s = Inl (Bad Out_of_bounds)"
proof -
  let ?d = "take 4 (incoming (ep_socks s fd))"
  have "0 \<notin> set ?d" using assms(3) by (meson in_set_takeD)
  then have "say (?d @ drop (length ?d) (junk sk)) sk' = Inl (Bad Out_of_bounds)" for sk sk'
    using assms(2,4) by (simp add: say_def cstr_def)
  then have "thread_read_write junk fd s = Inl (Bad Out_of_bounds)"
    using assms(1,2) by (auto simp: thread_read_write_def read_sys_def ReadBufferSize_pool_def Let_def)
  then show ?thesis by (simp add: commit_loop.simps)
qed

end
