(* ===== verification/Select_Servers.thy ===== *)
theory Select_Servers
  imports Echo_Servers
begin

text \<open>
  The servers on \<open>select\<close> and \<open>poll\<close>: \<open>src/select_epoll/select_study.cpp\<close>, which looks at every
  descriptor up to the largest, \<open>select_advance.cpp\<close>, which keeps its clients in an array and counts the
  ready ones down, and \<open>src/poll_study/poll.cpp\<close>. The kernel's answer to \<open>select\<close> is a set of ready
  descriptors, of which those in the given set count; its answer to \<open>poll\<close> is a list of \<open>revents\<close>.
\<close>

section \<open>Descriptor sets\<close>

definition FD_SETSIZE :: int where "FD_SETSIZE = 1024"

record sel =
  sl_set :: "int set"
  sl_maxfd :: int
  sl_open :: "int set"
  sl_socks :: "int \<Rightarrow> sock"

text \<open>An \<open>fd_set\<close> has 1024 bits; \<open>FD_SET\<close> does not check.\<close>

definition FD_SET :: "int \<Rightarrow> 'a sel_scheme \<Rightarrow> echo_end + 'a sel_scheme" where
  "FD_SET fd s = (if 0 \<le> fd \<and> fd < FD_SETSIZE then Inr (s\<lparr>sl_set := insert fd (sl_set s)\<rparr>) else Inl (Bad Out_of_bounds))"

definition sel_close :: "int \<Rightarrow> 'a sel_scheme \<Rightarrow> 'a sel_scheme" where
  "sel_close fd s = s\<lparr>sl_open := sl_open s - {fd}, sl_set := sl_set s - {fd}\<rparr>"

text \<open>The descriptors that \<open>select(maxfd + 1, ...)\<close> leaves in the set.\<close>

definition sel_ready :: "int set \<Rightarrow> 'a sel_scheme \<Rightarrow> int set" where
  "sel_ready readable s = {fd \<in> sl_set s. fd \<le> sl_maxfd s \<and> fd \<in> readable}"

section \<open>The server that looks at every descriptor\<close>

definition ss_BufferSize :: nat where "ss_BufferSize = 1500"

definition ss_accept :: "(errno + int) list \<Rightarrow> sel \<Rightarrow> echo_end + sel" where
  "ss_accept answers s =
     (case Accept answers of
        None \<Rightarrow> Inl Blocks
      | Some (Exits c, _) \<Rightarrow> Inl (Quits c)
      | Some (Returns cfd, _) \<Rightarrow>
          (case FD_SET cfd (s\<lparr>sl_open := insert cfd (sl_open s)\<rparr>) of
             Inl f \<Rightarrow> Inl f
           | Inr s \<Rightarrow> Inr (s\<lparr>sl_maxfd := (if cfd > sl_maxfd s then cfd else sl_maxfd s)\<rparr>)))"

text \<open>Here the answer is written with the system call, whose result is not looked at.\<close>

definition ss_client :: "int \<Rightarrow> sel \<Rightarrow> echo_end + sel" where
  "ss_client i s =
     (case Read ss_BufferSize (sl_socks s i) of
        None \<Rightarrow> Inl Blocks
      | Some (n, d, sk) \<Rightarrow>
          let buffer = d @ replicate (ss_BufferSize - length d) 0;
              s = s\<lparr>sl_socks := (sl_socks s)(i := sk)\<rparr>
          in if n \<le> 0 then Inr (sel_close i s)
             else (case cstr buffer of
                     Inl f \<Rightarrow> Inl (Bad f)
                   | Inr str \<Rightarrow>
                       (case write_sys (bs ''server data : '' @ str) sk of
                          None \<Rightarrow> Inl Blocks
                        | Some (r, sk') \<Rightarrow> Inr (s\<lparr>sl_socks := (sl_socks s)(i := sk')\<rparr>))))"

fun ss_clients :: "int list \<Rightarrow> int set \<Rightarrow> sel \<Rightarrow> echo_end + sel" where
  "ss_clients [] r_set s = Inr s"
| "ss_clients (i # is) r_set s =
     (if i \<in> r_set
      then (case ss_client i s of Inl f \<Rightarrow> Inl f | Inr s' \<Rightarrow> ss_clients is r_set s')
      else ss_clients is r_set s)"

text \<open>One round; \<open>None\<close> when \<open>select\<close> fails, which ends the loop.\<close>

definition ss_round :: "int \<Rightarrow> errno + int set \<Rightarrow> (errno + int) list \<Rightarrow> sel \<Rightarrow> (echo_end + sel) option" where
  "ss_round lfd answer accepts s =
     (case answer of
        Inl err \<Rightarrow> None
      | Inr readable \<Rightarrow>
          let r_set = sel_ready readable s;
              n = card r_set
          in Some (if n = 0 then Inr s
              else if lfd \<in> r_set
                   then (case ss_accept accepts s of
                           Inl f \<Rightarrow> Inl f
                         | Inr s' \<Rightarrow> if n - 1 = 0 then Inr s' else ss_clients [lfd + 1..sl_maxfd s'] r_set s')
                   else ss_clients [lfd + 1..sl_maxfd s] r_set s))"

section \<open>The server with an array of clients\<close>

definition SA_BUFSIZ :: nat where "SA_BUFSIZ = 8192"

text \<open>\<open>toupper\<close> in the C locale.\<close>

definition toupper :: "byte \<Rightarrow> byte" where
  "toupper c = (if 97 \<le> c \<and> c \<le> 122 then c - 32 else c)"

record sa = sel +
  clients :: "int list"
  maxi :: int

definition sa_init :: "int \<Rightarrow> (int \<Rightarrow> sock) \<Rightarrow> echo_end + sa" where
  "sa_init listenfd sks =
     FD_SET listenfd \<lparr>sl_set = {}, sl_maxfd = listenfd, sl_open = {listenfd}, sl_socks = sks,
       clients = replicate (nat FD_SETSIZE) (-1), maxi = -1\<rparr>"

text \<open>The first free place of the array, or its length.\<close>

fun client_slot :: "int list \<Rightarrow> nat" where
  "client_slot [] = 0"
| "client_slot (c # cs) = (if c < 0 then 0 else Suc (client_slot cs))"

definition sa_accept :: "(errno + int) list \<Rightarrow> sa \<Rightarrow> echo_end + sa" where
  "sa_accept answers s =
     (case Accept answers of
        None \<Rightarrow> Inl Blocks
      | Some (Exits c, _) \<Rightarrow> Inl (Quits c)
      | Some (Returns connfd, _) \<Rightarrow>
          let s = s\<lparr>sl_open := insert connfd (sl_open s)\<rparr>;
              i = client_slot (clients s)
          in if int i = FD_SETSIZE then Inl (Quits 1)
             else (case FD_SET connfd (s\<lparr>clients := (clients s)[i := connfd]\<rparr>) of
                     Inl f \<Rightarrow> Inl f
                   | Inr s \<Rightarrow>
                       Inr (s\<lparr>sl_maxfd := (if connfd > sl_maxfd s then connfd else sl_maxfd s),
                              maxi := (if int i > maxi s then int i else maxi s)\<rparr>)))"

text \<open>A client whose read fails is left as it is.\<close>

definition sa_client :: "nat \<Rightarrow> int \<Rightarrow> sa \<Rightarrow> echo_end + sa" where
  "sa_client i sockfd s =
     (case Read SA_BUFSIZ (sl_socks s sockfd) of
        None \<Rightarrow> Inl Blocks
      | Some (n, d, sk) \<Rightarrow>
          let s = s\<lparr>sl_socks := (sl_socks s)(sockfd := sk)\<rparr>
          in if n = 0 then Inr (sel_close sockfd s\<lparr>clients := (clients s)[i := -1]\<rparr>)
             else if n > 0
                  then (case Write (map toupper d) sk of
                          None \<Rightarrow> Inl Blocks
                        | Some (r, sk') \<Rightarrow> Inr (s\<lparr>sl_socks := (sl_socks s)(sockfd := sk')\<rparr>))
             else Inr s)"

fun sa_clients :: "nat list \<Rightarrow> int set \<Rightarrow> int \<Rightarrow> sa \<Rightarrow> echo_end + sa" where
  "sa_clients [] rset nready s = Inr s"
| "sa_clients (i # is) rset nready s =
     (let sockfd = clients s ! i
      in if sockfd < 0 then sa_clients is rset nready s
         else if sockfd \<in> rset
              then (case sa_client i sockfd s of
                      Inl f \<Rightarrow> Inl f
                    | Inr s' \<Rightarrow> if nready - 1 = 0 then Inr s' else sa_clients is rset (nready - 1) s')
         else sa_clients is rset nready s)"

definition sa_round :: "int \<Rightarrow> errno + int set \<Rightarrow> (errno + int) list \<Rightarrow> sa \<Rightarrow> echo_end + sa" where
  "sa_round listenfd answer accepts s =
     (case answer of
        Inl err \<Rightarrow> Inl (Quits (-1))
      | Inr readable \<Rightarrow>
          let rset = sel_ready readable s;
              nready = int (card rset)
          in if listenfd \<in> rset
             then (case sa_accept accepts s of
                     Inl f \<Rightarrow> Inl f
                   | Inr s' \<Rightarrow>
                       if nready - 1 = 0 then Inr s' else sa_clients [0..<nat (maxi s' + 1)] rset (nready - 1) s')
             else sa_clients [0..<nat (maxi s + 1)] rset nready s)"

section \<open>One client by itself\<close>

definition ss_chat :: "sock \<Rightarrow> echo_end + sock" where
  "ss_chat sk =
     (case Read ss_BufferSize sk of
        None \<Rightarrow> Inl Blocks
      | Some (n, d, sk) \<Rightarrow>
          if n \<le> 0 then Inr sk
          else (case cstr (clean ss_BufferSize d) of
                  Inl f \<Rightarrow> Inl (Bad f)
                | Inr str \<Rightarrow>
                    (case write_sys (bs ''server data : '' @ str) sk of
                       None \<Rightarrow> Inl Blocks
                     | Some (r, sk') \<Rightarrow> Inr sk')))"

definition sa_chat :: "sock \<Rightarrow> echo_end + sock" where
  "sa_chat sk =
     (case Read SA_BUFSIZ sk of
        None \<Rightarrow> Inl Blocks
      | Some (n, d, sk) \<Rightarrow>
          if n \<le> 0 then Inr sk
          else (case Write (map toupper d) sk of None \<Rightarrow> Inl Blocks | Some (r, sk') \<Rightarrow> Inr sk'))"

interpretation ss: isolated_clients ss_client sl_socks Some ss_chat "\<lambda>s. True"
  by unfold_locales
    (auto simp: ss_client_def ss_chat_def clean_def sel_close_def Let_def split: option.splits sum.splits if_splits)

interpretation sa: isolated_clients "\<lambda>(i, fd). sa_client i fd" sl_socks "\<lambda>(i, fd). Some fd" sa_chat "\<lambda>s. True"
  by unfold_locales
    (auto simp: sa_client_def sa_chat_def sel_close_def Let_def split: option.splits sum.splits if_splits)

section \<open>A round serves whoever is ready\<close>

text \<open>When no client has two events, each is talked to once and the others are left alone.\<close>

context isolated_clients
begin

lemma served_once:
  assumes "inv s" and "run_events handle es s = Inr s'" and "distinct (map target es)"
  shows "if Some fd \<in> target ` set es then chat (socks s fd) = Inr (socks s' fd) else socks s' fd = socks s fd"
proof (cases "Some fd \<in> target ` set es")
  case True
  then obtain e where e: "e \<in> set es" "target e = Some fd" by force
  then obtain xs ys where es: "es = xs @ e # ys" by (meson split_list)
  have "filter (\<lambda>e. target e = Some fd) xs = []" "filter (\<lambda>e. target e = Some fd) ys = []"
    using assms(3) e(2) by (force simp: es filter_empty_conv)+
  with isolated [OF assms(1,2), of fd] e(2) show ?thesis by (auto simp: es split: sum.splits)
next
  case False
  then have "filter (\<lambda>e. target e = Some fd) es = []" by (force simp: filter_empty_conv)
  with isolated [OF assms(1,2), of fd] False show ?thesis by simp
qed

end

subsection \<open>The array of clients\<close>

text \<open>
  The array, the watched set and the two maxima agree: every client has one place, is watched, and is
  below both maxima.
\<close>

definition sa_inv :: "int \<Rightarrow> sa \<Rightarrow> bool" where
  "sa_inv lfd s \<longleftrightarrow> length (clients s) = 1024 \<and> 0 \<le> lfd \<and>
     sl_set s = insert lfd {clients s ! i | i. i < 1024 \<and> 0 \<le> clients s ! i} \<and> sl_open s = sl_set s \<and>
     (\<forall>i < 1024. clients s ! i \<noteq> lfd) \<and>
     (\<forall>i < 1024. \<forall>j < 1024. 0 \<le> clients s ! i \<and> clients s ! i = clients s ! j \<longrightarrow> i = j) \<and>
     (\<forall>i < 1024. 0 \<le> clients s ! i \<longrightarrow> int i \<le> maxi s) \<and> maxi s < 1024 \<and>
     (\<forall>fd \<in> sl_set s. fd \<le> sl_maxfd s \<and> fd < 1024)"

lemma sa_invI:
  assumes "length (clients s) = 1024" and "0 \<le> lfd"
    and "sl_set s = insert lfd {clients s ! i | i. i < 1024 \<and> 0 \<le> clients s ! i}" and "sl_open s = sl_set s"
    and "\<And>i. i < 1024 \<Longrightarrow> clients s ! i \<noteq> lfd"
    and "\<And>i j. i < 1024 \<Longrightarrow> j < 1024 \<Longrightarrow> 0 \<le> clients s ! i \<Longrightarrow> clients s ! i = clients s ! j \<Longrightarrow> i = j"
    and "\<And>i. i < 1024 \<Longrightarrow> 0 \<le> clients s ! i \<Longrightarrow> int i \<le> maxi s" and "maxi s < 1024"
    and "\<And>fd. fd \<in> sl_set s \<Longrightarrow> fd \<le> sl_maxfd s \<and> fd < 1024"
  shows "sa_inv lfd s"
  unfolding sa_inv_def using assms(1-5,7-9) by (intro conjI allI impI ballI) (use assms(6) in simp_all)

lemma sa_invD:
  assumes "sa_inv lfd s"
  shows "length (clients s) = 1024" and "0 \<le> lfd"
    and "sl_set s = insert lfd {clients s ! i | i. i < 1024 \<and> 0 \<le> clients s ! i}" and "sl_open s = sl_set s"
    and "i < 1024 \<Longrightarrow> clients s ! i \<noteq> lfd"
    and "i < 1024 \<Longrightarrow> j < 1024 \<Longrightarrow> 0 \<le> clients s ! i \<Longrightarrow> clients s ! i = clients s ! j \<Longrightarrow> i = j"
    and "i < 1024 \<Longrightarrow> 0 \<le> clients s ! i \<Longrightarrow> int i \<le> maxi s" and "maxi s < 1024"
    and "fd \<in> sl_set s \<Longrightarrow> fd \<le> sl_maxfd s \<and> fd < 1024"
  using assms unfolding sa_inv_def by blast+

definition fresh_accepts :: "(errno + int) list \<Rightarrow> 'a sel_scheme \<Rightarrow> bool" where
  "fresh_accepts accepts s \<longleftrightarrow> (\<forall>fd. Inr fd \<in> set accepts \<longrightarrow> 0 \<le> fd \<and> fd \<notin> sl_open s)"

lemma Accept_fd: "Accept answers = Some (Returns fd, rest) \<Longrightarrow> Inr fd \<in> set answers"
  by (induction answers rule: Accept.induct) (auto simp: perr_exit_def split: if_splits)

lemma client_slot_le: "client_slot cs \<le> length cs"
  by (induction cs) auto

lemma client_slot_free: "client_slot cs < length cs \<Longrightarrow> cs ! client_slot cs < 0"
  by (induction cs) auto

lemma sa_init_inv: "sa_init lfd sks = Inr s \<Longrightarrow> sa_inv lfd s"
  by (auto simp: sa_init_def FD_SET_def sa_inv_def FD_SETSIZE_def split: if_splits)

lemma sa_accept_inv:
  assumes "sa_inv lfd s" and "fresh_accepts answers s" and "sa_accept answers s = Inr s'"
  obtains connfd where "sa_inv lfd s'" "sl_set s' = insert connfd (sl_set s)" "connfd \<notin> sl_set s" "sl_socks s' = sl_socks s"
proof -
  from assms(3) obtain connfd rest where acc: "Accept answers = Some (Returns connfd, rest)"
    by (auto simp: sa_accept_def split: option.splits prod.splits outcome.splits)
  define i where "i = client_slot (clients s)"
  have new: "0 \<le> connfd" "connfd \<notin> sl_set s"
    using Accept_fd [OF acc] assms(1,2) by (auto simp: fresh_accepts_def sa_inv_def)
  note inv = sa_invD [OF assms(1)]
  note len = inv(1)
  have st: "i \<noteq> 1024" "connfd < 1024"
    "s' = s\<lparr>sl_open := insert connfd (sl_open s), clients := (clients s)[i := connfd], sl_set := insert connfd (sl_set s),
      sl_maxfd := max connfd (sl_maxfd s), maxi := max (int i) (maxi s)\<rparr>"
    using assms(3) acc by (auto simp: sa_accept_def Let_def FD_SET_def FD_SETSIZE_def i_def max_def split: if_splits)
  have i: "i < 1024" "clients s ! i < 0"
    using st(1) len client_slot_le [of "clients s"] client_slot_free [of "clients s"] by (auto simp: i_def)
  have "{(clients s)[i := connfd] ! j | j. j < 1024 \<and> 0 \<le> (clients s)[i := connfd] ! j} =
      insert connfd {clients s ! j | j. j < 1024 \<and> 0 \<le> clients s ! j}" (is "?l = ?r")
  proof
    show "?l \<subseteq> ?r" using i(1) by (auto simp: nth_list_update len split: if_splits)
    show "?r \<subseteq> ?l"
    proof
      fix x assume "x \<in> ?r"
      then consider "x = connfd" | j where "x = clients s ! j" "j < 1024" "0 \<le> clients s ! j" by auto
      then show "x \<in> ?l"
      proof cases
        case 1
        then show ?thesis using i(1) new(1) len by (auto intro!: exI [of _ i])
      next
        case 2
        then have "j \<noteq> i" using i(2) by auto
        with 2 show ?thesis by (auto intro!: exI [of _ j])
      qed
    qed
  qed
  then have set: "sl_set s' = insert lfd {clients s' ! j | j. j < 1024 \<and> 0 \<le> clients s' ! j}"
    using inv(3) by (simp add: st(3) insert_commute)
  have upd: "clients s' ! j = (if j = i then connfd else clients s ! j)" for j
    using i(1) len by (auto simp: st(3) nth_list_update)
  have old: "clients s ! j \<noteq> connfd" if "j < 1024" for j using inv(3) new that by auto
  have "sa_inv lfd s'"
  proof (rule sa_invI)
    show "sl_set s' = insert lfd {clients s' ! j | j. j < 1024 \<and> 0 \<le> clients s' ! j}" by (rule set)
    show "clients s' ! j \<noteq> lfd" if "j < 1024" for j using inv(3,5) new(2) that by (auto simp: upd)
    show "j = k" if "j < 1024" "k < 1024" "0 \<le> clients s' ! j" "clients s' ! j = clients s' ! k" for j k
      using that old [of j] old [of k] inv(6) by (auto simp: upd split: if_splits)
    show "int j \<le> maxi s'" if "j < 1024" "0 \<le> clients s' ! j" for j
    proof -
      have "maxi s' = max (int i) (maxi s)" by (simp add: st(3))
      then show ?thesis using that inv(7) [of j] by (auto simp: upd split: if_splits)
    qed
    show "fd \<le> sl_maxfd s' \<and> fd < 1024" if "fd \<in> sl_set s'" for fd
      using that st(2) inv(9) [of fd] by (auto simp: st(3) le_max_iff_disj)
  qed (use inv(1,2,4,8) i(1) in \<open>auto simp: st(3)\<close>)
  then show ?thesis using that [of connfd] new st(3) by simp
qed

lemma sa_client_slots: "sa_client i fd s = Inr s' \<Longrightarrow> j \<noteq> i \<Longrightarrow> clients s' ! j = clients s ! j"
  by (auto simp: sa_client_def sel_close_def Let_def split: option.splits if_splits)

lemma sa_client_inv:
  assumes "sa_inv lfd s" and "i < 1024" and "clients s ! i = fd" and "0 \<le> fd" and "sa_client i fd s = Inr s'"
  shows "sa_inv lfd s'"
proof -
  have same: "sa_inv lfd (s\<lparr>sl_socks := f\<rparr>)" for f using assms(1) by (simp add: sa_inv_def)
  note inv = sa_invD [OF assms(1)]
  note len = inv(1)
  have uniq: "j = i" if "j < 1024" "clients s ! j = fd" for j using assms(1-4) that by (auto simp: sa_inv_def)
  have upd: "(clients s)[i := -1] ! j = (if j = i then -1 else clients s ! j)" for j
    using assms(2) len by (auto simp: nth_list_update)
  have "{(clients s)[i := -1] ! j | j. j < 1024 \<and> 0 \<le> (clients s)[i := -1] ! j} =
      {clients s ! j | j. j < 1024 \<and> 0 \<le> clients s ! j} - {fd}"
    using assms(3) by (auto simp: upd split: if_splits dest: uniq)
  moreover have "fd \<noteq> lfd" using assms(1-3) by (auto simp: sa_inv_def)
  ultimately have set: "sl_set s - {fd} = insert lfd {(clients s)[i := -1] ! j | j. j < 1024 \<and> 0 \<le> (clients s)[i := -1] ! j}"
    using assms(1) by (auto simp: sa_inv_def)
  have "sa_inv lfd (sel_close fd (s\<lparr>sl_socks := f\<rparr>)\<lparr>clients := (clients s)[i := -1]\<rparr>)" for f
  proof (rule sa_invI)
    let ?t = "sel_close fd (s\<lparr>sl_socks := f\<rparr>)\<lparr>clients := (clients s)[i := -1]\<rparr>"
    show "sl_set ?t = insert lfd {clients ?t ! j | j. j < 1024 \<and> 0 \<le> clients ?t ! j}" using set by (simp add: sel_close_def)
    show "clients ?t ! j \<noteq> lfd" if "j < 1024" for j using inv(2) inv(5) [OF that] by (auto simp: upd)
    show "j = k" if "j < 1024" "k < 1024" "0 \<le> clients ?t ! j" "clients ?t ! j = clients ?t ! k" for j k
      using that inv(6) [of j k] by (auto simp: upd split: if_splits)
    show "int j \<le> maxi ?t" if "j < 1024" "0 \<le> clients ?t ! j" for j
      using that inv(7) [of j] by (auto simp: upd sel_close_def split: if_splits)
    show "g \<le> sl_maxfd ?t \<and> g < 1024" if "g \<in> sl_set ?t" for g
      using that inv(9) by (auto simp: sel_close_def)
  qed (use inv(1,2,4,8) in \<open>auto simp: sel_close_def\<close>)
  with same show ?thesis using assms(5) by (auto simp: sa_client_def Let_def split: option.splits if_splits)
qed

lemma sa_clients_inv:
  "sa_inv lfd s \<Longrightarrow> set is \<subseteq> {..<1024} \<Longrightarrow> sa_clients is rset nready s = Inr s' \<Longrightarrow> sa_inv lfd s'"
proof (induction "is" arbitrary: nready s)
  case (Cons i "is")
  then show ?case
    by (auto simp: Let_def split: if_splits sum.splits intro: sa_client_inv dest: sa_client_inv [of lfd s i "clients s ! i"])
qed simp

text \<open>Counting down ends the loop only when nobody is left to be served.\<close>

definition hits :: "nat list \<Rightarrow> int set \<Rightarrow> sa \<Rightarrow> (nat \<times> int) list" where
  "hits is rset s = map (\<lambda>i. (i, clients s ! i)) (filter (\<lambda>i. 0 \<le> clients s ! i \<and> clients s ! i \<in> rset) is)"

lemma sa_clients_run:
  "distinct is \<Longrightarrow> int (length (hits is rset s)) \<le> nready \<Longrightarrow>
     sa_clients is rset nready s = run_events (\<lambda>(i, fd). sa_client i fd) (hits is rset s) s"
proof (induction "is" arbitrary: nready s)
  case (Cons i "is")
  have keep: "hits is rset s' = hits is rset s" if "sa_client i (clients s ! i) s = Inr s'" for s'
  proof -
    have "clients s' ! j = clients s ! j" if "j \<in> set is" for j
      using sa_client_slots [OF \<open>sa_client i (clients s ! i) s = Inr s'\<close>, of j] that Cons.prems(1) by auto
    then show ?thesis unfolding hits_def by (intro map_cong filter_cong) auto
  qed
  show ?case
  proof (cases "0 \<le> clients s ! i \<and> clients s ! i \<in> rset")
    case True
    then have h: "hits (i # is) rset s = (i, clients s ! i) # hits is rset s" by (simp add: hits_def)
    show ?thesis
    proof (cases "sa_client i (clients s ! i) s")
      case (Inr s')
      then show ?thesis using Cons h True keep [OF Inr] by (auto simp: Let_def)
    qed (use h True in \<open>simp add: Let_def\<close>)
  next
    case False
    then have "hits (i # is) rset s = hits is rset s" by (simp add: hits_def)
    then show ?thesis using Cons False by (auto simp: Let_def)
  qed
qed (simp add: hits_def)

lemma hits_all:
  assumes "sa_inv lfd s" and "rset \<subseteq> sl_set s"
  shows "distinct (map snd (hits [0..<nat (maxi s + 1)] rset s))"
    and "snd ` set (hits [0..<nat (maxi s + 1)] rset s) = rset - {lfd}"
proof -
  have lt: "i < 1024" if "i < nat (maxi s + 1)" for i using assms(1) that by (auto simp: sa_inv_def)
  have "inj_on (\<lambda>i. clients s ! i) {i. i < nat (maxi s + 1) \<and> 0 \<le> clients s ! i \<and> clients s ! i \<in> rset}"
    using assms(1) lt by (auto simp: sa_inv_def inj_on_def)
  then show "distinct (map snd (hits [0..<nat (maxi s + 1)] rset s))"
    by (auto simp: hits_def distinct_map comp_def elim: inj_on_subset)
  have ex: "\<exists>i < nat (maxi s + 1). 0 \<le> clients s ! i \<and> clients s ! i = fd" if fd: "fd \<in> rset" "fd \<noteq> lfd" for fd
  proof -
    have "fd \<in> sl_set s" using assms(2) fd(1) by auto
    then obtain i where "i < 1024" "0 \<le> clients s ! i" "clients s ! i = fd" using assms(1) fd(2) by (auto simp: sa_inv_def)
    moreover from this have "int i \<le> maxi s" using assms(1) by (auto simp: sa_inv_def)
    ultimately show ?thesis by (intro exI [of _ i]) auto
  qed
  have no: "clients s ! i \<noteq> lfd" if "i < nat (maxi s + 1)" for i using sa_invD(5) [OF assms(1) lt [OF that]] .
  show "snd ` set (hits [0..<nat (maxi s + 1)] rset s) = rset - {lfd}"
  proof
    show "snd ` set (hits [0..<nat (maxi s + 1)] rset s) \<subseteq> rset - {lfd}" by (auto simp: hits_def dest: no [THEN notE])
    show "rset - {lfd} \<subseteq> snd ` set (hits [0..<nat (maxi s + 1)] rset s)"
    proof
      fix fd assume fd: "fd \<in> rset - {lfd}"
      then obtain i where "i < nat (maxi s + 1)" "0 \<le> clients s ! i" "clients s ! i = fd" using ex by blast
      with fd have "(i, fd) \<in> set (hits [0..<nat (maxi s + 1)] rset s)" by (auto simp: hits_def)
      then show "fd \<in> snd ` set (hits [0..<nat (maxi s + 1)] rset s)" by force
    qed
  qed
qed

text \<open>The states the server can be in.\<close>

inductive sa_reach :: "int \<Rightarrow> sa \<Rightarrow> bool" for listenfd where
  init: "sa_init listenfd sks = Inr s \<Longrightarrow> sa_reach listenfd s"
| round: "sa_reach listenfd s \<Longrightarrow> fresh_accepts accepts s \<Longrightarrow> sa_round listenfd answer accepts s = Inr s' \<Longrightarrow>
    sa_reach listenfd s'"

lemma sel_ready_sub: "sel_ready readable s \<subseteq> sl_set s"
  by (auto simp: sel_ready_def)

lemma sa_inv_finite: "sa_inv lfd s \<Longrightarrow> finite (sl_set s)"
  by (simp add: sa_invD(3))

lemma sa_clients_serve:
  assumes "sa_inv lfd s" and "rset \<subseteq> sl_set s" and "int (card (rset - {lfd})) \<le> nready"
    and "sa_clients [0..<nat (maxi s + 1)] rset nready s = Inr s'"
  shows "sa_inv lfd s'" and "if fd \<in> rset - {lfd} then sa_chat (sl_socks s fd) = Inr (sl_socks s' fd) else sl_socks s' fd = sl_socks s fd"
proof -
  let ?h = "hits [0..<nat (maxi s + 1)] rset s"
  note h = hits_all [OF assms(1,2)]
  have "length ?h = card (rset - {lfd})"
    using distinct_card [OF h(1)] h(2) by simp
  then have run: "run_events (\<lambda>(i, fd). sa_client i fd) ?h s = Inr s'"
    using sa_clients_run [of "[0..<nat (maxi s + 1)]" rset s nready] assms(3,4) by simp
  have "distinct (map (\<lambda>(i, fd). Some fd) ?h)"
    using h(1) by (auto simp: distinct_map inj_on_def split_beta)
  note sa.served_once [OF TrueI run this, of fd]
  moreover have "Some fd \<in> (\<lambda>(i, fd). Some fd) ` set ?h \<longleftrightarrow> fd \<in> rset - {lfd}"
    unfolding h(2) [symmetric] by (auto simp: image_iff split_beta)
  ultimately show "if fd \<in> rset - {lfd} then sa_chat (sl_socks s fd) = Inr (sl_socks s' fd) else sl_socks s' fd = sl_socks s fd"
    by simp
  have "set [0..<nat (maxi s + 1)] \<subseteq> {..<1024}" using sa_invD(8) [OF assms(1)] by auto
  then show "sa_inv lfd s'" by (rule sa_clients_inv [OF assms(1) _ assms(4)])
qed

lemma sa_round_serves:
  assumes "sa_inv lfd s" and "fresh_accepts accepts s" and "sa_round lfd (Inr readable) accepts s = Inr s'"
  shows "sa_inv lfd s' \<and>
    (if fd \<in> sl_open s \<inter> readable - {lfd} then sa_chat (sl_socks s fd) = Inr (sl_socks s' fd) else sl_socks s' fd = sl_socks s fd)"
proof -
  let ?r = "sel_ready readable s"
  note sub = sel_ready_sub [of readable s] and inv = sa_invD [OF assms(1)]
  have "?r = sl_open s \<inter> readable" using inv(4,9) by (auto simp: sel_ready_def)
  then have ready: "fd \<in> sl_open s \<inter> readable - {lfd} \<longleftrightarrow> fd \<in> ?r - {lfd}" by simp
  have fin: "finite ?r" using sub sa_inv_finite [OF assms(1)] by (rule finite_subset)
  show ?thesis
  proof (cases "lfd \<in> ?r")
    case True
    then have less: "int (card (?r - {lfd})) \<le> int (card ?r) - 1"
      using card.remove [OF fin True] by simp
    obtain s1 where s1: "sa_accept accepts s = Inr s1"
      "(if int (card ?r) - 1 = 0 then Inr s1 else sa_clients [0..<nat (maxi s1 + 1)] ?r (int (card ?r) - 1) s1) = Inr s'"
      using assms(3) True by (auto simp: sa_round_def Let_def split: sum.splits)
    obtain c where c: "sa_inv lfd s1" "sl_set s1 = insert c (sl_set s)" "sl_socks s1 = sl_socks s"
      using sa_accept_inv [OF assms(1,2) s1(1)] by metis
    show ?thesis
    proof (cases "int (card ?r) - 1 = 0")
      case True
      then have "?r - {lfd} = {}" using less fin by simp
      then have "fd \<notin> ?r - {lfd}" by blast
      then show ?thesis using c(1,3) s1(2) True ready by auto
    next
      case False
      then have run: "sa_clients [0..<nat (maxi s1 + 1)] ?r (int (card ?r) - 1) s1 = Inr s'" using s1(2) by simp
      have "?r \<subseteq> sl_set s1" using sub c(2) by auto
      from sa_clients_serve [OF c(1) this less run] show ?thesis unfolding ready c(3) by blast
    qed
  next
    case False
    then have "sa_clients [0..<nat (maxi s + 1)] ?r (int (card ?r)) s = Inr s'" and "int (card (?r - {lfd})) \<le> int (card ?r)"
      using assms(3) fin by (simp_all add: sa_round_def Let_def card_mono)
    from sa_clients_serve [OF assms(1) sub this(2,1)] ready show ?thesis by simp
  qed
qed

lemma sa_reach_inv: "sa_reach lfd s \<Longrightarrow> sa_inv lfd s"
proof (induction rule: sa_reach.induct)
  case (round s accepts answer s')
  then show ?case using sa_round_serves [of lfd s accepts _ s'] by (cases answer) (auto simp: sa_round_def)
qed (rule sa_init_inv)

text \<open>
  C25. A round of the server with the client array serves exactly the connected clients that are
  readable, each once, as a server for this client alone would, and leaves all others as they were; the
  early ends of the loops by the counter \<open>nready\<close> and the bounds \<open>maxi\<close> and \<open>maxfd\<close> never skip anyone.
\<close>

theorem select_serves_ready:
  assumes "sa_reach listenfd s" and "fresh_accepts accepts s" and "sa_round listenfd (Inr readable) accepts s = Inr s'"
  shows "if fd \<in> sl_open s \<inter> readable - {listenfd} then sa_chat (sl_socks s fd) = Inr (sl_socks s' fd)
    else sl_socks s' fd = sl_socks s fd"
  using sa_round_serves [OF sa_reach_inv [OF assms(1)] assms(2,3), of fd] by simp

text \<open>A listener and one client that has connected and sends \<open>hi\<close>.\<close>

definition demo_sa :: sa where
  "demo_sa = \<lparr>sl_set = {3, 4}, sl_maxfd = 4, sl_open = {3, 4},
     sl_socks = (\<lambda>fd. \<lparr>script = [Bytes 2, Bytes 2], incoming = bs ''hi'', outgoing = []\<rparr>),
     clients = 4 # replicate 1023 (-1), maxi = 0\<rparr>"

lemma replicate_1024: "replicate 1024 x = x # replicate 1023 x"
  by (simp add: numeral_eq_Suc)

lemma demo_sa_reach: "sa_reach 3 demo_sa"
proof -
  define s0 where "s0 = \<lparr>sl_set = {3}, sl_maxfd = 3, sl_open = {3 :: int},
     sl_socks = (\<lambda>fd. \<lparr>script = [Bytes 2, Bytes 2], incoming = bs ''hi'', outgoing = []\<rparr>),
     clients = replicate 1024 (-1), maxi = -1\<rparr>"
  have "sa_reach 3 s0"
    by (rule sa_reach.init [of _ "sl_socks s0"]) (simp add: sa_init_def FD_SET_def FD_SETSIZE_def s0_def)
  moreover have "fresh_accepts [Inr 4] s0" by (simp add: fresh_accepts_def s0_def)
  moreover have "sel_ready {3} s0 = {3}" by (auto simp: sel_ready_def s0_def)
  then have "sa_round 3 (Inr {3}) [Inr 4] s0 = Inr demo_sa"
    by (simp add: sa_round_def sa_accept_def FD_SET_def FD_SETSIZE_def s0_def replicate_1024 demo_sa_def insert_commute)
  ultimately show ?thesis by (rule sa_reach.round)
qed

theorem select_serves_ready_witness:
  "\<exists>s'. sa_round 3 (Inr {4}) [] demo_sa = Inr s' \<and> sa_chat (sl_socks demo_sa 4) = Inr (sl_socks s' 4)"
proof -
  have fresh: "fresh_accepts [] demo_sa" by (simp add: fresh_accepts_def)
  have "sel_ready {4} demo_sa = {4}" by (auto simp: sel_ready_def demo_sa_def)
  then obtain s' where s': "sa_round 3 (Inr {4}) [] demo_sa = Inr s'"
    by (simp add: sa_round_def demo_sa_def sa_client_def Read.simps Write.simps read_sys_def write_sys_def SA_BUFSIZ_def bs_def Let_def)
  with select_serves_ready [OF demo_sa_reach fresh s', of 4] show ?thesis by (simp add: demo_sa_def)
qed

subsection \<open>Every descriptor\<close>

text \<open>The server without an array keeps no count, and finds its clients between the listener and the maximum.\<close>

lemma ss_clients_run: "ss_clients is r_set s = run_events ss_client (filter (\<lambda>i. i \<in> r_set) is) s"
  by (induction "is" arbitrary: s) (auto split: sum.split)

lemma ss_clients_serve:
  assumes "ss_clients [lfd + 1..sl_maxfd s] r_set s = Inr s'"
  shows "if lfd < fd \<and> fd \<le> sl_maxfd s \<and> fd \<in> r_set then ss_chat (sl_socks s fd) = Inr (sl_socks s' fd)
    else sl_socks s' fd = sl_socks s fd"
proof -
  have "distinct (map Some (filter (\<lambda>i. i \<in> r_set) [lfd + 1..sl_maxfd s]))" by (simp add: distinct_map)
  note ss.served_once [OF TrueI assms [unfolded ss_clients_run] this, of fd]
  moreover have "Some fd \<in> Some ` set (filter (\<lambda>i. i \<in> r_set) [lfd + 1..sl_maxfd s]) \<longleftrightarrow>
      lfd < fd \<and> fd \<le> sl_maxfd s \<and> fd \<in> r_set" by auto
  ultimately show ?thesis by simp
qed

section \<open>The server on poll\<close>

definition Open_Max :: nat where "Open_Max = 1024"
definition pl_BufferSize :: nat where "pl_BufferSize = 1500"

definition POLLIN :: "16 word" where "POLLIN = 1"
definition ECONNREFUSED :: errno where "ECONNREFUSED = Errno 111"
definition ECONNRESET :: errno where "ECONNRESET = Errno 104"

record pollfd =
  pfd :: int
  pevents :: "16 word"
  revents :: "16 word"

record pl =
  pl_client :: "pollfd list"
  pl_maxi :: nat
  pl_map :: "nat \<Rightarrow> byte list option"
  pl_buff :: "byte list"
  pl_open :: "int set"
  pl_socks :: "int \<Rightarrow> sock"

text \<open>What the array and the buffer hold at first, apart from the descriptors, is an argument.\<close>

definition pl_init :: "int \<Rightarrow> pollfd list \<Rightarrow> byte list \<Rightarrow> (int \<Rightarrow> sock) \<Rightarrow> pl" where
  "pl_init listen_fd junk buf sks =
     \<lparr>pl_client = (hd junk)\<lparr>pfd := listen_fd, pevents := POLLIN\<rparr> # map (\<lambda>c. c\<lparr>pfd := -1\<rparr>) (tl junk),
      pl_maxi = 0, pl_map = Map.empty, pl_buff = buf, pl_open = {listen_fd}, pl_socks = sks\<rparr>"

text \<open>
  \<open>poll(client, max_i + 1, -1)\<close>: it fails and changes nothing, or it stores \<open>revents\<close> for the entries
  it was given, 0 for those with a negative descriptor, and returns how many are not 0.
\<close>

definition poll_entry :: "16 word \<Rightarrow> pollfd \<Rightarrow> pollfd" where
  "poll_entry r c = c\<lparr>revents := (if pfd c < 0 then 0 else r)\<rparr>"

definition poll_call :: "errno + 16 word list \<Rightarrow> pl \<Rightarrow> int \<times> pl" where
  "poll_call answer s =
     (case answer of
        Inl err \<Rightarrow> (-1, s)
      | Inr rs \<Rightarrow>
          let cs = map2 poll_entry rs (take (pl_maxi s + 1) (pl_client s))
          in (int (length (filter (\<lambda>c. revents c \<noteq> 0) cs)), s\<lparr>pl_client := cs @ drop (length cs) (pl_client s)\<rparr>))"

fun free_entry :: "nat \<Rightarrow> pollfd list \<Rightarrow> nat" where
  "free_entry index [] = index"
| "free_entry index (c # cs) = (if pfd c < 0 then index else free_entry (index + 1) cs)"

definition pl_accept :: "(errno + int) list \<Rightarrow> byte list \<Rightarrow> pl \<Rightarrow> echo_end + pl" where
  "pl_accept answers addr s =
     (case Accept answers of
        None \<Rightarrow> Inl Blocks
      | Some (Exits c, _) \<Rightarrow> Inl (Quits c)
      | Some (Returns conn_fd, _) \<Rightarrow>
          let s = s\<lparr>pl_open := insert conn_fd (pl_open s)\<rparr>;
              index = free_entry 1 (tl (pl_client s))
          in if index = Open_Max then Inl (Quits 1)
             else Inr (s\<lparr>pl_client := (pl_client s)[index := (pl_client s ! index)\<lparr>pfd := conn_fd, pevents := POLLIN\<rparr>],
                         pl_map := (pl_map s)(index \<mapsto> addr),
                         pl_maxi := (if index > pl_maxi s then index else pl_maxi s)\<rparr>))"

text \<open>\<open>errno\<close> after a failed \<open>Read\<close>: the first failure that is not a signal.\<close>

fun read_errno :: "io list \<Rightarrow> errno option" where
  "read_errno (Fail e # sc) = (if e = EINTR then read_errno sc else Some e)"
| "read_errno _ = None"

definition pl_close :: "nat \<Rightarrow> int \<Rightarrow> pl \<Rightarrow> pl" where
  "pl_close i sfd s =
     s\<lparr>pl_open := pl_open s - {sfd}, pl_client := (pl_client s)[i := (pl_client s ! i)\<lparr>pfd := -1\<rparr>]\<rparr>"

definition pl_client_ready :: "nat \<Rightarrow> int \<Rightarrow> pl \<Rightarrow> echo_end + pl" where
  "pl_client_ready i sfd s =
     (case Read pl_BufferSize (pl_socks s sfd) of
        None \<Rightarrow> Inl Blocks
      | Some (n, d, sk) \<Rightarrow>
          let err = read_errno (script (pl_socks s sfd));
              s = s\<lparr>pl_socks := (pl_socks s)(sfd := sk)\<rparr>
          in if n < 0
             then (if err = Some ECONNREFUSED then Inr (pl_close i sfd s) else Inl (Quits 1))
             else if n = 0 then Inr (pl_close i sfd s)
             else
               let buff = map toupper d @ drop (length d) (pl_buff s);
                   s = s\<lparr>pl_buff := buff, pl_map := (if pl_map s i = None then (pl_map s)(i \<mapsto> []) else pl_map s)\<rparr>
               in (case say buff sk of
                     Inl f \<Rightarrow> Inl f
                   | Inr sk' \<Rightarrow> Inr (s\<lparr>pl_socks := (pl_socks s)(sfd := sk')\<rparr>)))"

text \<open>The counter goes up where the comments have it go down, so it ends the loop only after a failed \<open>poll\<close>.\<close>

fun pl_clients :: "nat list \<Rightarrow> int \<Rightarrow> pl \<Rightarrow> echo_end + pl" where
  "pl_clients [] n_ready s = Inr s"
| "pl_clients (i # is) n_ready s =
     (let sfd = pfd (pl_client s ! i)
      in if sfd < 0 then pl_clients is n_ready s
         else if revents (pl_client s ! i) AND POLLIN \<noteq> 0
              then (case pl_client_ready i sfd s of
                      Inl f \<Rightarrow> Inl f
                    | Inr s' \<Rightarrow> if n_ready + 1 \<le> 0 then Inr s' else pl_clients is (n_ready + 1) s')
         else pl_clients is n_ready s)"

definition pl_round :: "errno + 16 word list \<Rightarrow> (errno + int) list \<Rightarrow> byte list \<Rightarrow> pl \<Rightarrow> echo_end + pl" where
  "pl_round answer accepts addr s =
     (let s = s\<lparr>pl_buff := replicate pl_BufferSize 0\<rparr>;
          (n_ready, s) = poll_call answer s
      in if revents (pl_client s ! 0) AND POLLIN \<noteq> 0
         then (case pl_accept accepts addr s of
                 Inl f \<Rightarrow> Inl f
               | Inr s' \<Rightarrow> if n_ready - 1 \<le> 0 then Inr s' else pl_clients [1..<pl_maxi s' + 1] (n_ready - 1) s')
         else pl_clients [1..<pl_maxi s + 1] n_ready s)"

text \<open>The program closes the connection on \<open>ECONNREFUSED\<close>, which \<open>read\<close> does not return; a reset ends it.\<close>

lemma poll_reset_exits:
  "script (pl_socks s fd) = Fail ECONNRESET # sc \<Longrightarrow> pl_client_ready i fd s = Inl (Quits 1)"
  by (simp add: pl_client_ready_def Read.simps read_sys_def ECONNRESET_def ECONNREFUSED_def)

lemma toupper_NUL: "toupper c = 0 \<longleftrightarrow> c = 0"
  by (auto simp: toupper_def)

lemma pl_serve:
  assumes "script (pl_socks s fd) = [Bytes (length d), Bytes 1600]" and "incoming (pl_socks s fd) = d" and "d \<noteq> []"
    and "length d < 1500" and "0 \<notin> set d" and "length (pl_buff s) = 1500" and "0 \<in> set (drop (length d) (pl_buff s))"
  shows "\<exists>s'. pl_client_ready i fd s = Inr s' \<and> pl_client s' = pl_client s \<and>
    pl_buff s' = map toupper d @ drop (length d) (pl_buff s) \<and> (\<forall>g. g \<noteq> fd \<longrightarrow> pl_socks s' g = pl_socks s g) \<and>
    outgoing (pl_socks s' fd) = outgoing (pl_socks s fd) @ bs ''server data : '' @ map toupper d @
      takeWhile (\<lambda>b. b \<noteq> 0) (drop (length d) (pl_buff s))"
proof -
  define sk where "sk = (pl_socks s fd)\<lparr>script := [Bytes 1600], incoming := []\<rparr>"
  define str where "str = map toupper d @ takeWhile (\<lambda>b. b \<noteq> 0) (drop (length d) (pl_buff s))"
  have rd: "Read pl_BufferSize (pl_socks s fd) = Some (int (length d), d, sk)"
    using assms(1-4) by (simp add: Read.simps read_sys_def pl_BufferSize_def sk_def)
  have "takeWhile (\<lambda>b. b \<noteq> 0) (map toupper d @ drop (length d) (pl_buff s)) = str"
    unfolding str_def by (rule takeWhile_append2) (use assms(5) in \<open>auto simp: toupper_NUL\<close>)
  then have c: "cstr (map toupper d @ drop (length d) (pl_buff s)) = Inr str"
    using assms(7) by (simp add: cstr_def)
  have "length str \<le> 1500"
    using length_takeWhile_le [of "\<lambda>b. b \<noteq> 0" "drop (length d) (pl_buff s)"] assms(4,6) by (simp add: str_def)
  moreover have "length (bs ''server data : '') = 14" by (simp add: bs_def)
  ultimately have "say (map toupper d @ drop (length d) (pl_buff s)) sk =
      Inr (sk\<lparr>script := [], outgoing := outgoing sk @ bs ''server data : '' @ str\<rparr>)"
    using c by (simp add: say_def Write.simps write_sys_def sk_def)
  then show ?thesis using rd assms(3) by (simp add: pl_client_ready_def Let_def sk_def str_def)
qed

text \<open>
  C39. The server on \<open>poll\<close> discloses what one client sent to another: its buffer is cleared once in a
  round, so that a client which sends less than the one before it in the same round is answered with the
  rest of the other one's data behind its own.
\<close>

theorem poll_leaks:
  assumes "pl_client s = c0 # c1 # c2 # cs" and "pl_maxi s = 2" and "0 \<le> pfd c1" and "0 \<le> pfd c2" and "pfd c1 \<noteq> pfd c2"
    and "pl_socks s (pfd c1) = \<lparr>script = [Bytes (length d1), Bytes 1600], incoming = d1, outgoing = []\<rparr>"
    and "pl_socks s (pfd c2) = \<lparr>script = [Bytes (length d2), Bytes 1600], incoming = d2, outgoing = []\<rparr>"
    and "d2 \<noteq> []" and "length d2 \<le> length d1" and "length d1 < 1500" and "0 \<notin> set d1" and "0 \<notin> set d2"
  shows "\<exists>s'. pl_round (Inr [0, POLLIN, POLLIN]) [] [] s = Inr s' \<and>
    outgoing (pl_socks s' (pfd c2)) = bs ''server data : '' @ map toupper d2 @ map toupper (drop (length d2) d1)"
proof -
  define s1 where "s1 = snd (poll_call (Inr [0, POLLIN, POLLIN]) (s\<lparr>pl_buff := replicate pl_BufferSize 0\<rparr>))"
  have one: "POLLIN AND POLLIN \<noteq> 0" by (simp add: POLLIN_def)
  have s1: "poll_call (Inr [0, POLLIN, POLLIN]) (s\<lparr>pl_buff := replicate pl_BufferSize 0\<rparr>) = (2, s1)"
    "pl_client s1 = poll_entry 0 c0 # c1\<lparr>revents := POLLIN\<rparr> # c2\<lparr>revents := POLLIN\<rparr> # cs" "pl_maxi s1 = 2"
    "pl_buff s1 = replicate 1500 0" "pl_socks s1 = pl_socks s"
    using assms(1-4) by (simp_all add: s1_def poll_call_def Let_def poll_entry_def POLLIN_def pl_BufferSize_def)
  have d1: "d1 \<noteq> []" using assms(8,9) by auto
  obtain s2 where s2: "pl_client_ready 1 (pfd c1) s1 = Inr s2" "pl_client s2 = pl_client s1"
    "pl_buff s2 = map toupper d1 @ replicate (1500 - length d1) 0" "pl_socks s2 (pfd c2) = pl_socks s (pfd c2)"
    using pl_serve [of s1 "pfd c1" d1 1] assms(5,6,10,11) d1 by (auto simp: s1)
  let ?rest = "drop (length d2) (pl_buff s2)"
  have rest: "?rest = map toupper (drop (length d2) d1) @ replicate (1500 - length d1) 0"
    using assms(9) by (simp add: s2(3) drop_map)
  have "\<forall>b \<in> set (map toupper (drop (length d2) d1)). b \<noteq> 0"
    using assms(11) by (auto simp: toupper_NUL dest: in_set_dropD)
  then have tw: "takeWhile (\<lambda>b. b \<noteq> 0) ?rest = map toupper (drop (length d2) d1)"
    unfolding rest by (subst takeWhile_append2) (auto simp: takeWhile_replicate)
  obtain s3 where s3: "pl_client_ready 2 (pfd c2) s2 = Inr s3"
    "outgoing (pl_socks s3 (pfd c2)) = bs ''server data : '' @ map toupper d2 @ takeWhile (\<lambda>b. b \<noteq> 0) ?rest"
    using pl_serve [of s2 "pfd c2" d2 2] assms(7-10,12) rest by (auto simp: s2(3,4))
  have "pl_round (Inr [0, POLLIN, POLLIN]) [] [] s = pl_clients [1, 2] 2 s1"
    by (simp add: pl_round_def s1 poll_entry_def upt_rec numeral_2_eq_2)
  also have "\<dots> = Inr s3"
    using assms(3,4) one by (simp add: s1(2) s2(1) [simplified] s2(2) s3(1) Let_def)
  finally show ?thesis using s3(2) tw by simp
qed

theorem poll_leaks_witness:
  "\<exists>s'. pl_round (Inr [0, POLLIN, POLLIN]) [] []
       (\<lparr>pl_client = [\<lparr>pfd = 3, pevents = POLLIN, revents = 0\<rparr>, \<lparr>pfd = 4, pevents = POLLIN, revents = 0\<rparr>,
           \<lparr>pfd = 5, pevents = POLLIN, revents = 0\<rparr>] @ replicate 1021 \<lparr>pfd = -1, pevents = 0, revents = 0\<rparr>,
         pl_maxi = 2, pl_map = Map.empty, pl_buff = [], pl_open = {3, 4, 5},
         pl_socks = (\<lambda>fd. if fd = 4 then \<lparr>script = [Bytes 6, Bytes 1600], incoming = bs ''secret'', outgoing = []\<rparr>
           else \<lparr>script = [Bytes 2, Bytes 1600], incoming = bs ''hi'', outgoing = []\<rparr>)\<rparr>) = Inr s' \<and>
     outgoing (pl_socks s' 5) = bs ''server data : HICRET''"
  using poll_leaks [of "\<lparr>pl_client = [\<lparr>pfd = 3, pevents = POLLIN, revents = 0\<rparr>, \<lparr>pfd = 4, pevents = POLLIN, revents = 0\<rparr>,
           \<lparr>pfd = 5, pevents = POLLIN, revents = 0\<rparr>] @ replicate 1021 \<lparr>pfd = -1, pevents = 0, revents = 0\<rparr>,
         pl_maxi = 2, pl_map = Map.empty, pl_buff = [], pl_open = {3, 4, 5},
         pl_socks = (\<lambda>fd. if fd = 4 then \<lparr>script = [Bytes 6, Bytes 1600], incoming = bs ''secret'', outgoing = []\<rparr>
           else \<lparr>script = [Bytes 2, Bytes 1600], incoming = bs ''hi'', outgoing = []\<rparr>)\<rparr>" _ _ _ _ "bs ''secret''" "bs ''hi''"]
  by (simp add: bs_def toupper_def)

end
