(* ===== verification/Ws_Frame.thy ===== *)
theory Ws_Frame
  imports Std_String
begin

text \<open>
  The WebSocket frame codec of \<open>src/websocket/epoll_websocket.cpp\<close>: the packed headers, the
  in-place unmasking, \<open>decode_packet\<close> and \<open>encode_packet\<close>. A buffer is the list of the bytes
  that may be accessed; an access outside it is the fault \<open>Out_of_bounds\<close>.
\<close>

section \<open>Headers\<close>

text \<open>The bit fields of \<open>_nty_ophdr\<close>, allocated from the least significant bit.\<close>

record nty_ophdr =
  hd_opcode :: byte
  hd_rsv3 :: bool
  hd_rsv2 :: bool
  hd_rsv1 :: bool
  hd_fin :: bool
  hd_payload_length :: byte
  hd_mask :: byte

definition ophdr_of :: "byte \<Rightarrow> byte \<Rightarrow> nty_ophdr" where
  "ophdr_of b0 b1 =
     \<lparr>hd_opcode = b0 AND 15, hd_rsv3 = bit b0 4, hd_rsv2 = bit b0 5, hd_rsv1 = bit b0 6,
      hd_fin = bit b0 7, hd_payload_length = b1 AND 127, hd_mask = drop_bit 7 b1\<rparr>"

definition ophdr_bytes :: "nty_ophdr \<Rightarrow> byte list" where
  "ophdr_bytes h =
     [(hd_opcode h AND 15) OR (if hd_rsv3 h then 16 else 0) OR (if hd_rsv2 h then 32 else 0) OR
        (if hd_rsv1 h then 64 else 0) OR (if hd_fin h then 128 else 0),
      (hd_payload_length h AND 127) OR push_bit 7 (hd_mask h AND 1)]"

text \<open>Reading \<open>n\<close> bytes at an offset, and an integer from them in the byte order of the machine.\<close>

definition read_at :: "byte list \<Rightarrow> nat \<Rightarrow> nat \<Rightarrow> fault + byte list" where
  "read_at s i n = (if i + n \<le> length s then Inr (take n (drop i s)) else Inl Out_of_bounds)"

fun le_nat :: "byte list \<Rightarrow> nat" where
  "le_nat [] = 0"
| "le_nat (b # rest) = unat b + 256 * le_nat rest"

text \<open>\<open>memcpy\<close> into a buffer.\<close>

definition write_at :: "byte list \<Rightarrow> nat \<Rightarrow> byte list \<Rightarrow> fault + byte list" where
  "write_at s i xs =
     (if i + length xs \<le> length s then Inr (take i s @ xs @ drop (i + length xs) s) else Inl Out_of_bounds)"

section \<open>Masking\<close>

text \<open>The loop of \<open>umask\<close> on the bytes from \<open>start\<close> on; \<open>n\<close> steps are left.\<close>

fun umask_loop :: "byte list \<Rightarrow> nat \<Rightarrow> nat \<Rightarrow> nat \<Rightarrow> byte list \<Rightarrow> fault + byte list" where
  "umask_loop s start i 0 key = Inr s"
| "umask_loop s start i (Suc n) key =
     (if start + i < length s
      then umask_loop (s[start + i := s ! (start + i) XOR key ! (i mod 4)]) start (Suc i) n key
      else Inl Out_of_bounds)"

definition umask :: "byte list \<Rightarrow> nat \<Rightarrow> int \<Rightarrow> byte list \<Rightarrow> fault + byte list" where
  "umask s start len key = umask_loop s start 0 (nat len) key"

section \<open>Decoding and encoding\<close>

text \<open>
  The result of \<open>decode_packet\<close>: the buffer with the payload unmasked, the key stored in
  \<open>key\<close>, the offset of the returned pointer and the sz stored in \<open>*ret\<close>.
\<close>

definition decode_packet :: "byte list \<Rightarrow> fault + (byte list \<times> byte list \<times> nat \<times> int)" where
  "decode_packet stream =
     (case read_at stream 0 2 of
        Inl f \<Rightarrow> Inl f
      | Inr h \<Rightarrow>
          let hdr = ophdr_of (h ! 0) (h ! 1);
              fields =
                (if hd_mask hdr AND 0x7F = 126
                 then case read_at stream 2 6 of
                        Inl f \<Rightarrow> Inl f
                      | Inr d \<Rightarrow> Inr (int (le_nat (take 2 d)), drop 2 d, 8)
                 else if hd_mask hdr AND 0x7F = 127
                 then case read_at stream 2 12 of
                        Inl f \<Rightarrow> Inl f
                      | Inr d \<Rightarrow> Inr (i32 (int (le_nat (take 8 d))), drop 8 d, 14)
                 else case read_at stream 2 4 of
                        Inl f \<Rightarrow> Inl f
                      | Inr d \<Rightarrow> Inr (uint (hd_payload_length hdr), d, 6))
          in case fields of
               Inl f \<Rightarrow> Inl f
             | Inr (sz, key, start) \<Rightarrow>
                 (case umask stream start sz key of
                    Inl f \<Rightarrow> Inl f
                  | Inr stream \<Rightarrow> Inr (stream, key, start, sz)))"

text \<open>The extended headers as they stand in memory; the trailing \<open>data\<close> member is zero.\<close>

definition head_126_bytes :: "int \<Rightarrow> byte list \<Rightarrow> byte list" where
  "head_126_bytes len key = [word_of_int len, word_of_int (len div 256)] @ key @ replicate 8 0"

definition head_127_bytes :: "int \<Rightarrow> byte list \<Rightarrow> byte list" where
  "head_127_bytes len key = map (\<lambda>i. word_of_int (len div 256 ^ i)) [0..<8] @ key @ replicate 8 0"

text \<open>
  \<open>encode_packet buffer key stream length\<close>: the buffer afterwards and the number of bytes to
  send. The local variable \<open>sz\<close> is computed but not used.
\<close>

definition encode_packet :: "byte list \<Rightarrow> byte list \<Rightarrow> byte list \<Rightarrow> int \<Rightarrow> fault + (byte list \<times> int)" where
  "encode_packet buffer key stream len =
     (let head = \<lparr>hd_opcode = 1, hd_rsv3 = False, hd_rsv2 = False, hd_rsv1 = False, hd_fin = True,
                  hd_payload_length = 0, hd_mask = 0\<rparr>;
          filled =
            (if len < 126
             then write_at buffer 0 (ophdr_bytes (head\<lparr>hd_payload_length := word_of_int len AND 127\<rparr>))
             else case write_at buffer 0 (ophdr_bytes head) of
                    Inl f \<Rightarrow> Inl f
                  | Inr buffer \<Rightarrow>
                      if len < 0xFFFF then write_at buffer 2 (head_126_bytes len key)
                      else write_at buffer 2 (head_127_bytes len key))
      in case filled of
           Inl f \<Rightarrow> Inl f
         | Inr buffer \<Rightarrow>
             if len < 0 \<or> int (length stream) < len then Inl Out_of_bounds
             else (case write_at buffer 2 (take (nat len) stream) of
                     Inl f \<Rightarrow> Inl f
                   | Inr buffer \<Rightarrow> Inr (buffer, len + 2)))"

section \<open>Lemmas\<close>

text \<open>A payload combined with the key, starting at index \<open>i\<close> of the key stream.\<close>

fun xor_key :: "byte list \<Rightarrow> nat \<Rightarrow> byte list \<Rightarrow> byte list" where
  "xor_key key i [] = []"
| "xor_key key i (x # xs) = (x XOR key ! (i mod 4)) # xor_key key (Suc i) xs"

lemma length_xor_key [simp]: "length (xor_key key i xs) = length xs"
  by (induction key i xs rule: xor_key.induct) auto

lemma xor_key_involution [simp]: "xor_key key i (xor_key key i xs) = xs"
  by (induction key i xs rule: xor_key.induct) (auto simp: xor.assoc)

lemma umask_loop_eq:
  assumes "start + i + n \<le> length s"
  shows "umask_loop s start i n key =
    Inr (take (start + i) s @ xor_key key i (take n (drop (start + i) s)) @ drop (start + i + n) s)"
  using assms
proof (induction n arbitrary: s i)
  case (Suc n)
  let ?k = "start + i"
  let ?s = "s[?k := s ! ?k XOR key ! (i mod 4)]"
  have k: "?k < length s" using Suc.prems by simp
  have "drop ?k s = s ! ?k # drop (Suc ?k) s" using k by (rule Cons_nth_drop_Suc [symmetric])
  moreover have "take (Suc ?k) ?s = take ?k s @ [s ! ?k XOR key ! (i mod 4)]"
    using k by (simp add: take_Suc_conv_app_nth)
  ultimately show ?case
    using Suc.IH [of "Suc i" ?s] Suc.prems k by simp
qed simp

lemma umask_loop_fault:
  "start + i \<le> length s \<Longrightarrow> length s < start + i + n \<Longrightarrow> umask_loop s start i n key = Inl Out_of_bounds"
proof (induction n arbitrary: s i)
  case (Suc n)
  then show ?case
    using Suc.IH [of "Suc i" "s[start + i := s ! (start + i) XOR key ! (i mod 4)]"] by auto
qed simp

lemma umask_frame:
  assumes "length h = start"
  shows "umask (h @ xor_key key 0 payload @ rest) start (int (length payload)) key =
    Inr (h @ payload @ rest)"
  using umask_loop_eq [of start 0 "length payload" "h @ xor_key key 0 payload @ rest" key] assms
  by (simp add: umask_def)

text \<open>The key bit is one bit wide, so the tests for 126 and 127 never succeed.\<close>

lemma mask_bit: "hd_mask (ophdr_of b0 b1) \<in> {0, 1}"
proof -
  have "unat (drop_bit 7 b1) < 2"
    using unsigned_less [of b1, where 'a = nat] by (simp add: drop_bit_eq_div unat_div)
  then have "unat (drop_bit 7 b1) = 0 \<or> unat (drop_bit 7 b1) = 1" by linarith
  then show ?thesis
    by (auto simp: ophdr_of_def word_unat_eq_iff)
qed

lemma mask_not_extended:
  "hd_mask (ophdr_of b0 b1) AND 0x7F \<noteq> 126" "hd_mask (ophdr_of b0 b1) AND 0x7F \<noteq> 127"
  using mask_bit [of b0 b1] by auto

lemma payload_length_less: "uint (hd_payload_length (ophdr_of b0 b1)) < 128"
proof -
  have "b1 AND 127 = take_bit 7 b1" by (simp add: take_bit_eq_mask mask_eq_exp_minus_1)
  then show ?thesis
    using take_bit_int_less_exp [of 7 "uint b1"] by (simp add: ophdr_of_def unsigned_take_bit_eq)
qed

text \<open>What \<open>decode_packet\<close> does with any buffer that holds a header and a key.\<close>

lemma decode_packet_eq:
  assumes "length stream \<ge> 6" and "uint (hd_payload_length (ophdr_of (stream ! 0) (stream ! 1))) = sz"
    and "take 4 (drop 2 stream) = key"
  shows "decode_packet stream =
    (case umask stream 6 sz key of Inl f \<Rightarrow> Inl f | Inr s \<Rightarrow> Inr (s, key, 6, sz))"
proof -
  have "take 2 stream ! 0 = stream ! 0" "take 2 stream ! 1 = stream ! 1" by simp_all
  then show ?thesis
    unfolding assms(2,3) [symmetric] using assms(1) mask_not_extended [of "stream ! 0" "stream ! 1"]
    by (simp add: decode_packet_def read_at_def Let_def split: sum.split)
qed

text \<open>The frame a client sends: header, key, and the payload combined with the key.\<close>

definition client_frame :: "byte \<Rightarrow> byte list \<Rightarrow> byte list \<Rightarrow> byte list" where
  "client_frame b0 key payload =
     [b0, 128 OR of_nat (length payload)] @ key @ xor_key key 0 payload"

lemma byte_of_small: "n < 128 \<Longrightarrow> (128 OR (of_nat n :: byte)) AND 127 = of_nat n"
proof -
  assume "n < 128"
  then have "take_bit 7 (of_nat n :: byte) = of_nat n"
    by (simp add: take_bit_nat_eq_self flip: of_nat_take_bit)
  moreover have "x AND 127 = take_bit 7 x" for x :: byte
    by (simp add: take_bit_eq_mask mask_eq_exp_minus_1)
  ultimately show ?thesis by (simp add: take_bit_or)
qed

lemma client_length:
  "n < 128 \<Longrightarrow> uint (hd_payload_length (ophdr_of b0 (128 OR of_nat n))) = int n"
  using byte_of_small [of n] by (simp add: ophdr_of_def unsigned_of_nat take_bit_nat_eq_self)

lemma decode_client_frame:
  assumes "length key = 4" and "length payload < 126"
  shows "decode_packet (client_frame b0 key payload @ rest) =
    Inr ([b0, 128 OR of_nat (length payload)] @ key @ payload @ rest, key, 6, int (length payload))"
proof -
  let ?h = "[b0, 128 OR of_nat (length payload)] @ key"
  have "decode_packet (?h @ xor_key key 0 payload @ rest) =
      (case umask (?h @ xor_key key 0 payload @ rest) 6 (int (length payload)) key of
         Inl f \<Rightarrow> Inl f | Inr s \<Rightarrow> Inr (s, key, 6, int (length payload)))"
    using assms client_length [of "length payload" b0] by (intro decode_packet_eq) simp_all
  then show ?thesis
    using umask_frame [of ?h 6 key payload rest] assms(1) by (simp add: client_frame_def)
qed

text \<open>Encoding: the header bytes, and what stands in the buffer after the last copy.\<close>

lemma write_at_Inr:
  "i + length xs \<le> length s \<Longrightarrow> write_at s i xs = Inr (take i s @ xs @ drop (i + length xs) s)"
  by (simp add: write_at_def)

lemma and_127_small: "n < 128 \<Longrightarrow> (of_nat n :: byte) AND 127 = of_nat n"
  using byte_of_small [of n] by (metis and.assoc and.idem)

lemma ophdr_text:
  "ophdr_bytes \<lparr>hd_opcode = 1, hd_rsv3 = False, hd_rsv2 = False, hd_rsv1 = False, hd_fin = True,
     hd_payload_length = l, hd_mask = 0\<rparr> = [0x81, l AND 127]"
  by (simp add: ophdr_bytes_def)

lemma encode_packet_short:
  assumes "length payload < 126" and "length payload + 22 \<le> length buffer"
  shows "encode_packet buffer key (payload @ rest) (int (length payload)) =
    Inr ([0x81, of_nat (length payload)] @ payload @ drop (length payload + 2) buffer, int (length payload) + 2)"
  using assms
  by (simp add: encode_packet_def ophdr_text write_at_Inr and_127_small)

lemma encode_packet_long:
  assumes "length key = 4" and "126 \<le> length payload" and "length payload + 22 \<le> length buffer"
  shows "\<exists>b. encode_packet buffer key (payload @ rest) (int (length payload)) = Inr (b, int (length payload) + 2) \<and>
    take (length payload + 2) b = [0x81, 0] @ payload"
proof -
  have l: "length (head_126_bytes n key) = 14" "length (head_127_bytes n key) = 20" for n
    using assms(1) by (simp_all add: head_126_bytes_def head_127_bytes_def)
  show ?thesis
    using assms l by (auto simp: encode_packet_def ophdr_text write_at_Inr)
qed

section \<open>Properties\<close>

text \<open>
  A client's frame with a payload of at most 125 bytes is decoded correctly: for every key
  and payload, whatever follows in the buffer, \<open>decode_packet\<close> returns the payload in the
  clear at offset 6, its length and the key.
\<close>

theorem decode_short_frame:
  assumes "length key = 4" and "length payload < 126"
  shows "\<exists>s. decode_packet (client_frame b0 key payload @ rest) = Inr (s, key, 6, int (length payload)) \<and>
    take (length payload) (drop 6 s) = payload \<and> drop (6 + length payload) s = rest"
proof -
  let ?h = "[b0, 128 OR of_nat (length payload)] @ key"
  have "length ?h = 6" using assms(1) by simp
  then have "drop (6 + length payload) (?h @ payload @ rest) = rest" "take (length payload) (drop 6 (?h @ payload @ rest)) = payload"
    by (simp_all del: append.simps)
  then show ?thesis
    using decode_client_frame [OF assms, of b0 rest] by auto
qed

theorem decode_short_frame_witness:
  "\<exists>s. decode_packet (client_frame 0x81 [1, 2, 3, 4] (bs ''Hi'') @ [0]) = Inr (s, [1, 2, 3, 4], 6, 2) \<and>
     take 2 (drop 6 s) = bs ''Hi''"
  using decode_short_frame [of "[1, 2, 3, 4]" "bs ''Hi''" "0x81" "[0]"] by (auto simp: bs_def numeral_eq_Suc)

text \<open>
  The extended lengths are never recognised: the code looks for the values 126 and 127 in
  the one-bit field \<open>mask\<close>. A masked frame that announces a 16-bit length is decoded as 126
  bytes under a key made of the two length bytes and the first half of the real key.
\<close>

theorem extended_frame_misread:
  assumes "length key = 4" and "124 \<le> length rest"
  shows "\<exists>s. decode_packet ([b0, 254, hi, lo] @ key @ rest) = Inr (s, [hi, lo, key ! 0, key ! 1], 6, 126)"
proof -
  have sz: "126 = uint (hd_payload_length (ophdr_of b0 254))"
    by (simp add: ophdr_of_def)
  obtain a b c d where key: "key = [a, b, c, d]"
    using assms(1) by (auto simp: length_Suc_conv numeral_eq_Suc)
  let ?s = "[b0, 254, hi, lo] @ key @ rest"
  have "decode_packet ?s = (case umask ?s 6 126 [hi, lo, a, b] of
      Inl f \<Rightarrow> Inl f | Inr s \<Rightarrow> Inr (s, [hi, lo, a, b], 6, 126))"
    using sz by (intro decode_packet_eq) (simp_all add: key)
  moreover have "6 + 0 + 126 \<le> length ?s" using assms by simp
  ultimately show ?thesis
    using umask_loop_eq [of 6 0 126 ?s "[hi, lo, a, b]"] by (simp add: umask_def key)
qed

theorem extended_frame_misread_witness:
  "\<exists>s. decode_packet ([0x81, 254, 0, 200] @ [9, 8, 7, 6] @ replicate 200 0) = Inr (s, [0, 200, 9, 8], 6, 126)"
  using extended_frame_misread [of "[9, 8, 7, 6]" "replicate 200 0" "0x81" 0 200] by simp

text \<open>
  \<open>encode_packet\<close> in a buffer that is large enough: the returned length covers a text frame
  whose header carries the length of the payload when it is below 126. From 126 bytes on the
  length field stays 0 and the extended header is overwritten by the payload, so the frame
  on the wire announces an empty payload.
\<close>

theorem encode_packet_frames:
  assumes "length key = 4" and "length payload + 22 \<le> length buffer"
  shows "\<exists>b. encode_packet buffer key (payload @ rest) (int (length payload)) = Inr (b, int (length payload) + 2) \<and>
    take (length payload + 2) b =
      [0x81, if length payload < 126 then of_nat (length payload) else 0] @ payload"
  using encode_packet_short [of payload buffer key rest] encode_packet_long [of key payload buffer rest] assms
  by (cases "length payload < 126") auto

theorem encode_packet_frames_witness:
  "\<exists>b. encode_packet (replicate 30 0) [0, 0, 0, 0] (bs ''Hi'' @ []) 2 = Inr (b, 4) \<and> take 4 b = [0x81, 2] @ bs ''Hi''"
  using encode_packet_frames [of "[0, 0, 0, 0]" "bs ''Hi''" "replicate 30 0" "[]"]
  by (simp add: bs_def numeral_eq_Suc)

end
