(* ===== verification/Do_String.thy ===== *)
theory Do_String
  imports Std_String
begin

text \<open>
  The string helpers of \<open>src/websocket/do_string.h\<close>: trimming and splitting (namespace
  \<open>do_string\<close>), percent encoding (\<open>urldecode_urlencode\<close>) and Base64 (\<open>base64\<close>). The hash
  functions of the namespace \<open>encode\<close> only call Crypto++ and are parameters where they are
  used.
\<close>

section \<open>Trimming and splitting\<close>

definition WHITE_SPACE :: "byte list" where
  "WHITE_SPACE = [32, 10, 13, 9, 12, 11]"

definition ltrim :: "byte list \<Rightarrow> byte list" where
  "ltrim s = (case find_first_not_of WHITE_SPACE s of None \<Rightarrow> [] | Some start \<Rightarrow> drop start s)"

definition rtrim :: "byte list \<Rightarrow> byte list" where
  "rtrim s = (case find_last_not_of WHITE_SPACE s of None \<Rightarrow> [] | Some e \<Rightarrow> take (e + 1) s)"

definition trim :: "byte list \<Rightarrow> byte list" where
  "trim s = rtrim (ltrim s)"

text \<open>
  The loop of \<open>split\<close>, with \<open>rest\<close> what lies at and behind the index \<open>i\<close>. With an empty
  delimiter the index does not move and the loop does not end.
\<close>

partial_function (option) split_loop ::
    "byte list \<Rightarrow> bool \<Rightarrow> byte list \<Rightarrow> byte list list \<Rightarrow> byte list list option" where
  "split_loop delim is_trim rest res =
     (if rest = [] then Some res
      else case find_sub delim rest of
             Some n \<Rightarrow>
               split_loop delim is_trim (drop (n + length delim) rest)
                 (res @ [if is_trim then trim (take n rest) else take n rest])
           | None \<Rightarrow> split_loop delim is_trim (tl rest) res)"

declare split_loop.simps [code]

definition split3 :: "byte list \<Rightarrow> byte list \<Rightarrow> bool \<Rightarrow> byte list list option" where
  "split3 str delim is_trim =
     (if str = [] then Some [] else split_loop delim is_trim (str @ delim) [])"

definition split :: "byte list \<Rightarrow> byte list \<Rightarrow> byte list list option" where
  "split str delim = split3 str delim False"

section \<open>Percent encoding\<close>

definition ToHex :: "byte \<Rightarrow> byte" where
  "ToHex x = (if x > 9 then x + 55 else x + 48)"

definition FromHex :: "byte \<Rightarrow> fault + byte" where
  "FromHex x =
     (if 65 \<le> x \<and> x \<le> 90 then Inr (x - 65 + 10)
      else if 97 \<le> x \<and> x \<le> 122 then Inr (x - 97 + 10)
      else if 48 \<le> x \<and> x \<le> 57 then Inr (x - 48)
      else Inl Assert_failed)"

definition unreserved :: "byte \<Rightarrow> bool" where
  "unreserved c \<longleftrightarrow> isalnum c \<or> c = 45 \<or> c = 95 \<or> c = 46 \<or> c = 126"

definition encode_char :: "byte \<Rightarrow> byte list" where
  "encode_char c =
     (if unreserved c then [c]
      else if c = 32 then [43]
      else [37, ToHex (drop_bit 4 c), ToHex (c mod 16)])"

fun UrlEncode :: "byte list \<Rightarrow> byte list" where
  "UrlEncode [] = []"
| "UrlEncode (c # str) = encode_char c @ UrlEncode str"

fun UrlDecode :: "byte list \<Rightarrow> fault + byte list" where
  "UrlDecode [] = Inr []"
| "UrlDecode (c # str) =
     (if c = 43 then map_sum id (Cons 32) (UrlDecode str)
      else if c = 37
      then case str of
             h # l # str' \<Rightarrow>
               (case FromHex h of
                  Inl f \<Rightarrow> Inl f
                | Inr high \<Rightarrow>
                    (case FromHex l of
                       Inl f \<Rightarrow> Inl f
                     | Inr low \<Rightarrow> map_sum id (Cons (high * 16 + low)) (UrlDecode str')))
           | _ \<Rightarrow> Inl Assert_failed
      else map_sum id (Cons c) (UrlDecode str))"

section \<open>Base64\<close>

definition base64_chars :: "byte list" where
  "base64_chars = bs ''ABCDEFGHIJKLMNOPQRSTUVWXYZabcdefghijklmnopqrstuvwxyz0123456789+/''"

text \<open>\<open>isalnum\<close> on a negative \<open>char\<close> is false in the C locale of glibc.\<close>

definition is_base64 :: "byte \<Rightarrow> bool" where
  "is_base64 c \<longleftrightarrow> isalnum c \<or> c = 43 \<or> c = 47"

text \<open>The four 6-bit values of three bytes.\<close>

definition sextets :: "byte \<Rightarrow> byte \<Rightarrow> byte \<Rightarrow> byte list" where
  "sextets a b c =
     [drop_bit 2 (a AND 0xFC),
      push_bit 4 (a AND 0x03) + drop_bit 4 (b AND 0xF0),
      push_bit 2 (b AND 0x0F) + drop_bit 6 (c AND 0xC0),
      c AND 0x3F]"

text \<open>\<open>base64_chars[v]\<close>; the index is below 64.\<close>

definition b64_char :: "byte \<Rightarrow> byte" where
  "b64_char v = base64_chars ! unat v"

text \<open>The loop over the input: \<open>arr\<close> is the filled part of \<open>char_array_3\<close>.\<close>

fun encode_loop :: "byte list \<Rightarrow> byte list \<Rightarrow> byte list \<Rightarrow> byte list \<times> byte list" where
  "encode_loop [] arr ret = (arr, ret)"
| "encode_loop (x # xs) arr ret =
     (case arr @ [x] of
        [a, b, c] \<Rightarrow> encode_loop xs [] (ret @ map b64_char (sextets a b c))
      | arr' \<Rightarrow> encode_loop xs arr' ret)"

definition encode_tail :: "byte list \<Rightarrow> byte list \<Rightarrow> byte list" where
  "encode_tail arr ret =
     (let i = length arr;
          arr3 = arr @ replicate (3 - i) 0
      in if i = 0 then ret
         else ret @ map b64_char (take (i + 1) (sextets (arr3 ! 0) (arr3 ! 1) (arr3 ! 2)))
                @ replicate (3 - i) 61)"

definition base64_encode :: "byte list \<Rightarrow> byte list" where
  "base64_encode bytes = (let (arr, ret) = encode_loop bytes [] [] in encode_tail arr ret)"

text \<open>
  \<open>base64_chars.find(c)\<close> stored in an \<open>unsigned char\<close>: the value \<open>npos\<close> becomes 255.
\<close>

definition b64_find :: "byte \<Rightarrow> byte" where
  "b64_find c = (case find_sub [c] base64_chars of Some i \<Rightarrow> of_nat i | None \<Rightarrow> 255)"

definition triple :: "byte \<Rightarrow> byte \<Rightarrow> byte \<Rightarrow> byte \<Rightarrow> byte list" where
  "triple a b c d =
     [push_bit 2 a + drop_bit 4 (b AND 0x30),
      push_bit 4 (b AND 0xF) + drop_bit 2 (c AND 0x3C),
      push_bit 6 (c AND 0x3) + d]"

fun decode_loop :: "byte list \<Rightarrow> byte list \<Rightarrow> byte list \<Rightarrow> byte list \<times> byte list" where
  "decode_loop [] arr ret = (arr, ret)"
| "decode_loop (x # xs) arr ret =
     (if x \<noteq> 61 \<and> is_base64 x
      then case arr @ [x] of
             [a, b, c, d] \<Rightarrow>
               decode_loop xs [] (ret @ triple (b64_find a) (b64_find b) (b64_find c) (b64_find d))
           | arr' \<Rightarrow> decode_loop xs arr' ret
      else (arr, ret))"

definition decode_tail :: "byte list \<Rightarrow> byte list \<Rightarrow> byte list" where
  "decode_tail arr ret =
     (let i = length arr;
          arr4 = map b64_find (arr @ replicate (4 - i) 0)
      in if i = 0 then ret
         else ret @ take (i - 1) (triple (arr4 ! 0) (arr4 ! 1) (arr4 ! 2) (arr4 ! 3)))"

definition base64_decode :: "byte list \<Rightarrow> byte list" where
  "base64_decode encoded = (let (arr, ret) = decode_loop encoded [] [] in decode_tail arr ret)"

section \<open>Base64 lemmas\<close>

lemma find_sub_nth: "distinct xs \<Longrightarrow> n < length xs \<Longrightarrow> find_sub [xs ! n] xs = Some n"
  by (rule find_sub_first) (auto simp: take_Suc_conv_app_nth nth_eq_iff_index_eq hd_drop_conv_nth take_Suc)

lemma base64_chars_eq: "base64_chars = [65,66,67,68,69,70,71,72,73,74,75,76,77,78,79,80,81,82,83,84,85,86,87,88,89,90,
  97,98,99,100,101,102,103,104,105,106,107,108,109,110,111,112,113,114,115,116,117,118,119,120,121,122,
  48,49,50,51,52,53,54,55,56,57,43,47]"
  by (simp add: base64_chars_def bs_def)

lemma base64_chars_table: "distinct base64_chars" "length base64_chars = 64" "\<forall>c \<in> set base64_chars. is_base64 c \<and> c \<noteq> 61"
  by (simp_all add: base64_chars_eq is_base64_def isalnum_def)

lemma FromHex_ToHex: "v < 16 \<Longrightarrow> FromHex (ToHex v) = Inr v"
proof -
  assume "v < 16"
  then have "unat v < 16" by (simp add: word_less_nat_alt)
  moreover have "\<forall>n < 16. FromHex (ToHex (of_nat n)) = Inr (of_nat n)" by code_simp
  ultimately have "FromHex (ToHex (of_nat (unat v))) = Inr (of_nat (unat v))" by blast
  then show ?thesis by simp
qed

lemma bit_nibble: "(n :: nat) < 8 \<Longrightarrow> n = 0 \<or> n = 1 \<or> n = 2 \<or> n = 3 \<or> n = 4 \<or> n = 5 \<or> n = 6 \<or> n = 7"
  by linarith

lemma and_low: "(x :: byte) AND 3 = take_bit 2 x" "x AND 0xF = take_bit 4 x" "x AND 0x3F = take_bit 6 x"
  by (simp_all add: take_bit_eq_mask mask_eq_exp_minus_1)
lemma byte_bit: "8 \<le> n \<Longrightarrow> \<not> bit (x :: byte) n"
  by (auto dest: bit_imp_le_length)
lemma and_high: "drop_bit 2 ((x :: byte) AND 0xFC) = drop_bit 2 x" "drop_bit 4 (x AND 0xF0) = drop_bit 4 x"
  "drop_bit 6 (x AND 0xC0) = drop_bit 6 x" 
proof -
  show "drop_bit 2 ((x :: byte) AND 0xFC) = drop_bit 2 x"
    by (rule bit_word_eqI) (auto dest!: bit_nibble simp: bit_simps byte_bit)
  show "drop_bit 4 (x AND 0xF0) = drop_bit 4 x"
    by (rule bit_word_eqI) (auto dest!: bit_nibble simp: bit_simps byte_bit)
  show "drop_bit 6 (x AND 0xC0) = drop_bit 6 x"
    by (rule bit_word_eqI) (auto dest!: bit_nibble simp: bit_simps byte_bit)
qed
lemma sum_or: "push_bit 4 (take_bit 2 (a :: byte)) + drop_bit 4 (b::byte) = push_bit 4 (take_bit 2 a) OR drop_bit 4 b"
  "push_bit 2 (take_bit 4 a) + drop_bit 6 b = push_bit 2 (take_bit 4 a) OR drop_bit 6 b"
  by (rule disjunctive_add; auto simp: bit_simps byte_bit)+
lemma sextets_eq: "sextets a b c = [drop_bit 2 a, push_bit 4 (take_bit 2 a) OR drop_bit 4 b,
    push_bit 2 (take_bit 4 b) OR drop_bit 6 c, take_bit 6 c]"
  by (simp only: sextets_def and_low and_high sum_or)

lemma sextet_bits:
  fixes a b c :: byte
  shows "drop_bit 4 ((push_bit 4 (take_bit 2 a) OR drop_bit 4 b) AND 0x30) = take_bit 2 a"
    and "push_bit 4 ((push_bit 4 (take_bit 2 a) OR drop_bit 4 b) AND 0xF) = push_bit 4 (drop_bit 4 b)"
    and "drop_bit 2 ((push_bit 2 (take_bit 4 b) OR drop_bit 6 c) AND 0x3C) = take_bit 4 b"
    and "push_bit 6 ((push_bit 2 (take_bit 4 b) OR drop_bit 6 c) AND 0x3) = push_bit 6 (drop_bit 6 c)"
  by (rule bit_word_eqI; auto dest!: bit_nibble simp: bit_simps byte_bit)+

lemma triple_sextets: "sextets a b c = [p, q, r, t] \<Longrightarrow> triple p q r t = [a, b, c]"
proof -
  have "triple (drop_bit 2 a) (push_bit 4 (take_bit 2 a) OR drop_bit 4 b)
      (push_bit 2 (take_bit 4 b) OR drop_bit 6 c) (take_bit 6 c) = [a, b, c]"
    by (simp only: triple_def sextet_bits bits_ident)
  then show "sextets a b c = [p, q, r, t] \<Longrightarrow> ?thesis"
    by (simp only: sextets_eq list.inject)
qed

lemma sextets_small: "v \<in> set (sextets a b c) \<Longrightarrow> unat v < 64"
proof -
  assume v: "v \<in> set (sextets a b c)"
  have "take_bit 6 (drop_bit 2 a) = drop_bit 2 a" 
    "take_bit 6 (push_bit 4 (take_bit 2 a) OR drop_bit 4 b) = push_bit 4 (take_bit 2 a) OR drop_bit 4 b"
    "take_bit 6 (push_bit 2 (take_bit 4 b) OR drop_bit 6 c) = push_bit 2 (take_bit 4 b) OR drop_bit 6 c"
    by (rule bit_word_eqI; auto dest!: bit_nibble simp: bit_simps byte_bit)+
  then have "take_bit 6 v = v" using v by (auto simp: sextets_eq)
  then have "take_bit 6 (unat v) = unat v" by (metis unsigned_take_bit_eq)
  then show ?thesis using take_bit_nat_less_exp [of 6 "unat v"] by simp
qed

lemma b64_char_find:
  assumes "v \<in> set (sextets a b c)"
  shows "b64_find (b64_char v) = v" "is_base64 (b64_char v)" "b64_char v \<noteq> 61"
proof -
  have n: "unat v < length base64_chars" using sextets_small [OF assms] base64_chars_table(2) by simp
  show "b64_find (b64_char v) = v"
    using find_sub_nth [OF base64_chars_table(1) n] by (simp add: b64_find_def b64_char_def)
  show "is_base64 (b64_char v)" "b64_char v \<noteq> 61"
    using n base64_chars_table(3) by (auto simp: b64_char_def)
qed

lemma decode_block:
  "decode_loop (map b64_char (sextets a b c) @ xs) [] ret = decode_loop xs [] (ret @ [a, b, c])"
proof -
  obtain p q r t where s: "sextets a b c = [p, q, r, t]" by (simp add: sextets_def)
  have "\<forall>v \<in> {p, q, r, t}. b64_find (b64_char v) = v \<and> is_base64 (b64_char v) \<and> b64_char v \<noteq> 61"
    using b64_char_find [of _ a b c] s by auto
  then show ?thesis
    using triple_sextets [OF s] by (simp add: s)
qed

lemma decode_tail_block:
  assumes "length arr = 1 \<or> length arr = 2"
  shows "(case decode_loop (encode_tail arr []) [] ret of (arr', ret') \<Rightarrow> decode_tail arr' ret') = ret @ arr"
proof -
  define a where "a = (arr @ [0, 0]) ! 0"
  define b where "b = (arr @ [0, 0]) ! 1"
  obtain p q r t where s: "sextets a b 0 = [p, q, r, t]" by (simp add: sextets_def)
  have ok: "\<forall>v \<in> {p, q, r, t}. b64_find (b64_char v) = v \<and> is_base64 (b64_char v) \<and> b64_char v \<noteq> 61"
    using b64_char_find [of _ a b 0] s by auto
  have "triple p q r' t' ! 0 = a" "triple p q r t' ! Suc 0 = b" for r' t'
    using triple_sextets [OF s] by (auto simp: triple_def)
  note tr = this
  from assms show ?thesis
  proof
    assume "length arr = 1"
    then obtain x where arr: "arr = [x]" by (auto simp: length_Suc_conv)
    then have "a = x" "b = 0" by (simp_all add: a_def b_def)
    then show ?thesis using ok s tr
      by (simp add: arr encode_tail_def Let_def numeral_2_eq_2 decode_tail_def triple_def)
  next
    assume "length arr = 2"
    then obtain x y where arr: "arr = [x, y]" by (auto simp: length_Suc_conv numeral_2_eq_2)
    then have "a = x" "b = y" by (simp_all add: a_def b_def)
    then show ?thesis using ok s tr
      by (simp add: arr encode_tail_def Let_def numeral_2_eq_2 numeral_3_eq_3 decode_tail_def triple_def)
  qed
qed

lemma encode_tail_app: "encode_tail arr ret = ret @ encode_tail arr []"
  by (simp add: encode_tail_def Let_def)

fun blocks :: "byte list \<Rightarrow> byte list" where
  "blocks (a # b # c # xs) = map b64_char (sextets a b c) @ blocks xs"
| "blocks xs = encode_tail xs []"

lemma encode_loop_blocks: "(case encode_loop xs [] ret of (arr, ret') \<Rightarrow> encode_tail arr ret') = ret @ blocks xs"
  by (induction xs arbitrary: ret rule: blocks.induct) (simp_all add: encode_tail_def Let_def)

lemma decode_blocks: "(case decode_loop (blocks xs) [] ret of (arr, ret') \<Rightarrow> decode_tail arr ret') = ret @ xs"
proof (induction xs arbitrary: ret rule: blocks.induct, goal_cases)
  case (1 a b c xs ret)
  then show ?case by (simp only: blocks.simps decode_block append_assoc append.simps)
next
  case (2 ret)
  then show ?case by (simp add: encode_tail_def decode_tail_def)
next
  case (3 v ret)
  then show ?case using decode_tail_block [of "[v]"] by simp
next
  case (4 v va ret)
  then show ?case using decode_tail_block [of "[v, va]"] by simp
qed

lemma b64_char_in: "v \<in> set (sextets a b c) \<Longrightarrow> b64_char v \<in> set base64_chars"
  using sextets_small [of v a b c] base64_chars_table(2) by (simp add: b64_char_def)

lemma length_blocks: "length (blocks xs) = 4 * ((length xs + 2) div 3)"
proof (induction xs rule: blocks.induct)
  case (1 a b c xs)
  have "(length (a # b # c # xs) + 2) div 3 = Suc ((length xs + 2) div 3)" by simp
  with 1 show ?case by (simp add: sextets_def)
qed (simp_all add: sextets_def encode_tail_def Let_def)

lemma blocks_alphabet: "set (blocks xs) \<subseteq> insert 61 (set base64_chars)"
proof (induction xs rule: blocks.induct)
  case (1 a b c xs)
  then show ?case using b64_char_in [of _ a b c] by auto
qed (use b64_char_in in \<open>auto simp: encode_tail_def Let_def dest!: in_set_takeD\<close>)

lemma base64_encode_blocks: "base64_encode xs = blocks xs"
  using encode_loop_blocks [of xs "[]"] by (simp add: base64_encode_def)

subsection \<open>Percent encoding\<close>

lemma nibbles: "drop_bit 4 (c :: byte) < 16" "c mod 16 < 16"
  using unsigned_less [of c, where 'a = nat]
  by (simp_all add: word_less_nat_alt drop_bit_eq_div unat_div unat_mod)

lemma FromHex_nibbles:
  "FromHex (ToHex (drop_bit 4 c)) = Inr (drop_bit 4 c)" "FromHex (ToHex (c mod 16)) = Inr (c mod 16)"
  by (simp_all only: FromHex_ToHex nibbles)

lemma unreserved_plain: "unreserved c \<Longrightarrow> c \<noteq> 43 \<and> c \<noteq> 37"
  by (auto simp: unreserved_def isalnum_def)

lemma decode_encode_char: "UrlDecode (encode_char c @ str) = map_sum id (Cons c) (UrlDecode str)"
proof -
  have "drop_bit 4 c * 16 + c mod 16 = c"
    using div_mult_mod_eq [of c 16] by (simp add: drop_bit_eq_div)
  then show ?thesis
    using unreserved_plain by (auto simp: encode_char_def FromHex_nibbles)
qed

lemma url_decode_encode: "UrlDecode (UrlEncode str @ rest) = map_sum id (append str) (UrlDecode rest)"
proof (induction str)
  case Nil
  show ?case by (cases "UrlDecode rest") simp_all
next
  case (Cons c str)
  then show ?case by (cases "UrlDecode rest") (simp_all add: decode_encode_char)
qed

lemma ToHex_plain: "v < 16 \<Longrightarrow> isalnum (ToHex v)"
proof -
  assume "v < 16"
  then have "unat v < 16" by (simp add: word_less_nat_alt)
  moreover have "\<forall>n < 16. isalnum (ToHex (of_nat n))" by code_simp
  ultimately have "isalnum (ToHex (of_nat (unat v)))" by blast
  then show ?thesis by simp
qed

text \<open>Letters behind F are taken for hexadecimal digits: \<open>%ZZ\<close> decodes to the byte 83.\<close>

lemma FromHex_accepts_letters: "UrlDecode (bs ''%ZZ'') = Inr [83]"
  by code_simp

subsection \<open>Splitting\<close>

text \<open>The pieces put together again, and delimiters that cannot overlap themselves.\<close>

fun join :: "byte list \<Rightarrow> byte list list \<Rightarrow> byte list" where
  "join d [] = []"
| "join d [p] = p"
| "join d (p # ps) = p @ d @ join d ps"

definition unbordered :: "byte list \<Rightarrow> bool" where
  "unbordered d \<longleftrightarrow> (\<forall>k. 0 < k \<and> k < length d \<longrightarrow> drop k d \<noteq> take (length d - k) d)"

lemma find_sub_append:
  assumes "find_sub d s = Some k"
  shows "find_sub d (s @ d) = Some k"
proof -
  note found = find_sub_Some [OF assms]
  have "take (length d) (drop j (s @ d)) = take (length d) (drop j s)" if "j \<le> k" for j
    using that found by simp
  then show ?thesis
    using found by (intro find_sub_first) auto
qed

lemma sublist_take_drop: "take n (drop k s) = d \<Longrightarrow> sublist d s"
  by (metis append_take_drop_id sublist_def)

lemma find_sub_end:
  assumes "find_sub d s = None" and "unbordered d" and "d \<noteq> []"
  shows "find_sub d (s @ d) = Some (length s)"
proof (rule find_sub_first)
  fix j assume j: "j < length s"
  show "take (length d) (drop j (s @ d)) \<noteq> d"
  proof (cases "j + length d \<le> length s")
    case True
    then have "take (length d) (drop j (s @ d)) = take (length d) (drop j s)" by simp
    then show ?thesis
      using find_sub_None [OF assms(1)] sublist_take_drop by metis
  next
    case False
    define m where "m = length s - j"
    have m: "0 < m" "m < length d" using j False by (auto simp: m_def)
    have "drop m (take (length d) (drop j (s @ d))) = take (length d - m) d"
      using j m by (simp add: drop_take m_def)
    with assms(2) m show ?thesis unfolding unbordered_def by metis
  qed
qed simp_all

lemma unbordered_two: "a \<noteq> b \<Longrightarrow> unbordered [a, b]"
  by (auto simp: unbordered_def less_Suc_eq)

lemma join_Cons: "ps \<noteq> [] \<Longrightarrow> join d (p # ps) = p @ d @ join d ps"
  by (cases ps) auto

lemma split_loop_pieces:
  assumes "d \<noteq> []" and "unbordered d"
  shows "\<exists>ps. ps \<noteq> [] \<and> join d ps = s \<and> (\<forall>p \<in> set ps. \<not> sublist d p) \<and>
    split_loop d b (s @ d) res = Some (res @ map (if b then trim else id) ps)"
proof (induction "length s" arbitrary: s res rule: less_induct)
  case less
  let ?f = "if b then trim else id"
  show ?case
  proof (cases "find_sub d s")
    case None
    have "split_loop d b (s @ d) res = Some (res @ [?f s])"
      using find_sub_end [OF None assms(2,1)] assms(1) by (simp add: split_loop.simps)
    then show ?thesis
      using find_sub_None [OF None] by (intro exI [of _ "[s]"]) simp
  next
    case (Some k)
    note found = find_sub_Some [OF Some]
    have s: "s = take k s @ d @ drop (k + length d) s"
      using found by (metis add.commute append_take_drop_id drop_drop)
    have "length (drop (k + length d) s) < length s"
      using found assms(1) by (cases d) auto
    from less [OF this, of "res @ [?f (take k s)]"] obtain ps where
      ps: "ps \<noteq> []" "join d ps = drop (k + length d) s" "\<forall>p \<in> set ps. \<not> sublist d p"
        "split_loop d b (drop (k + length d) s @ d) (res @ [?f (take k s)]) =
          Some ((res @ [?f (take k s)]) @ map ?f ps)" by blast
    have "\<not> sublist d (take k s)"
    proof
      assume "sublist d (take k s)"
      then obtain a c where a: "take k s = a @ d @ c" by (auto simp: sublist_def)
      have "s = (a @ d @ c) @ drop k s" unfolding a [symmetric] by simp
      then have "take (length d) (drop (length a) s) = d" by (metis append.assoc append_eq_conv_conj)
      moreover have "length a < k"
        using arg_cong [OF a, of length] found assms(1) by (cases d) auto
      ultimately show False using found by blast
    qed
    moreover have "split_loop d b (s @ d) res =
        split_loop d b (drop (k + length d) s @ d) (res @ [?f (take k s)])"
      using find_sub_append [OF Some] found assms(1)
      by (subst split_loop.simps) auto
    ultimately show ?thesis
      using ps s by (intro exI [of _ "take k s # ps"]) (simp add: join_Cons)
  qed
qed

text \<open>Pieces that avoid the first character of the delimiter come back from their concatenation.\<close>

lemma find_sub_piece:
  "d \<noteq> [] \<Longrightarrow> hd d \<notin> set p \<Longrightarrow> find_sub d (p @ d @ r) = Some (length p)"
proof (induction p)
  case Nil
  then show ?case by (cases d) (simp_all add: prefix_def)
next
  case (Cons x p)
  then have "\<not> prefix d (x # p @ d @ r)" by (cases d) auto
  with Cons show ?case by simp
qed

lemma split_loop_join:
  assumes "d \<noteq> []" and "\<forall>p \<in> set ps. hd d \<notin> set p" and "ps \<noteq> []"
  shows "split_loop d b (join d ps @ d) res = Some (res @ map (if b then trim else id) ps)"
  using assms(2,3)
proof (induction ps arbitrary: res)
  case (Cons p ps)
  let ?f = "if b then trim else id"
  have step: "split_loop d b (p @ d @ r) res = split_loop d b r (res @ [?f p])" for r
    using find_sub_piece [OF assms(1), of p r] Cons.prems(1) assms(1)
    by (subst split_loop.simps) auto
  show ?case
  proof (cases ps)
    case Nil
    then show ?thesis using step [of "[]"] by (simp add: split_loop.simps)
  next
    case (Cons q qs)
    then have "join d (p # ps) @ d = p @ d @ join d ps @ d" by (simp add: join_Cons)
    then show ?thesis
      using step [of "join d ps @ d"] Cons.IH [of "res @ [?f p]"] Cons.prems(1) Cons by simp
  qed
qed simp

lemma split_of_join:
  assumes "d \<noteq> []" and "\<forall>p \<in> set ps. hd d \<notin> set p" and "ps \<noteq> []" and "join d ps \<noteq> []"
  shows "split (join d ps) d = Some ps"
  using split_loop_join [OF assms(1-3), of False "[]"] assms(4) by (simp add: split_def split3_def)

lemma split_returns: "d \<noteq> [] \<Longrightarrow> unbordered d \<Longrightarrow> \<exists>ps. split str d = Some ps"
  using split_loop_pieces [of d str False "[]"] by (auto simp: split_def split3_def)

subsection \<open>Trimming\<close>

lemma ltrim_dropWhile: "ltrim s = dropWhile (\<lambda>x. x \<in> set WHITE_SPACE) s"
  by (auto simp: ltrim_def find_first_not_of_dropWhile dropWhile_eq_drop takeWhile_eq_all_conv [THEN iffD2])

lemma rtrim_dropWhile: "rtrim s = rev (dropWhile (\<lambda>x. x \<in> set WHITE_SPACE) (rev s))"
proof (cases "\<forall>x \<in> set s. x \<in> set WHITE_SPACE")
  case True
  then show ?thesis by (simp add: rtrim_def find_last_not_of_rev)
next
  case False
  let ?n = "length (takeWhile (\<lambda>x. x \<in> set WHITE_SPACE) (rev s))"
  have "dropWhile (\<lambda>x. x \<in> set WHITE_SPACE) (rev s) \<noteq> []"
    using False by (auto simp: dropWhile_eq_Nil_conv)
  then have "?n < length s"
    using dropWhile_eq_drop [of "\<lambda>x. x \<in> set WHITE_SPACE" "rev s"] by auto
  then have "length s - 1 - ?n + 1 = length s - ?n" by simp
  then have "rtrim s = take (length s - ?n) s"
    using False by (auto simp: rtrim_def find_last_not_of_rev)
  then show ?thesis
    by (simp add: dropWhile_eq_drop rev_drop)
qed

lemma UrlEncode_chars: "\<forall>c \<in> set (UrlEncode str). isalnum c \<or> c \<in> set (bs ''-_.~+%'')"
proof -
  have "isalnum d \<or> d \<in> set (bs ''-_.~+%'')" if "d \<in> set (encode_char c)" for c d
    using that ToHex_plain [OF nibbles(1) [of c]] ToHex_plain [OF nibbles(2) [of c]]
    by (auto simp: encode_char_def unreserved_def bs_def split: if_splits)
  then show ?thesis by (induction str) auto
qed

section \<open>Properties\<close>

text \<open>
  C22. Base64: for every byte string, decoding the encoding gives it back; the encoding has
  four characters for each started group of three bytes, all from the alphabet or the
  padding sign.
\<close>

theorem base64_roundtrip:
  "base64_decode (base64_encode xs) = xs \<and> length (base64_encode xs) = 4 * ((length xs + 2) div 3) \<and>
   set (base64_encode xs) \<subseteq> insert 61 (set base64_chars)"
proof -
  have "base64_decode (base64_encode xs) = xs"
    using decode_blocks [of xs "[]"] by (simp add: base64_encode_blocks base64_decode_def)
  then show ?thesis
    using length_blocks blocks_alphabet by (simp add: base64_encode_blocks)
qed

text \<open>
  Percent encoding: \<open>UrlDecode\<close> undoes \<open>UrlEncode\<close> on every byte string without a failed
  assertion, and an encoded string contains only letters, digits and the characters
  \<open>- _ . ~ + %\<close>.
\<close>

theorem url_roundtrip:
  "UrlDecode (UrlEncode str) = Inr str \<and>
   set (UrlEncode str) \<subseteq> {c. isalnum c} \<union> set (bs ''-_.~+%'')"
  using UrlEncode_chars [of str] url_decode_encode [of str "[]"] by auto

text \<open>
  Splitting loses nothing: for a non-empty string and a non-empty delimiter that cannot
  overlap itself (such as a colon, a space or CR LF), \<open>split\<close> returns, no piece contains the
  delimiter, and the pieces joined by the delimiter are the string again.
\<close>

theorem split_join:
  assumes "str \<noteq> []" and "delim \<noteq> []" and "unbordered delim"
  shows "\<exists>ps. split str delim = Some ps \<and> join delim ps = str \<and> (\<forall>p \<in> set ps. \<not> sublist delim p)"
proof -
  obtain ps where "join delim ps = str" "\<forall>p \<in> set ps. \<not> sublist delim p"
    "split_loop delim False (str @ delim) [] = Some ps"
    using split_loop_pieces [OF assms(2,3), of str False "[]"] by auto
  then show ?thesis
    using assms(1) by (auto simp: split_def split3_def)
qed

theorem split_join_witness:
  "\<exists>ps. split (bs ''a: b: c'') (bs '': '') = Some ps \<and> join (bs '': '') ps = bs ''a: b: c''"
  using split_join [of "bs ''a: b: c''" "bs '': ''"] unbordered_two [of 58 32] by (auto simp: bs_def)

text \<open>
  Trimming: \<open>trim\<close> cuts a string into white space, the result and white space, and the
  result neither starts nor ends with white space.
\<close>

theorem trim_spec:
  "\<exists>a b. s = a @ trim s @ b \<and> set (a @ b) \<subseteq> set WHITE_SPACE \<and>
     (trim s = [] \<or> hd (trim s) \<notin> set WHITE_SPACE \<and> last (trim s) \<notin> set WHITE_SPACE)"
proof -
  let ?w = "\<lambda>x. x \<in> set WHITE_SPACE"
  define m where "m = dropWhile ?w s"
  have t: "trim s = rev (dropWhile ?w (rev m))"
    by (simp add: trim_def ltrim_dropWhile rtrim_dropWhile m_def)
  have m: "m = trim s @ rev (takeWhile ?w (rev m))"
    unfolding t by (metis rev_append rev_rev_ident takeWhile_dropWhile_id)
  have "s = takeWhile ?w s @ trim s @ rev (takeWhile ?w (rev m))"
    using m by (metis m_def takeWhile_dropWhile_id)
  moreover have "set (takeWhile ?w s @ rev (takeWhile ?w (rev m))) \<subseteq> set WHITE_SPACE"
    by (auto dest: set_takeWhileD)
  moreover have "trim s = [] \<or> hd (trim s) \<notin> set WHITE_SPACE \<and> last (trim s) \<notin> set WHITE_SPACE"
  proof (cases "trim s = []")
    case False
    have "last (trim s) \<notin> set WHITE_SPACE"
      using False hd_dropWhile [of ?w "rev m"] by (simp add: t last_rev)
    moreover have "hd (trim s) = hd m"
      using False m by (metis hd_append2)
    moreover have "m \<noteq> []" using False m by (metis append_is_Nil_conv)
    ultimately show ?thesis
      using hd_dropWhile [of ?w s] by (simp add: m_def)
  qed simp
  ultimately show ?thesis by blast
qed

end
