(* ===== verification/Ws_Server.thy ===== *)
theory Ws_Server
  imports Ws_Frame Do_String Reactor
begin

text \<open>
  The WebSocket server \<open>src/websocket/epoll_websocket.cpp\<close>: its \<open>sock_item\<close>, the callbacks
  \<open>accept_cb\<close>, \<open>recv_cb\<close>, \<open>send_cb\<close>, the handshake and the handling of a data frame, and \<open>main\<close>.

  The hash function comes from Crypto++ and is the parameter \<open>sha1\<close>. Items are allocated with
  \<open>malloc\<close>, so their string members are never constructed and using them is undefined: the
  first use is the fault \<open>Unconstructed\<close>, unless the memory happens to hold what serves as two
  empty strings. The parameter \<open>mem\<close> says of which addresses this is so, and \<open>usable\<close> records it
  for an item. Console output is recorded for data frames only.
\<close>

section \<open>State\<close>

datatype WEBSOCKET_STATUS = WS_INIT | WS_HANDSHARK | WS_DATATRANSFORM | WS_DATAEND

record ws_item = item +
  recv_buffer :: "byte list"
  send_buffer :: "byte list"
  status :: WEBSOCKET_STATUS
  slength :: int
  usable :: bool

type_synonym ws_server = "ws_item server"

definition GUID :: "byte list" where
  "GUID = bs ''258EAFA5-E914-47DA-95CA-C5AB0DC85B11''"

definition CRLF :: "byte list" where
  "CRLF = [13, 10]"

section \<open>Callbacks\<close>

definition send_cb :: "ws_server \<Rightarrow> int \<Rightarrow> addr \<Rightarrow> fault + ws_server" where
  "send_cb s fd p =
     (case heap s p of
        None \<Rightarrow> Inl Use_after_free
      | Some si \<Rightarrow>
          if \<not> usable si then Inl Unconstructed
          else let s = send_fd fd (send_buffer si) s;
                   si = si\<lparr>sock_fd := fd, callback := Recv_cb, send_buffer := []\<rparr>
          in Inr (ctl_mod fd (EPOLLIN OR EPOLLET) p (put_item p si s)))"

text \<open>The loop of \<open>handshake\<close> that fills \<open>header_map\<close>.\<close>

fun header_loop :: "byte list list \<Rightarrow> (byte list \<Rightarrow> byte list option) \<Rightarrow>
    fault + (byte list \<Rightarrow> byte list option)" where
  "header_loop [] m = Inr m"
| "header_loop (res # headers) m =
     (case split res (bs '':'') of
        None \<Rightarrow> Inl Diverges
      | Some parts \<Rightarrow>
          if length parts < 2 then Inl Out_of_bounds
          else header_loop headers (m(parts ! 0 \<mapsto> trim (parts ! 1))))"

text \<open>The value \<open>unordered_map::operator[]\<close> gives for a key, the empty string when it is new.\<close>

definition lookup :: "(byte list \<Rightarrow> byte list option) \<Rightarrow> byte list \<Rightarrow> byte list" where
  "lookup m k = (case m k of None \<Rightarrow> [] | Some v \<Rightarrow> v)"

definition response :: "byte list \<Rightarrow> byte list" where
  "response sec_accept =
     bs ''HTTP/1.1 101 Switching Protocols'' @ CRLF @ bs ''Upgrade: websocket'' @ CRLF @
     bs ''Connection: Upgrade'' @ CRLF @ bs ''Sec-WebSocket-Accept: '' @ sec_accept @ CRLF @ CRLF"

definition handshake :: "(byte list \<Rightarrow> byte list) \<Rightarrow> ws_server \<Rightarrow> addr \<Rightarrow> ws_item \<Rightarrow> fault + ws_server" where
  "handshake sha1 s p si =
     (case split (recv_buffer si) CRLF of
        None \<Rightarrow> Inl Diverges
      | Some headers \<Rightarrow>
          if length headers < 2 then Inl Out_of_bounds
          else let headers = take (length headers - 2) headers
          in if headers = [] then Inl Out_of_bounds
          else case header_loop (tl headers) Map.empty of
            Inl f \<Rightarrow> Inl f
          | Inr header_map \<Rightarrow>
              let linebuf = lookup header_map (bs ''Sec-WebSocket-Key'')
              in if linebuf = [] then Inr s
              else let sec_accept = base64_encode (sha1 (linebuf @ GUID));
                       si = si\<lparr>recv_buffer := [], send_buffer := response sec_accept,
                               callback := Send_cb, status := WS_DATATRANSFORM\<rparr>
                in Inr (ctl_mod (sock_fd si) (EPOLLOUT OR EPOLLET) p (put_item p si s)))"

text \<open>The memory behind \<open>recv_buffer.c_str()\<close> is the string and its terminator.\<close>

definition data_tranform :: "ws_server \<Rightarrow> addr \<Rightarrow> ws_item \<Rightarrow> fault + ws_server" where
  "data_tranform s p si =
     (case decode_packet (recv_buffer si @ [0]) of
        Inl f \<Rightarrow> Inl f
      | Inr (stream, key, start, ret) \<Rightarrow>
          (case cstr (drop start stream) of
             Inl f \<Rightarrow> Inl f
           | Inr d \<Rightarrow> Inr (put_item p (si\<lparr>recv_buffer := []\<rparr>) (print_msg d ret s))))"

definition buffer_size :: nat where "buffer_size = 1500"

definition recv_cb :: "(byte list \<Rightarrow> byte list) \<Rightarrow> ws_server \<Rightarrow> int \<Rightarrow> addr \<Rightarrow> answer \<Rightarrow> fault + ws_server" where
  "recv_cb sha1 s fd p a =
     (let ret = recv_n buffer_size a;
          d = (case ret of Inl e \<Rightarrow> [] | Inr d \<Rightarrow> d)
      in case heap s p of
           None \<Rightarrow> Inl Use_after_free
         | Some si \<Rightarrow>
             (case cstr (d @ replicate (buffer_size - length d) 0) of
                Inl f \<Rightarrow> Inl f
              | Inr str \<Rightarrow>
                  if \<not> usable si then Inl Unconstructed
                  else let si = si\<lparr>recv_buffer := str\<rparr>; s = put_item p si s
                  in case ret of
                       Inl e \<Rightarrow>
                         if e = EAGAIN then Inr s
                         else Inr (free_item p (close_fd fd (ctl_del fd s)))
                     | Inr d \<Rightarrow>
                         if d = [] then Inr (free_item p (ctl_del fd (close_fd fd s)))
                         else if status si = WS_HANDSHARK then handshake sha1 s p si
                         else if status si = WS_DATATRANSFORM then data_tranform s p si
                         else Inr s))"

definition accept_cb :: "(addr \<Rightarrow> bool) \<Rightarrow> ws_server \<Rightarrow> answer \<Rightarrow> ws_server" where
  "accept_cb mem s a =
     (let clientfd = ans_accept a; s = open_fd clientfd s
      in if clientfd \<le> 0 then s
         else let si = \<lparr>sock_fd = clientfd, callback = Recv_cb, recv_buffer = [], send_buffer = [],
                        status = WS_HANDSHARK, slength = 0, usable = mem (brk s)\<rparr>
              in ctl_add clientfd (EPOLLIN OR EPOLLET) (brk s) (malloc_item si s))"

text \<open>\<open>si->callback(si->sock_fd, events, si)\<close>.\<close>

definition ws_call ::
  "(byte list \<Rightarrow> byte list) \<Rightarrow> (addr \<Rightarrow> bool) \<Rightarrow> ws_server \<Rightarrow> addr \<Rightarrow> answer \<Rightarrow> fault + ws_server" where
  "ws_call sha1 mem s p a =
     (case heap s p of
        None \<Rightarrow> Inl Use_after_free
      | Some si \<Rightarrow>
          (case callback si of
             Accept_cb \<Rightarrow> Inr (accept_cb mem s a)
           | Recv_cb \<Rightarrow> recv_cb sha1 s (sock_fd si) p a
           | Send_cb \<Rightarrow> send_cb s (sock_fd si) p))"

text \<open>One ready event in the loop of \<open>main\<close>.\<close>

definition ws_on_ready ::
  "(byte list \<Rightarrow> byte list) \<Rightarrow> (addr \<Rightarrow> bool) \<Rightarrow> ws_server \<Rightarrow> ready \<Rightarrow> answer \<times> answer \<Rightarrow> fault + ws_server" where
  "ws_on_ready sha1 mem = on_ready (ws_call sha1 mem)"

text \<open>
  \<open>main\<close> up to the loop: the exit code, or the server that starts to wait. The arguments are
  the results of \<open>socket\<close>, \<open>bind\<close>, \<open>listen\<close> and \<open>epoll_create\<close>; the status of the listening item
  is not initialised by the code.
\<close>

definition ws_main :: "(addr \<Rightarrow> bool) \<Rightarrow> int \<Rightarrow> int \<Rightarrow> int \<Rightarrow> int \<Rightarrow> WEBSOCKET_STATUS \<Rightarrow> int + ws_server" where
  "ws_main mem listen_fd bind_r listen_r epfd st =
     (if listen_fd < 0 then Inl 1
      else if bind_r < 0 then Inl 1
      else if listen_r < 0 then Inl 1
      else let s = \<lparr>interest = Map.empty, open_fds = {listen_fd, epfd}, heap = Map.empty, brk = 0,
                    outbox = [], printed = []\<rparr>;
               si = \<lparr>sock_fd = listen_fd, callback = Accept_cb, recv_buffer = [], send_buffer = [],
                     status = st, slength = 0, usable = mem (brk s)\<rparr>
           in Inr (ctl_add listen_fd EPOLLIN (brk s) (malloc_item si s)))"

section \<open>The server keeps its invariant\<close>

lemma put_item_heap [simp]: "heap (put_item p si s) p = Some si" "interest (put_item p si s) = interest s"
  "open_fds (put_item p si s) = open_fds s"
  by (simp_all add: put_item_def)

lemma put_put [simp]: "put_item p a (put_item p b s) = put_item p a s"
  by (simp add: put_item_def)

lemma put_print [simp]: "put_item p a (print_msg d n s) = print_msg d n (put_item p a s)"
  "put_item p a (send_fd fd d s) = send_fd fd d (put_item p a s)"
  "ctl_mod fd ev p (send_fd fd d s) = send_fd fd d (ctl_mod fd ev p s)"
  by (simp_all add: server_ops)

lemma open_fd_simps [simp]: "brk (open_fd c s) = brk s"
  by (simp add: open_fd_def)

lemma cstr_fault: "cstr m = Inl f \<Longrightarrow> f = Out_of_bounds"
  by (simp add: cstr_def split: if_splits)

lemma umask_loop_faults: "umask_loop m start i n key = Inl f \<Longrightarrow> f = Out_of_bounds"
  by (induction m start i n key rule: umask_loop.induct) (auto split: if_splits)

lemma decode_fault: "decode_packet m = Inl f \<Longrightarrow> f = Out_of_bounds"
  by (auto simp: decode_packet_def read_at_def umask_def Let_def dest: umask_loop_faults
      split: sum.splits if_splits prod.splits)

lemma unbordered_one: "unbordered [c]"
  by (auto simp: unbordered_def)

lemma split_colon: "\<exists>ps. split s (bs '':'') = Some ps"
  by (rule split_returns) (simp_all add: bs_def unbordered_one)

lemma split_CRLF: "\<exists>ps. split s CRLF = Some ps"
  by (rule split_returns) (simp_all add: CRLF_def unbordered_two)

lemma header_loop_fault: "header_loop hs m = Inl f \<Longrightarrow> f = Out_of_bounds"
proof (induction hs arbitrary: m)
  case (Cons h hs)
  then show ?case using split_colon [of h] by (auto split: if_splits)
qed simp

lemma handshake_cases:
  assumes "handshake sha1 s p si = r"
  obtains "r = Inl Out_of_bounds" | "r = Inr s"
  | acc where "r = Inr (ctl_mod (sock_fd si) (EPOLLOUT OR EPOLLET) p (put_item p
        (si\<lparr>recv_buffer := [], send_buffer := response acc, callback := Send_cb, status := WS_DATATRANSFORM\<rparr>) s))"
  using assms split_CRLF [of "recv_buffer si"]
  by (fastforce simp: handshake_def Let_def dest: header_loop_fault split: if_splits sum.splits)

lemma handshake_ok:
  assumes "wf_server s" and "heap s p = Some si" and "interest s (sock_fd si) = Some (ev, p)"
  shows "case handshake sha1 s p si of Inl f \<Rightarrow> f = Out_of_bounds | Inr s' \<Rightarrow> wf_server s' \<and> local_to p s s'"
proof (rule handshake_cases [OF refl, of sha1 s p si])
  fix acc
  let ?si = "si\<lparr>recv_buffer := [], send_buffer := response acc, callback := Send_cb, status := WS_DATATRANSFORM\<rparr>"
  assume "handshake sha1 s p si = Inr (ctl_mod (sock_fd si) (EPOLLOUT OR EPOLLET) p (put_item p ?si s))"
  then show ?thesis
    using rearm [OF assms(1,3,2), of ?si] by simp
qed (use assms(1) in simp_all)

lemma data_tranform_ok:
  assumes "wf_server s" and "heap s p = Some si"
  shows "case data_tranform s p si of Inl f \<Rightarrow> f = Out_of_bounds | Inr s' \<Rightarrow> wf_server s' \<and> local_to p s s'"
  using update_item [OF assms, of "si\<lparr>recv_buffer := []\<rparr>"]
  by (auto simp: data_tranform_def dest: cstr_fault decode_fault split: sum.split prod.split)

lemma recv_cb_ok:
  assumes "wf_server s" and "heap s p = Some si" and "interest s (sock_fd si) = Some (cb_events (callback si), p)"
  shows "case recv_cb sha1 s (sock_fd si) p a of
    Inl f \<Rightarrow> f \<in> {Out_of_bounds, Unconstructed} | Inr s' \<Rightarrow> wf_server s' \<and> local_to p s s'"
proof -
  define d where "d = (case recv_n buffer_size a of Inl e \<Rightarrow> [] | Inr d \<Rightarrow> d)"
  consider f where "cstr (d @ replicate (buffer_size - length d) 0) = Inl f" | "\<not> usable si"
    | str where "cstr (d @ replicate (buffer_size - length d) 0) = Inr str" "usable si"
    by (cases "cstr (d @ replicate (buffer_size - length d) 0)") auto
  then show ?thesis
  proof cases
    case 1
    then show ?thesis using assms(2) cstr_fault [OF 1] by (simp add: recv_cb_def d_def)
  next
    case 2
    then show ?thesis using assms(2)
      by (simp add: recv_cb_def flip: d_def) (auto dest: cstr_fault split: sum.split)
  next
    case 3
    define si' where "si' = si\<lparr>recv_buffer := str\<rparr>"
    define s' where "s' = put_item p si' s"
    have s': "wf_server s'" "local_to p s s'"
      using update_item [OF assms(1,2), of si'] by (simp_all add: s'_def si'_def)
    have i: "heap s' p = Some si'" "interest s' (sock_fd si') = Some (cb_events (callback si'), p)"
      "sock_fd si' = sock_fd si"
      using assms(3) by (simp_all add: s'_def si'_def)
    have weaken: "case r of Inl f \<Rightarrow> f \<in> {Out_of_bounds, Unconstructed} | Inr u \<Rightarrow> wf_server u \<and> local_to p s u"
      if "case r of Inl f \<Rightarrow> f = Out_of_bounds | Inr u \<Rightarrow> wf_server u \<and> local_to p s' u" for r
      using that local_to_trans [OF s'(2)] by (cases r) auto
    have "recv_cb sha1 s (sock_fd si) p a =
        (case recv_n buffer_size a of
           Inl e \<Rightarrow> if e = EAGAIN then Inr s' else Inr (free_item p (close_fd (sock_fd si') (ctl_del (sock_fd si') s')))
         | Inr d \<Rightarrow> if d = [] then Inr (free_item p (close_fd (sock_fd si') (ctl_del (sock_fd si') s')))
                   else if status si' = WS_HANDSHARK then handshake sha1 s' p si'
                   else if status si' = WS_DATATRANSFORM then data_tranform s' p si' else Inr s')"
      using assms(2) 3 unfolding recv_cb_def d_def by (simp add: Let_def s'_def si'_def split: sum.split)
    then show ?thesis
      using destroy [OF s'(1) i(2)] handshake_ok [OF s'(1) i(1,2), of sha1] data_tranform_ok [OF s'(1) i(1)] s'(1)
      by (intro weaken) (cases "recv_n buffer_size a"; simp)
  qed
qed

lemma send_cb_ok:
  assumes "wf_server s" and "heap s p = Some si" and "interest s (sock_fd si) = Some (ev, p)"
  shows "case send_cb s (sock_fd si) p of Inl f \<Rightarrow> f = Unconstructed | Inr s' \<Rightarrow> wf_server s' \<and> local_to p s s'"
  using rearm [OF assms(1,3,2), of "si\<lparr>callback := Recv_cb, send_buffer := []\<rparr>"] assms(2)
  by (simp add: send_cb_def)

lemma accept_cb_ok:
  assumes "wf_server s" and "ans_accept a \<notin> open_fds s"
  shows "wf_server (accept_cb mem s a) \<and> local_to p s (accept_cb mem s a)"
proof -
  let ?si = "\<lparr>sock_fd = ans_accept a, callback = Recv_cb, recv_buffer = [], send_buffer = [],
    status = WS_HANDSHARK, slength = 0, usable = mem (brk s)\<rparr>"
  show ?thesis
    using connect [OF assms, of ?si] assms(1) by (simp add: accept_cb_def Let_def)
qed

text \<open>The server is an instance of the reactor contract.\<close>

interpretation ws: callback_server "ws_call sha1 mem" "{Out_of_bounds, Unconstructed}" for sha1 mem
proof
  fix sha1 :: "byte list \<Rightarrow> byte list" and mem and s :: ws_server and p si and a :: answer
  assume wf: "wf_server s" and si: "heap s p = Some si"
    "interest s (sock_fd si) = Some (cb_events (callback si), p)" and a: "ans_accept a \<notin> open_fds s"
  show "case ws_call sha1 mem s p a of Inl f \<Rightarrow> f \<in> {Out_of_bounds, Unconstructed} | Inr s' \<Rightarrow> wf_server s' \<and> local_to p s s'"
    using recv_cb_ok [OF wf si, of sha1 a] send_cb_ok [OF wf si] accept_cb_ok [OF wf a, of mem p] si(1)
    by (cases "callback si") (simp_all add: ws_call_def split: sum.splits)
qed

lemma ws_main_wf: "ws_main mem lfd b l epfd st = Inr s \<Longrightarrow> wf_server s"
  by (auto simp: ws_main_def wf_server_def server_ops Let_def split: if_splits)

section \<open>Requests and frames\<close>

text \<open>Decoding a buffer that ends within the header, or before the announced payload does.\<close>

lemma decode_headless: "length m < 6 \<Longrightarrow> decode_packet m = Inl Out_of_bounds"
proof -
  assume "length m < 6"
  moreover have "take 2 m ! 0 = m ! 0" "take 2 m ! 1 = m ! 1" by simp_all
  ultimately show ?thesis
    using mask_not_extended [of "m ! 0" "m ! 1"] by (simp add: decode_packet_def read_at_def Let_def)
qed

lemma decode_truncated:
  assumes "6 \<le> length m" and "uint (hd_payload_length (ophdr_of (m ! 0) (m ! 1))) = sz"
    and "int (length m) < 6 + sz"
  shows "decode_packet m = Inl Out_of_bounds"
  using decode_packet_eq [OF assms(1,2) refl] umask_loop_fault [of 6 0 m "nat sz" "take 4 (drop 2 m)"] assms(1,3)
  by (simp add: umask_def)

text \<open>A request: the request line, the header lines and an empty line.\<close>

definition header_line :: "byte list \<times> byte list \<Rightarrow> byte list" where
  "header_line h = fst h @ bs '':'' @ snd h"

definition ws_request :: "byte list \<Rightarrow> (byte list \<times> byte list) list \<Rightarrow> byte list" where
  "ws_request line hs = join CRLF (line # map header_line hs @ [[], []])"

text \<open>
  Header names without CR, NUL and colon, values without CR and NUL. A value may contain colons;
  \<open>header_loop\<close> keeps what stands before the first one.
\<close>

definition header_ok :: "byte list \<times> byte list \<Rightarrow> bool" where
  "header_ok h \<longleftrightarrow> set (fst h) \<inter> {0, 13, 58} = {} \<and> set (snd h) \<inter> {0, 13} = {}"

definition upto_colon :: "byte list \<Rightarrow> byte list" where
  "upto_colon v = takeWhile (\<lambda>b. b \<noteq> 58) v"

lemma upto_colon_plain: "58 \<notin> set v \<Longrightarrow> upto_colon v = v"
  unfolding upto_colon_def by (rule takeWhile_eq_all_conv [THEN iffD2]) auto

lemma colon_pieces:
  "\<exists>vs. v = join [58] (upto_colon v # vs) \<and> (\<forall>p \<in> set (upto_colon v # vs). 58 \<notin> set p)"
proof (induction v)
  case (Cons b v)
  then obtain vs where vs: "v = join [58] (upto_colon v # vs)" "\<forall>p \<in> set (upto_colon v # vs). 58 \<notin> set p"
    by blast
  show ?case
  proof (cases "b = 58")
    case True
    then show ?thesis
      using vs by (intro exI [of _ "upto_colon v # vs"]) (simp add: upto_colon_def)
  next
    case False
    then show ?thesis
      using vs by (intro exI [of _ vs]) (cases vs; auto simp: upto_colon_def)
  qed
qed (simp add: upto_colon_def exI [of _ "[]"])

lemma split_header:
  assumes "header_ok h"
  obtains vs where "split (header_line h) (bs '':'') = Some (fst h # upto_colon (snd h) # vs)"
proof -
  obtain vs where vs: "snd h = join [58] (upto_colon (snd h) # vs)" "\<forall>p \<in> set (upto_colon (snd h) # vs). 58 \<notin> set p"
    using colon_pieces by blast
  have "header_line h = join (bs '':'') (fst h # upto_colon (snd h) # vs)"
    using vs(1) by (simp add: header_line_def bs_def)
  then show ?thesis
    using that split_of_join [of "bs '':''" "fst h # upto_colon (snd h) # vs"] assms vs(2)
    by (auto simp: header_ok_def bs_def)
qed

lemma header_loop_map:
  "\<forall>h \<in> set hs. header_ok h \<Longrightarrow>
     header_loop (map header_line hs) m = Inr (m ++ map_of (rev (map (\<lambda>(n, v). (n, trim (upto_colon v))) hs)))"
proof (induction hs arbitrary: m)
  case (Cons h hs)
  obtain vs where "split (header_line h) (bs '':'') = Some (fst h # upto_colon (snd h) # vs)"
    using split_header Cons.prems by (meson list.set_intros(1))
  with Cons show ?case
    by (simp add: map_add_def split_beta fun_eq_iff split: option.split)
qed simp

lemma request_split:
  assumes "13 \<notin> set line" and "\<forall>h \<in> set hs. header_ok h"
  shows "split (ws_request line hs) CRLF = Some (line # map header_line hs @ [[], []])"
  unfolding ws_request_def
proof (rule split_of_join)
  show "\<forall>p \<in> set (line # map header_line hs @ [[], []]). hd CRLF \<notin> set p"
    using assms by (auto simp: CRLF_def header_line_def header_ok_def bs_def)
  show "join CRLF (line # map header_line hs @ [[], []]) \<noteq> []"
    by (simp add: join_Cons CRLF_def)
qed (simp_all add: CRLF_def)

lemma set_join: "set (join d ps) \<subseteq> set d \<union> \<Union> (set ` set ps)"
  by (induction d ps rule: join.induct) auto

lemma request_no_NUL: "0 \<notin> set line \<Longrightarrow> \<forall>h \<in> set hs. header_ok h \<Longrightarrow> 0 \<notin> set (ws_request line hs)"
proof -
  assume "0 \<notin> set line" "\<forall>h \<in> set hs. header_ok h"
  then have "0 \<notin> set CRLF \<union> \<Union> (set ` set (line # map header_line hs @ [[], []]))"
    by (auto simp: CRLF_def header_line_def header_ok_def bs_def)
  then show ?thesis
    using set_join [of CRLF "line # map header_line hs @ [[], []]"] unfolding ws_request_def by blast
qed

text \<open>What \<open>recv_cb\<close> makes of a message that fits its buffer.\<close>

lemma recv_cb_message:
  assumes "heap s p = Some si" and "ans_recv a = Inr m" and "length m < buffer_size" and "m \<noteq> []"
    and "cstr (m @ [0]) = Inr str" and "usable si"
  shows "recv_cb sha1 s fd p a =
    (let si = si\<lparr>recv_buffer := str\<rparr>; s = put_item p si s
     in if status si = WS_HANDSHARK then handshake sha1 s p si
        else if status si = WS_DATATRANSFORM then data_tranform s p si else Inr s)"
proof -
  have "cstr (m @ replicate (buffer_size - length m) 0) = Inr str"
    using assms(3,5) by (cases "buffer_size - length m") (simp_all add: cstr_NUL)
  then show ?thesis using assms by (simp add: recv_cb_def recv_n_def Let_def)
qed

lemma handshake_reply:
  assumes "heap s p = Some si" and "usable si" and "callback si = Recv_cb" and "status si = WS_HANDSHARK"
    and "interest s (sock_fd si) = Some (cb_events Recv_cb, p)"
    and "set line \<inter> {0, 13} = {}" and "\<forall>h \<in> set hs. header_ok h"
    and "length (ws_request line hs) < buffer_size"
    and "map_of (rev hs) (bs ''Sec-WebSocket-Key'') = Some v" and "58 \<notin> set v" and "trim v \<noteq> []"
    and "ans_recv a = Inr (ws_request line hs)"
    and "reply = response (base64_encode (sha1 (trim v @ GUID)))"
  shows "\<exists>s' s''. ws_call sha1 mem s p a = Inr s' \<and>
    heap s' p = Some (si\<lparr>recv_buffer := [], send_buffer := reply, callback := Send_cb, status := WS_DATATRANSFORM\<rparr>) \<and>
    interest s' (sock_fd si) = Some (cb_events Send_cb, p) \<and> outbox s' = outbox s \<and>
    ws_call sha1 mem s' p b = Inr s'' \<and> outbox s'' = outbox s @ [(sock_fd si, reply)] \<and>
    interest s'' (sock_fd si) = Some (cb_events Recv_cb, p)"
proof -
  let ?r = "ws_request line hs"
  define str where "str = si\<lparr>recv_buffer := ?r\<rparr>"
  have "cstr (?r @ [0]) = Inr ?r"
    using request_no_NUL [of line hs] assms(6,7) by (intro cstr_plain) auto
  moreover have "?r \<noteq> []" by (simp add: ws_request_def join_Cons CRLF_def)
  ultimately have recv: "recv_cb sha1 s (sock_fd si) p a = handshake sha1 (put_item p str s) p str"
    using recv_cb_message [OF assms(1,12,8) _ _ assms(2), of ?r sha1] assms(4) by (simp add: str_def Let_def)
  have "lookup (map_of (rev (map (\<lambda>(n, v). (n, trim (upto_colon v))) hs))) (bs ''Sec-WebSocket-Key'') = trim v"
    using assms(9) upto_colon_plain [OF assms(10)] by (simp add: lookup_def rev_map map_of_map)
  moreover have "split ?r CRLF = Some (line # map header_line hs @ [[], []])"
    using request_split assms(6,7) by blast
  ultimately have "handshake sha1 (put_item p str s) p str = Inr (ctl_mod (sock_fd si) (EPOLLOUT OR EPOLLET) p
      (put_item p (str\<lparr>recv_buffer := [], send_buffer := reply, callback := Send_cb, status := WS_DATATRANSFORM\<rparr>) s))"
    using assms(11,13) header_loop_map [OF assms(7), of Map.empty]
    by (simp add: handshake_def Let_def str_def)
  then show ?thesis
    using assms(1-5) recv by (simp add: ws_call_def send_cb_def server_ops str_def)
qed

section \<open>Properties\<close>

text \<open>
  C14. The opening handshake: for a request that arrives in one piece of less than 1500 bytes,
  whose header names have no colon, and that has a header spelled exactly
  \<open>Sec-WebSocket-Key\<close> with a non-empty value without a colon, on an item whose strings are
  usable, \<open>recv_cb\<close> prepares the 101 response whose accept value is the Base64
  text of the hash of key and GUID, moves the connection to \<open>WS_DATATRANSFORM\<close> and registers
  it for output; the next call of the item's callback sends exactly this response and
  registers the connection for input again.
\<close>

theorem ws_handshake:
  assumes "heap s p = Some si" and "usable si" and "callback si = Recv_cb" and "status si = WS_HANDSHARK"
    and "interest s (sock_fd si) = Some (cb_events Recv_cb, p)"
    and "set line \<inter> {0, 13} = {}" and "\<forall>h \<in> set hs. header_ok h"
    and "length (ws_request line hs) < buffer_size"
    and "map_of (rev hs) (bs ''Sec-WebSocket-Key'') = Some v" and "58 \<notin> set v" and "trim v \<noteq> []"
    and "ans_recv a = Inr (ws_request line hs)"
    and "reply = response (base64_encode (sha1 (trim v @ GUID)))"
  shows "\<exists>s' s''. ws_call sha1 mem s p a = Inr s' \<and>
    heap s' p = Some (si\<lparr>recv_buffer := [], send_buffer := reply, callback := Send_cb, status := WS_DATATRANSFORM\<rparr>) \<and>
    interest s' (sock_fd si) = Some (cb_events Send_cb, p) \<and> outbox s' = outbox s \<and>
    ws_call sha1 mem s' p b = Inr s'' \<and> outbox s'' = outbox s @ [(sock_fd si, reply)] \<and>
    interest s'' (sock_fd si) = Some (cb_events Recv_cb, p)"
  by (rule handshake_reply) (use assms in simp_all)

theorem ws_handshake_witness:
  "\<exists>s s' s''. ws_call (\<lambda>x. take 20 x) (\<lambda>p. True) s 1 \<lparr>ans_accept = -1, ans_recv = Inr (ws_request (bs ''GET / HTTP/1.1'')
      [(bs ''Host'', bs '' a:80''), (bs ''Sec-WebSocket-Key'', bs '' k=='')])\<rparr> = Inr s' \<and>
    ws_call (\<lambda>x. take 20 x) (\<lambda>p. True) s' 1 \<lparr>ans_accept = -1, ans_recv = Inl EAGAIN\<rparr> = Inr s'' \<and>
    outbox s'' = [(7, response (base64_encode (take 20 (bs ''k=='' @ GUID))))]"
proof -
  define si where "si = \<lparr>sock_fd = 7, callback = Recv_cb, recv_buffer = [], send_buffer = [],
    status = WS_HANDSHARK, slength = 0, usable = True\<rparr>"
  define s :: ws_server where "s = \<lparr>interest = [7 \<mapsto> (cb_events Recv_cb, 1)], open_fds = {3, 7},
    heap = [1 \<mapsto> si], brk = 2, outbox = [], printed = []\<rparr>"
  define hs where "hs = [(bs ''Host'', bs '' a:80''), (bs ''Sec-WebSocket-Key'', bs '' k=='')]"
  have t: "trim (bs '' k=='') = bs ''k==''" by code_simp
  have "\<forall>h \<in> set hs. header_ok h" "set (bs ''GET / HTTP/1.1'') \<inter> {0, 13} = {}" "58 \<notin> set (bs '' k=='')"
    "map_of (rev hs) (bs ''Sec-WebSocket-Key'') = Some (bs '' k=='')"
    by (simp_all add: hs_def header_ok_def bs_def)
  moreover have "length (ws_request (bs ''GET / HTTP/1.1'') hs) < buffer_size"
    by (simp add: ws_request_def hs_def header_line_def bs_def CRLF_def buffer_size_def)
  moreover have "heap s 1 = Some si" "usable si" "callback si = Recv_cb" "status si = WS_HANDSHARK"
    "interest s (sock_fd si) = Some (cb_events Recv_cb, 1)" "sock_fd si = 7" "outbox s = []"
    by (simp_all add: s_def si_def)
  ultimately show ?thesis
    using ws_handshake [of s 1 si "bs ''GET / HTTP/1.1''" hs "bs '' k==''"
        "\<lparr>ans_accept = -1, ans_recv = Inr (ws_request (bs ''GET / HTTP/1.1'') hs)\<rparr>" _ "\<lambda>x. take 20 x" "\<lambda>p. True"
        "\<lparr>ans_accept = -1, ans_recv = Inl EAGAIN\<rparr>"]
    unfolding t hs_def by (auto simp: bs_def)
qed

text \<open>
  C4. The event loop, whatever the kernel reports, the peers send and fresh memory contains: in
  every state the server can reach from \<open>main\<close> the registrations and items fit together, and
  handling the next ready event either ends in such a state again, with the registrations of
  all other items as they were, or with an access outside a string or array or the use of a
  string that was never constructed. It never follows a pointer to a freed item and never runs
  forever.
\<close>

theorem ws_loop_safe:
  assumes "ws_main mem lfd bind_r listen_r epfd st = Inr s0"
    and "reaches (ws_call sha1 mem) s0 s (e # es)" and "answer_ok s a"
  shows "wf_server s \<and>
    (case ws_on_ready sha1 mem s e a of
       Inl f \<Rightarrow> f = Out_of_bounds \<or> f = Unconstructed
     | Inr s' \<Rightarrow> wf_server s' \<and>
         (\<forall>fd ev q. interest s fd = Some (ev, q) \<and> q \<noteq> snd e \<longrightarrow> interest s' fd = Some (ev, q)))"
  using ws.reaches_wf [OF assms(2) ws_main_wf [OF assms(1)]] ws.on_ready_ok [of s e a sha1 mem] assms(3)
  by (auto simp: ws_on_ready_def local_to_def split: sum.splits)

theorem ws_loop_safe_witness:
  "\<exists>s0 s'. ws_main (\<lambda>p. False) 3 0 0 4 WS_INIT = Inr s0 \<and> wf_server s0 \<and>
     ws_on_ready id (\<lambda>p. False) s0 (EPOLLIN, 0)
       (\<lparr>ans_accept = 5, ans_recv = Inl EAGAIN\<rparr>, \<lparr>ans_accept = -1, ans_recv = Inl EAGAIN\<rparr>) = Inr s' \<and>
     wf_server s' \<and> interest s' 5 = Some (EPOLLIN OR EPOLLET, 1)"
proof -
  let ?a = "(\<lparr>ans_accept = 5, ans_recv = Inl EAGAIN\<rparr>, \<lparr>ans_accept = -1, ans_recv = Inl EAGAIN\<rparr>)"
  obtain s0 where s0: "ws_main (\<lambda>p. False) 3 0 0 4 WS_INIT = Inr s0" by (simp add: ws_main_def Let_def)
  then have i: "interest s0 3 = Some (EPOLLIN, 0)" "open_fds s0 = {3, 4}"
    by (auto simp: ws_main_def Let_def server_ops)
  have "EPOLLIN AND NOT (EPOLLIN OR EPOLLERR OR EPOLLHUP) = 0" by (simp add: epoll_bits)
  then have "reported s0 (EPOLLIN, 0)" using i(1) unfolding reported_def by auto
  then have "reaches (ws_call id (\<lambda>p. False)) s0 s0 [(EPOLLIN, 0)]"
    by (intro reaches.wait [OF reaches.start]) auto
  moreover have "answer_ok s0 ?a" using i(2) by (simp add: answer_ok_def)
  moreover obtain s' where "ws_on_ready id (\<lambda>p. False) s0 (EPOLLIN, 0) ?a = Inr s'"
    "interest s' 5 = Some (EPOLLIN OR EPOLLET, 1)"
    using s0 by (auto simp: ws_main_def ws_on_ready_def on_ready_def ws_call_def accept_cb_def Let_def server_ops epoll_bits)
  ultimately show ?thesis using ws_loop_safe [OF s0, of id s0 "(EPOLLIN, 0)" "[]" ?a] s0 by auto
qed

text \<open>
  The strings are not constructed: unless fresh memory happens to serve as empty strings, the
  first call of \<open>recv_cb\<close> for a new connection is undefined, whatever \<open>recv\<close> returns.
\<close>

lemma unconstructed_strings:
  assumes "\<not> mem (brk s)" and "0 < ans_accept a"
  shows "ws_call sha1 mem (accept_cb mem s a) (brk s) b \<in> {Inl Unconstructed, Inl Out_of_bounds}"
  using assms by (auto simp: ws_call_def accept_cb_def recv_cb_def Let_def server_ops dest: cstr_fault split: sum.splits)

text \<open>
  C37. Data frames on an item with usable strings: a client's frame of at most 125 payload bytes
  that contains no NUL byte, nor its payload, is printed in the clear. A frame of at most 125
  payload bytes with a NUL byte before its last byte is cut there by \<open>string(buffer)\<close>, and
  decoding it runs past the end of the string.
\<close>

theorem ws_data_frame:
  assumes "heap s p = Some si" and "usable si" and "callback si = Recv_cb" and "status si = WS_DATATRANSFORM"
    and "length key = 4" and "length payload < 126" and "frame = client_frame b0 key payload"
    and "ans_recv a = Inr frame"
  shows "(0 \<notin> set (frame @ payload) \<longrightarrow> (\<exists>s'. ws_call sha1 mem s p a = Inr s' \<and>
      printed s' = printed s @ [(payload, int (length payload))] \<and> interest s' = interest s)) \<and>
    (0 \<in> set (butlast frame) \<longrightarrow> ws_call sha1 mem s p a = Inl Out_of_bounds)"
proof -
  have len: "length frame = 6 + length payload" using assms(5,7) by (simp add: client_frame_def)
  have call: "ws_call sha1 mem s p a = data_tranform (put_item p (si\<lparr>recv_buffer := str\<rparr>) s) p (si\<lparr>recv_buffer := str\<rparr>)"
    if "cstr (frame @ [0]) = Inr str" for str
    using recv_cb_message [OF assms(1,8) _ _ that assms(2), of sha1 "sock_fd si"] assms(1-4,6) len
    by (simp add: ws_call_def Let_def buffer_size_def) fastforce
  show ?thesis
  proof (intro conjI impI)
    assume "0 \<notin> set (frame @ payload)"
    then have "cstr (frame @ [0]) = Inr frame" "cstr (payload @ [0]) = Inr payload"
      by (auto intro: cstr_plain)
    then show "\<exists>s'. ws_call sha1 mem s p a = Inr s' \<and>
      printed s' = printed s @ [(payload, int (length payload))] \<and> interest s' = interest s"
      using call decode_client_frame [OF assms(5,6), of b0 "[0]"] assms(5,7)
      by (simp add: data_tranform_def server_ops)
  next
    assume "0 \<in> set (butlast frame)"
    define str where "str = takeWhile (\<lambda>b. b \<noteq> 0) frame"
    have "frame \<noteq> []" using len by auto
    then have f: "frame = butlast frame @ [last frame]" by simp
    have "str = takeWhile (\<lambda>b. b \<noteq> 0) (butlast frame)"
      unfolding str_def by (subst f) (rule takeWhile_append1 [OF \<open>0 \<in> set (butlast frame)\<close>], simp)
    then have "length str < length (butlast frame)"
      using takeWhile_shorter [OF \<open>0 \<in> set (butlast frame)\<close>, of "\<lambda>b. b \<noteq> 0"] by simp
    then have short: "length (str @ [0]) < length frame" by simp
    have "decode_packet (str @ [0]) = Inl Out_of_bounds"
    proof (cases "6 \<le> length (str @ [0])")
      case True
      have nth: "(str @ [0]) ! i = frame ! i" if "i < length str" for i
        using that by (simp add: nth_append str_def takeWhile_nth)
      have "0 < length str" "1 < length str" using True by auto
      then have "(str @ [0]) ! 0 = b0" "(str @ [0]) ! 1 = 128 OR of_nat (length payload)"
        using nth [of 0] nth [of 1] assms(7) by (simp_all add: client_frame_def)
      then have "uint (hd_payload_length (ophdr_of ((str @ [0]) ! 0) ((str @ [0]) ! 1))) = int (length payload)"
        using client_length [of "length payload" b0] assms(6) by simp
      then show ?thesis using decode_truncated [OF True] short len by auto
    qed (simp add: decode_headless)
    moreover have "cstr (frame @ [0]) = Inr str" by (simp add: cstr_NUL str_def)
    ultimately show "ws_call sha1 mem s p a = Inl Out_of_bounds"
      using call by (simp add: data_tranform_def)
  qed
qed

theorem ws_data_frame_witness:
  "\<exists>s s' :: ws_server. ws_call id (\<lambda>p. True) s 1 \<lparr>ans_accept = -1, ans_recv = Inr (client_frame 0x81 [1, 2, 3, 4] (bs ''Hi''))\<rparr> = Inr s' \<and>
     printed s' = [(bs ''Hi'', 2)]"
proof -
  define si where "si = \<lparr>sock_fd = 7, callback = Recv_cb, recv_buffer = [], send_buffer = [],
    status = WS_DATATRANSFORM, slength = 0, usable = True\<rparr>"
  define s :: ws_server where "s = \<lparr>interest = [7 \<mapsto> (cb_events Recv_cb, 1)], open_fds = {3, 7},
    heap = [1 \<mapsto> si], brk = 2, outbox = [], printed = []\<rparr>"
  let ?a = "\<lparr>ans_accept = -1, ans_recv = Inr (client_frame 0x81 [1, 2, 3, 4] (bs ''Hi''))\<rparr>"
  have "heap s 1 = Some si" "usable si" "callback si = Recv_cb" "status si = WS_DATATRANSFORM" "printed s = []"
    by (simp_all add: s_def si_def)
  moreover have "0 \<notin> set (client_frame 0x81 [1, 2, 3, 4] (bs ''Hi'') @ bs ''Hi'')" by code_simp
  ultimately show ?thesis
    using ws_data_frame [of s 1 si "[1, 2, 3, 4]" "bs ''Hi''" _ "0x81" ?a id "\<lambda>p. True"]
    by (auto simp: bs_def)
qed

end
