(* ===== verification/Ws_C.thy ===== *)
theory Ws_C
  imports Ws_Server
begin

text \<open>
  The C server \<open>src/websocket/epoll_websocket.c\<close>, which echoes text frames. It keeps fixed arrays
  of 1024 bytes in each item; an access outside an array is the fault \<open>Out_of_bounds\<close>. The frame
  functions are those of the C++ server (theory \<open>Ws_Frame\<close>; the two files have the same text).

  The parameters stand for code outside the repository: \<open>sha1\<close> is OpenSSL's digest function,
  \<open>bio\<close> what its Base64 filter writes for an input, and \<open>junk\<close> the contents of memory fresh from
  \<open>malloc\<close> at an address (receive and send buffer).
\<close>

section \<open>State\<close>

definition BUFFER_LENGTH :: nat where "BUFFER_LENGTH = 1024"

record c_item = item +
  recvbuffer :: "byte list"
  sendbuffer :: "byte list"
  rlength :: int
  c_slength :: int
  c_status :: WEBSOCKET_STATUS

type_synonym c_server = "c_item server"

section \<open>Handshake\<close>

text \<open>
  \<open>base64_encode\<close> copies the filter's output, a line with its line feed, and overwrites the last
  byte by the terminator.
\<close>

definition c_base64_encode :: "(byte list \<Rightarrow> byte list) \<Rightarrow> byte list \<Rightarrow> nat \<Rightarrow> fault + byte list" where
  "c_base64_encode bio in_str room =
     (let out = bio in_str
      in if out = [] \<or> room < length out then Inl Out_of_bounds else Inr (butlast out @ [0]))"

text \<open>The loop of \<open>readline\<close>; \<open>pos\<close> is where \<open>linebuf\<close> points. \<open>None\<close> is the result -1.\<close>

function readline_loop :: "byte list \<Rightarrow> nat \<Rightarrow> nat \<Rightarrow> byte list \<Rightarrow> nat \<Rightarrow> fault + (nat option \<times> byte list)" where
  "readline_loop allbuf len level linebuf pos =
     (if level < len
      then if allbuf ! level = 13 \<and> allbuf ! (level + 1) = 10 then Inr (Some (level + 2), linebuf)
           else if pos < length linebuf
           then readline_loop allbuf len (level + 1) (linebuf[pos := allbuf ! level]) (pos + 1)
           else Inl Out_of_bounds
      else Inr (None, linebuf))"
  by pat_completeness auto
termination by (relation "measure (\<lambda>(allbuf, len, level, linebuf, pos). len - level)") auto

declare readline_loop.simps [simp del]

definition readline :: "byte list \<Rightarrow> nat \<Rightarrow> byte list \<Rightarrow> fault + (nat option \<times> byte list)" where
  "readline allbuf level linebuf =
     (case cstr allbuf of
        Inl f \<Rightarrow> Inl f
      | Inr str \<Rightarrow> readline_loop allbuf (length str) level linebuf 0)"

lemma readline_loop_progress:
  "readline_loop allbuf len level linebuf pos = Inr (Some level', buf) \<Longrightarrow> level < level' \<and> level' \<le> len + 1"
  by (induction allbuf len level linebuf pos rule: readline_loop.induct)
    (subst (asm) readline_loop.simps, auto split: if_splits)

lemma readline_progress:
  "readline allbuf level linebuf = Inr (Some level', buf) \<Longrightarrow> level < level' \<and> level' \<le> length allbuf"
  using takeWhile_shorter [of 0 allbuf "\<lambda>b. b \<noteq> 0"]
  by (fastforce simp: readline_def cstr_def dest: readline_loop_progress split: if_splits)

text \<open>What happens once the key line is found: the accept value, or a fault.\<close>

definition accept_value ::
  "(byte list \<Rightarrow> byte list) \<Rightarrow> (byte list \<Rightarrow> byte list) \<Rightarrow> byte list \<Rightarrow> fault + byte list" where
  "accept_value sha1 bio line =
     (if 256 < length line + length GUID + 1 then Inl Out_of_bounds
      else case cstr (sha1 (drop 19 (line @ GUID)) @ [0]) of
             Inl f \<Rightarrow> Inl f
           | Inr digest \<Rightarrow>
               (case c_base64_encode bio digest 32 of Inl f \<Rightarrow> Inl f | Inr sec_accept \<Rightarrow> cstr sec_accept))"

text \<open>
  The loop of \<open>handshark\<close> over the lines of the request: the accept value of the first line that
  contains the key's name, or none when the empty line is reached first. A line without end
  makes the loop condition read \<open>recvbuffer[-1]\<close>.
\<close>

function handshark_loop ::
  "(byte list \<Rightarrow> byte list) \<Rightarrow> (byte list \<Rightarrow> byte list) \<Rightarrow> byte list \<Rightarrow> nat \<Rightarrow> fault + byte list option" where
  "handshark_loop sha1 bio recvbuf level =
     (case readline recvbuf level (replicate 256 0) of
        Inl f \<Rightarrow> Inl f
      | Inr (next, linebuf) \<Rightarrow>
          (case cstr linebuf of
             Inl f \<Rightarrow> Inl f
           | Inr line \<Rightarrow>
               if find_sub (bs ''Sec-WebSocket-Key'') line \<noteq> None
               then (case accept_value sha1 bio line of Inl f \<Rightarrow> Inl f | Inr acc \<Rightarrow> Inr (Some acc))
               else (case next of
                       None \<Rightarrow> Inl Out_of_bounds
                     | Some l \<Rightarrow>
                         if length recvbuf \<le> l + 1 then Inl Out_of_bounds
                         else if recvbuf ! l \<noteq> 13 \<or> recvbuf ! (l + 1) \<noteq> 10
                         then handshark_loop sha1 bio recvbuf l
                         else Inr None)))"
  by pat_completeness auto
termination
  by (relation "measure (\<lambda>(sha1, bio, recvbuf, level). length recvbuf - level)") (auto dest: readline_progress)

declare handshark_loop.simps [simp del]

definition handshark ::
  "(byte list \<Rightarrow> byte list) \<Rightarrow> (byte list \<Rightarrow> byte list) \<Rightarrow> c_server \<Rightarrow> addr \<Rightarrow> c_item \<Rightarrow> fault + c_server" where
  "handshark sha1 bio s p si =
     (case handshark_loop sha1 bio (recvbuffer si) 0 of
        Inl f \<Rightarrow> Inl f
      | Inr None \<Rightarrow> Inr s
      | Inr (Some acc) \<Rightarrow>
          let head = response acc
          in case write_at (sendbuffer si) 0 head of
               Inl f \<Rightarrow> Inl f
             | Inr sbuf \<Rightarrow>
                 let si = si\<lparr>recvbuffer := replicate BUFFER_LENGTH 0, sendbuffer := sbuf,
                             c_slength := int (length head), callback := Send_cb,
                             c_status := WS_DATATRANSFORM\<rparr>
                 in Inr (ctl_mod (sock_fd si) (EPOLLOUT OR EPOLLET) p (put_item p si s)))"

section \<open>Frames and callbacks\<close>

definition transform :: "c_server \<Rightarrow> addr \<Rightarrow> c_item \<Rightarrow> fault + c_server" where
  "transform s p si =
     (case decode_packet (recvbuffer si) of
        Inl f \<Rightarrow> Inl f
      | Inr (stream, key, start, ret) \<Rightarrow>
          (case (cstr (drop start stream), cstr (sendbuffer si)) of
             (Inr d, Inr x) \<Rightarrow>
               let s = print_msg d ret s
               in (case encode_packet (sendbuffer si) key (drop start stream) ret of
                     Inl f \<Rightarrow> Inl f
                   | Inr (sbuf, ret) \<Rightarrow>
                       (case cstr sbuf of
                          Inl f \<Rightarrow> Inl f
                        | Inr y \<Rightarrow>
                            let si = si\<lparr>recvbuffer := replicate BUFFER_LENGTH 0, sendbuffer := sbuf,
                                        c_slength := ret, callback := Send_cb,
                                        c_status := WS_DATATRANSFORM\<rparr>
                            in Inr (ctl_mod (sock_fd si) (EPOLLOUT OR EPOLLET) p (put_item p si s))))
           | (_, _) \<Rightarrow> Inl Out_of_bounds))"

definition c_send_cb :: "c_server \<Rightarrow> int \<Rightarrow> addr \<Rightarrow> fault + c_server" where
  "c_send_cb s fd p =
     (case heap s p of
        None \<Rightarrow> Inl Use_after_free
      | Some si \<Rightarrow>
          if c_slength si < 0 \<or> int (length (sendbuffer si)) < c_slength si then Inl Out_of_bounds
          else let s = send_fd fd (take (nat (c_slength si)) (sendbuffer si)) s;
                   si = si\<lparr>sock_fd := fd, callback := Recv_cb, sendbuffer := replicate BUFFER_LENGTH 0\<rparr>
               in Inr (ctl_mod fd (EPOLLIN OR EPOLLET) p (put_item p si s)))"

definition c_recv_cb ::
  "(byte list \<Rightarrow> byte list) \<Rightarrow> (byte list \<Rightarrow> byte list) \<Rightarrow> c_server \<Rightarrow> int \<Rightarrow> addr \<Rightarrow> answer \<Rightarrow>
     fault + c_server" where
  "c_recv_cb sha1 bio s fd p a =
     (case heap s p of
        None \<Rightarrow> Inl Use_after_free
      | Some si \<Rightarrow>
          (case recv_n BUFFER_LENGTH a of
             Inl e \<Rightarrow>
               if e = EAGAIN then Inr s
               else Inr (free_item p (close_fd fd (ctl_del fd s)))
           | Inr d \<Rightarrow>
               if d = [] then Inr (free_item p (close_fd fd (ctl_del fd s)))
               else let si = si\<lparr>recvbuffer := d @ drop (length d) (recvbuffer si), rlength := 0\<rparr>;
                        s = put_item p si s
                    in if c_status si = WS_HANDSHARK then handshark sha1 bio s p si
                       else if c_status si = WS_DATATRANSFORM then transform s p si
                       else Inr s))"

definition c_accept_cb :: "(addr \<Rightarrow> byte list \<times> byte list) \<Rightarrow> c_server \<Rightarrow> answer \<Rightarrow> c_server" where
  "c_accept_cb junk s a =
     (let clientfd = ans_accept a; s = open_fd clientfd s
      in if clientfd \<le> 0 then s
         else let si = \<lparr>sock_fd = clientfd, callback = Recv_cb, recvbuffer = fst (junk (brk s)),
                        sendbuffer = snd (junk (brk s)), rlength = 0, c_slength = 0, c_status = WS_HANDSHARK\<rparr>
              in ctl_add clientfd (EPOLLIN OR EPOLLET) (brk s) (malloc_item si s))"

definition c_call ::
  "(byte list \<Rightarrow> byte list) \<Rightarrow> (byte list \<Rightarrow> byte list) \<Rightarrow> (addr \<Rightarrow> byte list \<times> byte list) \<Rightarrow>
     c_server \<Rightarrow> addr \<Rightarrow> answer \<Rightarrow> fault + c_server" where
  "c_call sha1 bio junk s p a =
     (case heap s p of
        None \<Rightarrow> Inl Use_after_free
      | Some si \<Rightarrow>
          (case callback si of
             Accept_cb \<Rightarrow> Inr (c_accept_cb junk s a)
           | Recv_cb \<Rightarrow> c_recv_cb sha1 bio s (sock_fd si) p a
           | Send_cb \<Rightarrow> c_send_cb s (sock_fd si) p))"

text \<open>\<open>main\<close> up to the loop, with the results of \<open>socket\<close>, \<open>bind\<close>, \<open>listen\<close> and \<open>epoll_create\<close>.\<close>

definition c_main :: "nat \<Rightarrow> (addr \<Rightarrow> byte list \<times> byte list) \<Rightarrow> int \<Rightarrow> int \<Rightarrow> int \<Rightarrow> int \<Rightarrow> WEBSOCKET_STATUS \<Rightarrow>
    int + c_server" where
  "c_main argc junk sockfd bind_r listen_r epfd st =
     (if argc < 2 then Inl (-1)
      else if sockfd < 0 then Inl (-1)
      else if bind_r < 0 then Inl (-2)
      else if listen_r < 0 then Inl (-3)
      else let s = \<lparr>interest = Map.empty, open_fds = {sockfd, epfd}, heap = Map.empty, brk = 0,
                    outbox = [], printed = []\<rparr>;
               si = \<lparr>sock_fd = sockfd, callback = Accept_cb, recvbuffer = fst (junk 0),
                     sendbuffer = snd (junk 0), rlength = 0, c_slength = 0, c_status = st\<rparr>
           in Inr (ctl_add sockfd EPOLLIN (brk s) (malloc_item si s)))"

text \<open>One ready event in the loop of \<open>main\<close>.\<close>

definition c_on_ready ::
  "(byte list \<Rightarrow> byte list) \<Rightarrow> (byte list \<Rightarrow> byte list) \<Rightarrow> (addr \<Rightarrow> byte list \<times> byte list) \<Rightarrow>
     c_server \<Rightarrow> ready \<Rightarrow> answer \<times> answer \<Rightarrow> fault + c_server" where
  "c_on_ready sha1 bio junk = on_ready (c_call sha1 bio junk)"

section \<open>The server keeps its invariant\<close>

lemma readline_fault: "readline m l b = Inl f \<Longrightarrow> f = Out_of_bounds"
proof -
  have "readline_loop m n l b k = Inl f \<Longrightarrow> f = Out_of_bounds" for n k
    by (induction m n l b k rule: readline_loop.induct)
      (subst (asm) readline_loop.simps, auto split: if_splits)
  then show "readline m l b = Inl f \<Longrightarrow> f = Out_of_bounds"
    by (auto simp: readline_def dest: cstr_fault split: sum.splits)
qed

lemma accept_value_fault: "accept_value sha1 bio l = Inl f \<Longrightarrow> f = Out_of_bounds"
  by (auto simp: accept_value_def c_base64_encode_def Let_def dest: cstr_fault split: if_splits sum.splits)

lemma handshark_loop_fault: "handshark_loop sha1 bio m l = Inl f \<Longrightarrow> f = Out_of_bounds"
proof (induction "length m - l" arbitrary: l rule: less_induct)
  case less
  have IH: "handshark_loop sha1 bio m l' = Inl f \<longrightarrow> f = Out_of_bounds"
    if "readline m l (replicate 256 0) = Inr (Some l', b)" "\<not> length m \<le> Suc l'" for l' b
    using less.hyps [of l'] readline_progress [OF that(1)] that(2) by auto
  from less.prems show ?case
    using IH readline_fault [of m l "replicate 256 0" f]
    by (subst (asm) handshark_loop.simps)
      (auto dest: cstr_fault accept_value_fault split: sum.splits if_splits option.splits)
qed

lemma write_at_fault: "write_at m i xs = Inl f \<Longrightarrow> f = Out_of_bounds"
  by (simp add: write_at_def split: if_splits)

lemma encode_fault: "encode_packet m k st n = Inl f \<Longrightarrow> f = Out_of_bounds"
  by (auto simp: encode_packet_def Let_def dest: write_at_fault split: if_splits sum.splits)

lemma handshark_ok:
  assumes "wf_server s" and "heap s p = Some si" and "interest s (sock_fd si) = Some (ev, p)"
  shows "case handshark sha1 bio s p si of Inl f \<Rightarrow> f = Out_of_bounds | Inr s' \<Rightarrow> wf_server s' \<and> local_to p s s'"
proof -
  have r: "wf_server (ctl_mod (sock_fd si) (EPOLLOUT OR EPOLLET) p (put_item p si' s)) \<and>
      local_to p s (ctl_mod (sock_fd si) (EPOLLOUT OR EPOLLET) p (put_item p si' s))"
    if "sock_fd si' = sock_fd si" "callback si' = Send_cb" for si' :: c_item
    using rearm [OF assms(1,3,2) that(1)] that(2) by simp
  show ?thesis
    using assms(1) r
    by (auto simp: handshark_def Let_def dest: handshark_loop_fault write_at_fault split: sum.split option.split)
qed

lemma ctl_mod_print [simp]: "ctl_mod fd ev p (print_msg d n s) = print_msg d n (ctl_mod fd ev p s)"
  by (simp add: server_ops)

lemma transform_ok:
  assumes "wf_server s" and "heap s p = Some si" and "interest s (sock_fd si) = Some (ev, p)"
  shows "case transform s p si of Inl f \<Rightarrow> f = Out_of_bounds | Inr s' \<Rightarrow> wf_server s' \<and> local_to p s s'"
proof -
  have r: "wf_server (ctl_mod (sock_fd si) (EPOLLOUT OR EPOLLET) p (put_item p si' s)) \<and>
      local_to p s (ctl_mod (sock_fd si) (EPOLLOUT OR EPOLLET) p (put_item p si' s))"
    if "sock_fd si' = sock_fd si" "callback si' = Send_cb" for si' :: c_item
    using rearm [OF assms(1,3,2) that(1)] that(2) by simp
  show ?thesis
    using r by (auto simp: transform_def Let_def dest: decode_fault encode_fault cstr_fault split: sum.split)
qed

lemma c_recv_cb_ok:
  assumes "wf_server s" and "heap s p = Some si" and "interest s (sock_fd si) = Some (cb_events (callback si), p)"
  shows "case c_recv_cb sha1 bio s (sock_fd si) p a of
    Inl f \<Rightarrow> f = Out_of_bounds | Inr s' \<Rightarrow> wf_server s' \<and> local_to p s s'"
proof (cases "recv_n BUFFER_LENGTH a")
  case (Inl e)
  then show ?thesis using assms destroy [OF assms(1,3)] by (simp add: c_recv_cb_def)
next
  case (Inr d)
  define si' where "si' = si\<lparr>recvbuffer := d @ drop (length d) (recvbuffer si), rlength := 0\<rparr>"
  define s' where "s' = put_item p si' s"
  have s': "wf_server s'" "local_to p s s'"
    using update_item [OF assms(1,2), of si'] by (simp_all add: s'_def si'_def)
  have i: "heap s' p = Some si'" "interest s' (sock_fd si') = Some (cb_events (callback si'), p)"
    using assms(3) by (simp_all add: s'_def si'_def)
  have t: "local_to p s u" if "local_to p s' u" for u using local_to_trans [OF s'(2) that] .
  show ?thesis
    using Inr assms(2) destroy [OF assms(1,3)] handshark_ok [OF s'(1) i, of sha1 bio] transform_ok [OF s'(1) i] s' t
    by (simp add: c_recv_cb_def Let_def flip: si'_def s'_def split: sum.splits)
qed

lemma c_send_cb_ok:
  assumes "wf_server s" and "heap s p = Some si" and "interest s (sock_fd si) = Some (ev, p)"
  shows "case c_send_cb s (sock_fd si) p of Inl f \<Rightarrow> f = Out_of_bounds | Inr s' \<Rightarrow> wf_server s' \<and> local_to p s s'"
  using rearm [OF assms(1,3,2), of "si\<lparr>callback := Recv_cb, sendbuffer := replicate BUFFER_LENGTH 0\<rparr>"] assms(2)
  by (simp add: c_send_cb_def)

lemma c_accept_cb_ok:
  assumes "wf_server s" and "ans_accept a \<notin> open_fds s"
  shows "wf_server (c_accept_cb junk s a) \<and> local_to p s (c_accept_cb junk s a)"
proof -
  let ?si = "\<lparr>sock_fd = ans_accept a, callback = Recv_cb, recvbuffer = fst (junk (brk s)),
    sendbuffer = snd (junk (brk s)), rlength = 0, c_slength = 0, c_status = WS_HANDSHARK\<rparr>"
  show ?thesis
    using connect [OF assms, of ?si] assms(1) by (simp add: c_accept_cb_def Let_def)
qed

interpretation ws_c: callback_server "c_call sha1 bio junk" "{Out_of_bounds}" for sha1 bio junk
proof
  fix sha1 bio junk and s :: c_server and p si and a :: answer
  assume wf: "wf_server s" and si: "heap s p = Some si"
    "interest s (sock_fd si) = Some (cb_events (callback si), p)" and a: "ans_accept a \<notin> open_fds s"
  show "case c_call sha1 bio junk s p a of
      Inl f \<Rightarrow> f \<in> {Out_of_bounds} | Inr s' \<Rightarrow> wf_server s' \<and> local_to p s s'"
    using c_recv_cb_ok [OF wf si, of sha1 bio a] c_send_cb_ok [OF wf si] c_accept_cb_ok [OF wf a, of junk p] si(1)
    by (cases "callback si") (simp_all add: c_call_def split: sum.splits)
qed

lemma c_main_wf: "c_main argc junk fd b l epfd st = Inr s \<Longrightarrow> wf_server s"
  by (auto simp: c_main_def wf_server_def server_ops Let_def split: if_splits)

section \<open>Reading the request\<close>
















lemma transform_frame:
  assumes "length key = 4" and "length payload < 126" and "sendbuffer si = replicate BUFFER_LENGTH 0"
    and "recvbuffer si = client_frame b0 key payload @ replicate (BUFFER_LENGTH - length (client_frame b0 key payload)) 0"
  shows "\<exists>d sbuf. transform s p si = Inr (ctl_mod (sock_fd si) (EPOLLOUT OR EPOLLET) p (put_item p
      (si\<lparr>recvbuffer := replicate BUFFER_LENGTH 0, sendbuffer := sbuf, c_slength := int (length payload) + 2,
         callback := Send_cb, c_status := WS_DATATRANSFORM\<rparr>) (print_msg d (int (length payload)) s))) \<and>
    length sbuf = BUFFER_LENGTH \<and> take (length payload + 2) sbuf = [0x81, of_nat (length payload)] @ payload"
proof -
  let ?n = "BUFFER_LENGTH - length (client_frame b0 key payload)"
  let ?sbuf = "[0x81, of_nat (length payload)] @ payload @ replicate (BUFFER_LENGTH - (length payload + 2)) 0"
  have d: "decode_packet (recvbuffer si) =
      Inr ([b0, 128 OR of_nat (length payload)] @ key @ payload @ replicate ?n 0, key, 6, int (length payload))"
    using decode_client_frame [OF assms(1,2)] assms(4) by simp
  have e: "encode_packet (replicate BUFFER_LENGTH 0) key (payload @ replicate ?n 0) (int (length payload)) =
      Inr (?sbuf, int (length payload) + 2)"
    using encode_packet_short [OF assms(2), of "replicate BUFFER_LENGTH 0" key "replicate ?n 0"] assms(2)
    by (simp add: BUFFER_LENGTH_def)
  have "0 < ?n" using assms(1,2) by (simp add: client_frame_def BUFFER_LENGTH_def)
  then have "0 \<in> set (payload @ replicate ?n 0)" "0 \<in> set (replicate BUFFER_LENGTH (0 :: byte))" "0 \<in> set ?sbuf"
    using assms(2) by (simp_all add: BUFFER_LENGTH_def)
  then obtain x y z where "cstr (payload @ replicate ?n 0) = Inr x" "cstr (replicate BUFFER_LENGTH 0) = Inr y"
    "cstr ?sbuf = Inr z"
    by (auto simp: cstr_def)
  moreover have "drop 6 ([b0, 128 OR of_nat (length payload)] @ key @ payload @ replicate ?n 0) = payload @ replicate ?n 0"
    using assms(1) by simp
  moreover have "length ?sbuf = BUFFER_LENGTH" "take (length payload + 2) ?sbuf = [0x81, of_nat (length payload)] @ payload"
    using assms(2) by (simp_all add: BUFFER_LENGTH_def)
  ultimately show ?thesis
    using d e assms(3) unfolding transform_def
    by (intro exI [of _ x] exI [of _ ?sbuf]) (simp add: Let_def)
qed

lemma c_send_step:
  assumes "heap s p = Some si" and "callback si = Send_cb" and "0 \<le> c_slength si"
    and "c_slength si \<le> int (length (sendbuffer si))" and "interest s (sock_fd si) = Some (ev, p)"
  shows "\<exists>s'. c_call sha1 bio junk s p b = Inr s' \<and>
    outbox s' = outbox s @ [(sock_fd si, take (nat (c_slength si)) (sendbuffer si))] \<and>
    heap s' p = Some (si\<lparr>callback := Recv_cb, sendbuffer := replicate BUFFER_LENGTH 0\<rparr>) \<and>
    interest s' (sock_fd si) = Some (cb_events Recv_cb, p)"
  using assms by (simp add: c_call_def c_send_cb_def server_ops)






section \<open>Properties\<close>

text \<open>
  C12. The C server is an echo server: after the handshake, with both buffers zeroed, a frame
  with at most 125 bytes of payload makes the server send an unmasked text frame with exactly
  the same payload, NUL bytes included, after which the item is again in the state it started
  from.
\<close>

theorem c_echo:
  assumes "heap s p = Some si" and "callback si = Recv_cb" and "c_status si = WS_DATATRANSFORM"
    and "recvbuffer si = replicate BUFFER_LENGTH 0" and "sendbuffer si = replicate BUFFER_LENGTH 0"
    and "interest s (sock_fd si) = Some (ev, p)" and "length key = 4" and "length payload < 126"
    and "ans_recv a = Inr (client_frame b0 key payload)"
  shows "\<exists>s' s'' si''. c_call sha1 bio junk s p a = Inr s' \<and> interest s' (sock_fd si) = Some (cb_events Send_cb, p) \<and>
    c_call sha1 bio junk s' p b = Inr s'' \<and>
    outbox s'' = outbox s @ [(sock_fd si, [0x81, of_nat (length payload)] @ payload)] \<and>
    heap s'' p = Some si'' \<and> sock_fd si'' = sock_fd si \<and> callback si'' = Recv_cb \<and>
    c_status si'' = WS_DATATRANSFORM \<and> recvbuffer si'' = replicate BUFFER_LENGTH 0 \<and>
    sendbuffer si'' = replicate BUFFER_LENGTH 0 \<and>
    interest s'' (sock_fd si) = Some (cb_events Recv_cb, p)"
proof -
  let ?f = "client_frame b0 key payload"
  define si' where "si' = si\<lparr>recvbuffer := ?f @ replicate (BUFFER_LENGTH - length ?f) 0, rlength := 0\<rparr>"
  have "length ?f = 6 + length payload" using assms(7) by (simp add: client_frame_def)
  then have recv: "recv_n BUFFER_LENGTH a = Inr ?f" "?f \<noteq> []"
    using assms(8,9) by (auto simp: recv_n_def BUFFER_LENGTH_def)
  obtain d sbuf where t: "transform (put_item p si' s) p si' =
      Inr (ctl_mod (sock_fd si') (EPOLLOUT OR EPOLLET) p (put_item p
        (si'\<lparr>recvbuffer := replicate BUFFER_LENGTH 0, sendbuffer := sbuf, c_slength := int (length payload) + 2,
          callback := Send_cb, c_status := WS_DATATRANSFORM\<rparr>)
        (print_msg d (int (length payload)) (put_item p si' s))))"
    "length sbuf = BUFFER_LENGTH" "take (length payload + 2) sbuf = [0x81, of_nat (length payload)] @ payload"
    using transform_frame [OF assms(7,8), of si' b0 "put_item p si' s" p] assms(5) by (auto simp: si'_def)
  define s' where "s' = ctl_mod (sock_fd si) (EPOLLOUT OR EPOLLET) p (put_item p
        (si'\<lparr>recvbuffer := replicate BUFFER_LENGTH 0, sendbuffer := sbuf, c_slength := int (length payload) + 2,
          callback := Send_cb, c_status := WS_DATATRANSFORM\<rparr>) (print_msg d (int (length payload)) s))"
  have s': "interest s' (sock_fd si) = Some (cb_events Send_cb, p)" "outbox s' = outbox s"
    "heap s' p = Some (si\<lparr>sendbuffer := sbuf, rlength := 0, c_slength := int (length payload) + 2, callback := Send_cb\<rparr>)"
    using assms(3,4,6) by (simp_all add: s'_def si'_def server_ops)
  have "c_call sha1 bio junk s p a = Inr s'"
    using assms(1-4) recv t(1) by (simp add: c_call_def c_recv_cb_def si'_def s'_def Let_def)
  moreover have "take (nat (int (length payload) + 2)) sbuf = [0x81, of_nat (length payload)] @ payload"
    using t(3) by (simp add: nat_add_distrib)
  ultimately show ?thesis
    using c_send_step [OF s'(3), of "cb_events Send_cb" sha1 bio junk b] s'(1,2) t(2) assms(3,4,8)
    by (simp add: BUFFER_LENGTH_def) fastforce
qed

theorem c_echo_witness:
  "\<exists>s s' s'' :: c_server.
     c_call id id (\<lambda>p. ([], [])) s 1 \<lparr>ans_accept = -1, ans_recv = Inr (client_frame 0x81 [1, 2, 3, 4] [72, 0, 105])\<rparr> = Inr s' \<and>
     c_call id id (\<lambda>p. ([], [])) s' 1 \<lparr>ans_accept = -1, ans_recv = Inl EAGAIN\<rparr> = Inr s'' \<and>
     outbox s'' = [(7, [0x81, 3, 72, 0, 105])]"
proof -
  define si where "si = \<lparr>sock_fd = 7, callback = Recv_cb, recvbuffer = replicate BUFFER_LENGTH 0,
    sendbuffer = replicate BUFFER_LENGTH 0, rlength = 0, c_slength = 0, c_status = WS_DATATRANSFORM\<rparr>"
  define s :: c_server where "s = \<lparr>interest = [7 \<mapsto> (cb_events Recv_cb, 1)], open_fds = {3, 7},
    heap = [1 \<mapsto> si], brk = 2, outbox = [], printed = []\<rparr>"
  let ?a = "\<lparr>ans_accept = -1, ans_recv = Inr (client_frame 0x81 [1, 2, 3, 4] [72, 0, 105])\<rparr>"
  let ?b = "\<lparr>ans_accept = -1, ans_recv = Inl EAGAIN\<rparr>"
  have "heap s 1 = Some si" "callback si = Recv_cb" "c_status si = WS_DATATRANSFORM"
    "recvbuffer si = replicate BUFFER_LENGTH 0" "sendbuffer si = replicate BUFFER_LENGTH 0"
    "interest s (sock_fd si) = Some (cb_events Recv_cb, 1)" "outbox s = []" "sock_fd si = 7"
    by (simp_all add: s_def si_def)
  then show ?thesis
    using c_echo [of s 1 si "cb_events Recv_cb" "[1, 2, 3, 4]" "[72, 0, 105]" ?a "0x81" id id "\<lambda>p. ([], [])" ?b]
    by auto
qed



end
