(* ===== verification/Latency.thy ===== *)
theory Latency
  imports Prelude "HOL-Library.Multiset" "HOL-Library.Sublist"
begin

text \<open>
  The network simulator of the KCP test program, \<open>src/kcp_learn/test.h\<close>: the clock, the pool of
  evenly spread random numbers, and two lossy, delaying tunnels between the peers 0 and 1. The
  values of \<open>rand()\<close> and of the system clock are arguments.
\<close>

section \<open>Clock\<close>

definition iclock64 :: "int \<Rightarrow> int \<Rightarrow> int" where
  "iclock64 s u = s * 1000 + u sdiv 1000"

definition iclock :: "int \<Rightarrow> int \<Rightarrow> u32" where
  "iclock s u = word_of_int (iclock64 s u)"

section \<open>Random numbers\<close>

record random =
  r_size :: nat
  seeds :: "int list"

definition Random :: "nat \<Rightarrow> random" where
  "Random sz = \<lparr>r_size = 0, seeds = replicate sz 0\<rparr>"

text \<open>\<open>random()\<close> with the value \<open>v\<close> of \<open>rand()\<close>.\<close>

definition refill :: "random \<Rightarrow> random" where
  "refill r = (if r_size r = 0 then \<lparr>r_size = length (seeds r), seeds = map int [0..<length (seeds r)]\<rparr> else r)"

definition random :: "random \<Rightarrow> nat \<Rightarrow> int \<times> random" where
  "random r v =
     (if seeds r = [] then (0, r)
      else let r = refill r;
               i = v mod r_size r;
               x = seeds r ! i
           in (x, r\<lparr>seeds := (seeds r)[i := seeds r ! (r_size r - 1)], r_size := r_size r - 1\<rparr>))"

section \<open>The simulator\<close>

record delay_packet =
  pkt_data :: "byte list"
  pkt_ts :: u32

record latency_simulator =
  tx1 :: int
  tx2 :: int
  current :: u32
  lostrate :: int
  rttmin :: int
  rttmax :: int
  nmax :: int
  p12 :: "delay_packet list"
  p21 :: "delay_packet list"
  r12 :: random
  r21 :: random

definition LatencySimulator :: "int \<Rightarrow> int \<Rightarrow> int \<Rightarrow> int \<Rightarrow> u32 \<Rightarrow> latency_simulator" where
  "LatencySimulator lost rmin rmax nm now =
     \<lparr>tx1 = 0, tx2 = 0, current = now, lostrate = lost sdiv 2, rttmin = rmin sdiv 2, rttmax = rmax sdiv 2,
      nmax = nm, p12 = [], p21 = [], r12 = Random 100, r21 = Random 100\<rparr>"

definition clear :: "latency_simulator \<Rightarrow> latency_simulator" where
  "clear n = n\<lparr>p12 := [], p21 := []\<rparr>"

text \<open>
  The packet \<open>send\<close> builds: the delay is computed in unsigned arithmetic; \<open>v\<close> is the second value
  of \<open>rand()\<close>, used when the two bounds differ.
\<close>

definition delayed :: "latency_simulator \<Rightarrow> byte list \<Rightarrow> u32 \<Rightarrow> nat \<Rightarrow> delay_packet" where
  "delayed n d now v =
     (let delay = word_of_int (rttmin n) +
            (if rttmax n > rttmin n then word_of_int (int v mod (rttmax n - rttmin n)) else 0)
      in \<lparr>pkt_data = d, pkt_ts = now + delay\<rparr>)"

definition send :: "latency_simulator \<Rightarrow> nat \<Rightarrow> byte list \<Rightarrow> nat \<Rightarrow> u32 \<Rightarrow> nat \<Rightarrow> latency_simulator" where
  "send n peer d v1 now v2 =
     (if peer = 0
      then let n = n\<lparr>tx1 := tx1 n + 1\<rparr>; (x, r) = random (r12 n) v1; n = n\<lparr>r12 := r\<rparr>
           in if x < lostrate n then n
              else if int (length (p12 n)) \<ge> nmax n then n
              else n\<lparr>current := now, p12 := p12 n @ [delayed n d now v2]\<rparr>
      else let n = n\<lparr>tx2 := tx2 n + 1\<rparr>; (x, r) = random (r21 n) v1; n = n\<lparr>r21 := r\<rparr>
           in if x < lostrate n then n
              else if int (length (p21 n)) \<ge> nmax n then n
              else n\<lparr>current := now, p21 := p21 n @ [delayed n d now v2]\<rparr>)"

text \<open>\<open>recv\<close>: the result and the bytes stored at the pointer.\<close>

definition recv :: "latency_simulator \<Rightarrow> nat \<Rightarrow> int \<Rightarrow> u32 \<Rightarrow> int \<times> byte list \<times> latency_simulator" where
  "recv n peer maxsize now =
     (case (if peer = 0 then p21 n else p12 n) of
        [] \<Rightarrow> (-1, [], n)
      | pkt # rest \<Rightarrow>
          let n = n\<lparr>current := now\<rparr>
          in if now < pkt_ts pkt then (-2, [], n)
             else if maxsize < int (length (pkt_data pkt)) then (-3, [], n)
             else (int (length (pkt_data pkt)), pkt_data pkt,
                   if peer = 0 then n\<lparr>p21 := rest\<rparr> else n\<lparr>p12 := rest\<rparr>))"

section \<open>A round of random numbers\<close>

text \<open>Successive calls of \<open>random()\<close>.\<close>

fun draws :: "random \<Rightarrow> nat list \<Rightarrow> int list \<times> random" where
  "draws r [] = ([], r)"
| "draws r (v # vs) = (let (x, r) = random r v; (xs, r) = draws r vs in (x # xs, r))"

text \<open>The numbers still in the pool.\<close>

definition pool :: "random \<Rightarrow> int multiset" where
  "pool r = mset (take (r_size r) (seeds r))"

definition wf_random :: "nat \<Rightarrow> random \<Rightarrow> bool" where
  "wf_random n r \<longleftrightarrow> length (seeds r) = n \<and> r_size r \<le> n"

lemma wf_Random: "wf_random n (Random n)"
  by (simp add: wf_random_def Random_def)

lemma mset_swap_remove:
  assumes "i < k" and "k \<le> length xs"
  shows "add_mset (xs ! i) (mset (take (k - 1) (xs[i := xs ! (k - 1)]))) = mset (take k xs)"
proof -
  obtain m where m: "k = Suc m" using assms(1) by (cases k) auto
  have "mset (take k xs) = add_mset (xs ! m) (mset (take m xs))"
    using assms(2) m by (simp add: take_Suc_conv_app_nth)
  moreover have "add_mset (xs ! i) (mset ((take m xs)[i := xs ! m])) = add_mset (xs ! m) (mset (take m xs))"
  proof (cases "i = m")
    case True
    then show ?thesis by (simp add: list_update_beyond)
  next
    case False
    then have "i < length (take m xs)" using assms m by simp
    then have "mset ((take m xs)[i := xs ! m]) = add_mset (xs ! m) (mset (take m xs) - {#take m xs ! i#})"
      by (simp add: mset_update)
    moreover have "take m xs ! i \<in># mset (take m xs)"
      using nth_mem_mset [OF \<open>i < length (take m xs)\<close>] .
    ultimately show ?thesis using False assms m by simp
  qed
  ultimately show ?thesis using m by (simp add: take_update_swap)
qed

lemma random_pool:
  assumes "wf_random n r" and "0 < n" and "random r v = (x, r')"
  shows "wf_random n r' \<and> add_mset x (pool r') = pool (refill r) \<and> r_size r' = r_size (refill r) - 1 \<and>
    0 < r_size (refill r)"
proof -
  let ?r = "refill r"
  have s: "0 < r_size ?r" "r_size ?r \<le> n" "length (seeds ?r) = n"
    using assms(1,2) by (auto simp: wf_random_def refill_def)
  let ?i = "v mod r_size ?r"
  have "seeds r \<noteq> []" using assms(1,2) by (auto simp: wf_random_def)
  then have r': "x = seeds ?r ! ?i" "r' = ?r\<lparr>seeds := (seeds ?r)[?i := seeds ?r ! (r_size ?r - 1)], r_size := r_size ?r - 1\<rparr>"
    using assms(3) by (simp_all add: random_def Let_def)
  have "?i < r_size ?r" using s(1) by simp
  from mset_swap_remove [OF this, of "seeds ?r"] s show ?thesis
    by (auto simp: r' pool_def wf_random_def)
qed

lemma refill_id: "0 < r_size r \<Longrightarrow> refill r = r"
  by (simp add: refill_def)

lemma draws_pool:
  assumes "wf_random n r" and "length vs \<le> r_size r" and "draws r vs = (xs, r')"
  shows "wf_random n r' \<and> mset xs + pool r' = pool r \<and> r_size r' = r_size r - length vs"
  using assms
proof (induction vs arbitrary: r xs)
  case (Cons v vs)
  obtain x r1 where r1: "random r v = (x, r1)" by force
  obtain ys where ys: "draws r1 vs = (ys, r')" "xs = x # ys"
    using Cons.prems(3) r1 by (auto simp: split: prod.splits)
  have "0 < r_size r" "0 < n" using Cons.prems by (auto simp: wf_random_def)
  then have "wf_random n r1" "add_mset x (pool r1) = pool r" "r_size r1 = r_size r - 1"
    using random_pool [OF Cons.prems(1) _ r1] by (simp_all add: refill_id)
  then show ?case
    using Cons.IH [of r1 ys] Cons.prems(2) ys by simp
qed simp

text \<open>A round that starts with an empty pool draws every number of the range once.\<close>

lemma random_refill: "random (refill r) v = random r v"
  by (auto simp: random_def refill_def)

lemma draws_round:
  assumes "wf_random n r" and "r_size r = 0" and "length vs = n" and "draws r vs = (xs, r')"
  shows "mset xs = mset (map int [0..<n]) \<and> wf_random n r' \<and> r_size r' = 0"
proof (cases vs)
  case Nil
  then show ?thesis using assms by simp
next
  case (Cons v vs')
  let ?r = "refill r"
  have r: "wf_random n ?r" "r_size ?r = n" "pool ?r = mset (map int [0..<n])"
    using assms(1,2) by (auto simp: wf_random_def refill_def pool_def)
  have "draws ?r vs = (xs, r')" using assms(4) Cons by (simp add: random_refill)
  from draws_pool [OF r(1) _ this] r(2,3) assms(3)
  have "wf_random n r'" "mset xs + pool r' = mset (map int [0..<n])" "r_size r' = 0" by simp_all
  then show ?thesis by (simp add: pool_def)
qed

section \<open>Traffic from peer 0\<close>

text \<open>A burst of datagrams, each with its bytes, the two values of \<open>rand()\<close> and the time.\<close>

fun burst :: "latency_simulator \<Rightarrow> (byte list \<times> nat \<times> u32 \<times> nat) list \<Rightarrow> latency_simulator" where
  "burst n [] = n"
| "burst n ((d, v1, now, v2) # ms) = burst (send n 0 d v1 now v2) ms"

lemma burst_draws:
  assumes "int (length (p12 n) + length ms) \<le> nmax n"
    and "draws (r12 n) (map (\<lambda>m. fst (snd m)) ms) = (xs, r')"
  shows "length (p12 (burst n ms)) = length (p12 n) + length (filter (\<lambda>x. \<not> x < lostrate n) xs) \<and>
    r12 (burst n ms) = r' \<and> lostrate (burst n ms) = lostrate n \<and> nmax (burst n ms) = nmax n \<and>
    tx1 (burst n ms) = tx1 n + int (length ms)"
  using assms
proof (induction n ms arbitrary: xs rule: burst.induct)
  case (2 n d v1 now v2 ms)
  obtain x r where x: "random (r12 n) v1 = (x, r)" by force
  obtain ys where ys: "draws r (map (\<lambda>m. fst (snd m)) ms) = (ys, r')" "xs = x # ys"
    using 2(3) x by (auto split: prod.splits)
  show ?case
    using 2(1) [of ys] 2(2) x ys by (simp add: send_def Let_def)
qed simp

lemma count_below: "length (filter (\<lambda>x. \<not> x < l) (map int [0..<n])) = nat (int n - max 0 (min (int n) l))"
proof (induction n)
  case (Suc n)
  then show ?case by auto
qed simp

section \<open>Runs\<close>

datatype op =
    Send nat "byte list" nat u32 nat     \<comment> \<open>peer, datagram, \<open>rand()\<close>, time, \<open>rand()\<close>\<close>
  | Recv nat int u32                     \<comment> \<open>peer, room, time\<close>

text \<open>A run of operations: what each successful \<open>recv\<close> delivered to which peer, and the simulator.\<close>

fun run :: "latency_simulator \<Rightarrow> op list \<Rightarrow> (nat \<times> byte list) list \<times> latency_simulator" where
  "run n [] = ([], n)"
| "run n (Send peer d v1 now v2 # ops) = run (send n peer d v1 now v2) ops"
| "run n (Recv peer room now # ops) =
     (let (r, d, n) = recv n peer room now; (out, n) = run n ops
      in (if r < 0 then out else (peer, d) # out, n))"

definition delivered_to :: "bool \<Rightarrow> (nat \<times> byte list) list \<Rightarrow> byte list list" where
  "delivered_to zero out = map snd (filter (\<lambda>(p, d). (p = 0) = zero) out)"

fun sent_by :: "bool \<Rightarrow> op list \<Rightarrow> byte list list" where
  "sent_by zero [] = []"
| "sent_by zero (Send peer d v1 now v2 # ops) =
     (if (peer = 0) = zero then d # sent_by zero ops else sent_by zero ops)"
| "sent_by zero (Recv peer room now # ops) = sent_by zero ops"

definition tunnel :: "bool \<Rightarrow> latency_simulator \<Rightarrow> byte list list" where
  "tunnel from_zero n = map pkt_data (if from_zero then p12 n else p21 n)"

lemma tunnel_send:
  "tunnel z (send n peer d v1 now v2) = tunnel z n \<or>
   (peer = 0) = z \<and> tunnel z (send n peer d v1 now v2) = tunnel z n @ [d] \<and> int (length (tunnel z n)) < nmax n"
  by (auto simp: tunnel_def send_def delayed_def Let_def split: prod.splits)

lemma nmax_send [simp]: "nmax (send n peer d v1 now v2) = nmax n"
  by (simp add: send_def Let_def split: prod.splits)

lemma tunnel_recv:
  assumes "recv n peer room now = (r, d, n')"
  shows "(r < 0 \<longrightarrow> tunnel z n' = tunnel z n) \<and>
    (\<not> r < 0 \<longrightarrow> (if (peer = 0) = z then tunnel z n' = tunnel z n else tunnel z n = d # tunnel z n')) \<and> nmax n' = nmax n"
  using assms
  by (cases "peer = 0"; cases z) (auto simp: recv_def tunnel_def Let_def split: list.splits if_splits)

lemma run_fifo:
  assumes "run n ops = (out, n')"
  shows "\<exists>acc. delivered_to (\<not> z) out @ tunnel z n' = tunnel z n @ acc \<and> subseq acc (sent_by z ops) \<and>
    (int (length (tunnel z n)) \<le> nmax n \<longrightarrow> int (length (tunnel z n')) \<le> nmax n)"
  using assms
proof (induction n ops arbitrary: out rule: run.induct)
  case (1 n)
  then show ?case by (simp add: delivered_to_def)
next
  case (2 n peer d v1 now v2 ops)
  let ?n = "send n peer d v1 now v2"
  obtain acc where acc: "delivered_to (\<not> z) out @ tunnel z n' = tunnel z ?n @ acc" "subseq acc (sent_by z ops)"
    "int (length (tunnel z ?n)) \<le> nmax n \<longrightarrow> int (length (tunnel z n')) \<le> nmax n"
    using 2 by auto
  from tunnel_send [of z n peer d v1 now v2] show ?case
  proof
    assume "tunnel z ?n = tunnel z n"
    then show ?thesis using acc by (auto intro!: exI [of _ acc])
  next
    assume "(peer = 0) = z \<and> tunnel z ?n = tunnel z n @ [d] \<and> int (length (tunnel z n)) < nmax n"
    then show ?thesis using acc by (auto intro!: exI [of _ "d # acc"])
  qed
next
  case (3 n peer room now ops)
  obtain r d n1 where r: "recv n peer room now = (r, d, n1)" by (metis prod_cases3)
  obtain out1 where out1: "run n1 ops = (out1, n')" "out = (if r < 0 then out1 else (peer, d) # out1)"
    using 3(2) r by (auto split: prod.splits)
  obtain acc where acc: "delivered_to (\<not> z) out1 @ tunnel z n' = tunnel z n1 @ acc" "subseq acc (sent_by z ops)"
    "int (length (tunnel z n1)) \<le> nmax n1 \<longrightarrow> int (length (tunnel z n')) \<le> nmax n1"
    using 3(1) [OF r [symmetric] refl refl] out1(1) by (auto simp: r)
  show ?case
    using tunnel_recv [OF r, of z] acc out1(2)
    by (intro exI [of _ acc]) (auto simp: delivered_to_def split: if_splits)
qed

section \<open>Properties\<close>

text \<open>
  The configured loss is exact: of every round of 100 datagrams that peer 0 sends, whatever
  \<open>rand()\<close> returns, exactly \<open>lostrate\<close> (kept between 0 and 100) are lost as long as the tunnel has
  room, and the next round starts from an empty pool again.
\<close>

theorem loss_exact:
  assumes "wf_random 100 (r12 n)" and "r_size (r12 n) = 0" and "length ms = 100"
    and "int (length (p12 n)) + 100 \<le> nmax n"
  shows "int (length (p12 (burst n ms))) = int (length (p12 n)) + 100 - max 0 (min 100 (lostrate n)) \<and>
    wf_random 100 (r12 (burst n ms)) \<and> r_size (r12 (burst n ms)) = 0"
proof -
  obtain xs r' where x: "draws (r12 n) (map (\<lambda>m. fst (snd m)) ms) = (xs, r')" by force
  have d: "mset xs = mset (map int [0..<100])" "wf_random 100 r'" "r_size r' = 0"
    using draws_round [OF assms(1,2) _ x] assms(3) by simp_all
  have "length (filter (\<lambda>x. \<not> x < lostrate n) xs) = length (filter (\<lambda>x. \<not> x < lostrate n) (map int [0..<100]))"
    using arg_cong [OF d(1), of "\<lambda>m. size (filter_mset (\<lambda>x. \<not> x < lostrate n) m)"]
    by (metis mset_filter size_mset)
  also have "\<dots> = nat (100 - max 0 (min 100 (lostrate n)))" using count_below [of "lostrate n" 100] by simp
  finally show ?thesis
    using burst_draws [OF _ x] assms(3,4) d(2,3) by simp
qed

theorem loss_exact_witness:
  "int (length (p12 (burst (LatencySimulator 10 60 125 1000 0) (replicate 100 ([], 7, 0, 3))))) = 95"
proof -
  let ?n = "LatencySimulator 10 60 125 1000 0"
  have "wf_random 100 (r12 ?n)" "r_size (r12 ?n) = 0" "p12 ?n = []" "nmax ?n = 1000" "lostrate ?n = 5"
    by (simp_all add: LatencySimulator_def wf_Random) (simp add: Random_def)
  then show ?thesis using loss_exact [of ?n "replicate 100 ([], 7, 0, 3)"] by simp
qed

text \<open>
  C32. Each tunnel is a lossy queue: over any interleaving of sends and receives by both peers,
  what one peer has received, followed by what is still in the tunnel, is what was in the
  tunnel followed by a subsequence of what the other peer sent. Datagrams are not changed,
  duplicated or reordered, and a tunnel never holds more than \<open>nmax\<close> of them.
\<close>

theorem tunnel_fifo:
  assumes "run n ops = (out, n')"
  shows "\<exists>acc. delivered_to (\<not> z) out @ tunnel z n' = tunnel z n @ acc \<and> subseq acc (sent_by z ops) \<and>
    (int (length (tunnel z n)) \<le> nmax n \<longrightarrow> int (length (tunnel z n')) \<le> nmax n)"
  using assms by (rule run_fifo)

theorem tunnel_fifo_witness:
  "\<exists>out n' acc. run (LatencySimulator 0 60 60 10 0) [Send 0 [1] 5 0 0, Send 0 [2] 5 0 0, Recv 1 10 40] = (out, n') \<and>
     delivered_to False out = [[1]] \<and> delivered_to False out @ tunnel True n' = acc \<and> subseq acc [[1], [2]]"
proof -
  define ops where "ops = [Send 0 [1] 5 0 0, Send 0 [2] 5 0 0, Recv 1 10 40]"
  obtain out n' where r: "run (LatencySimulator 0 60 60 10 0) ops = (out, n')" by force
  have "fst (run (LatencySimulator 0 60 60 10 0) ops) = [(1, [1])]" unfolding ops_def by code_simp
  then have "delivered_to False out = [[1]]" using r by (simp add: delivered_to_def)
  moreover have "tunnel True (LatencySimulator 0 60 60 10 0) = []" "sent_by True ops = [[1], [2]]"
    by (simp_all add: tunnel_def LatencySimulator_def ops_def)
  ultimately show ?thesis using tunnel_fifo [OF r, of True] r by (auto simp: ops_def)
qed

end
