(* ===== verification/Work_Queue.thy ===== *)
theory Work_Queue
  imports Prelude "HOL-Library.Multiset"
begin

text \<open>
  The thread pool of \<open>src/mul_port_client_epoll/server_mulport_epoll.c\<close>: the list macros \<open>LL_ADD\<close> and
  \<open>LL_REMOVE\<close> on nodes in memory, the work queue, and its workers as threads that interleave at
  their calls of the mutex and the condition variable.

  A job is named by the address of its node. \<open>pthread_cond_wait\<close> may return at any time, as POSIX
  allows, so a signal needs no counterpart in the state.
\<close>

section \<open>Linked lists\<close>

type_synonym node = nat

record links =
  prev :: "node \<Rightarrow> node option"
  nxt :: "node \<Rightarrow> node option"

definition LL_ADD :: "node \<Rightarrow> links \<times> node option \<Rightarrow> links \<times> node option" where
  "LL_ADD item ml =
     (let (m, list) = ml;
          m = m\<lparr>prev := (prev m)(item := None)\<rparr>;
          m = m\<lparr>nxt := (nxt m)(item := list)\<rparr>
      in (m, Some item))"

definition LL_REMOVE :: "node \<Rightarrow> links \<times> node option \<Rightarrow> links \<times> node option" where
  "LL_REMOVE item ml =
     (let (m, list) = ml;
          m = (case prev m item of Some p \<Rightarrow> m\<lparr>nxt := (nxt m)(p := nxt m item)\<rparr> | None \<Rightarrow> m);
          m = (case nxt m item of Some n \<Rightarrow> m\<lparr>prev := (prev m)(n := prev m item)\<rparr> | None \<Rightarrow> m);
          list = (if list = Some item then nxt m item else list)
      in (m\<lparr>prev := (prev m)(item := None), nxt := (nxt m)(item := None)\<rparr>, list))"

text \<open>The nodes from a pointer on, and what \<open>LL_ADD\<close> leaves in the \<open>prev\<close> fields: nothing.\<close>

fun chain :: "links \<Rightarrow> node option \<Rightarrow> node list \<Rightarrow> bool" where
  "chain m l [] = (l = None)"
| "chain m l (x # xs) = (l = Some x \<and> chain m (nxt m x) xs)"

definition is_stack :: "links \<times> node option \<Rightarrow> node list \<Rightarrow> bool" where
  "is_stack ml xs \<longleftrightarrow> chain (fst ml) (snd ml) xs \<and> distinct xs \<and> (\<forall>x \<in> set xs. prev (fst ml) x = None)"

lemma chain_cong: "(\<And>x. x \<in> set xs \<Longrightarrow> nxt m' x = nxt m x) \<Longrightarrow> chain m' l xs = chain m l xs"
  by (induction xs arbitrary: l) auto

lemma is_stack_ADD:
  assumes "is_stack ml xs" and "item \<notin> set xs"
  shows "is_stack (LL_ADD item ml) (item # xs)"
proof -
  obtain m list where ml: "ml = (m, list)" by (cases ml)
  let ?m = "m\<lparr>prev := (prev m)(item := None), nxt := (nxt m)(item := list)\<rparr>"
  have "chain ?m list xs = chain m list xs" by (rule chain_cong) (use assms(2) in auto)
  then show ?thesis using assms by (simp add: ml is_stack_def LL_ADD_def)
qed

lemma is_stack_REMOVE:
  assumes "is_stack ml (x # xs)"
  shows "is_stack (LL_REMOVE x ml) xs" and "snd ml = Some x"
proof -
  obtain m list where ml: "ml = (m, list)" by (cases ml)
  have x: "list = Some x" "chain m (nxt m x) xs" "x \<notin> set xs" "distinct xs" "\<forall>y \<in> set (x # xs). prev m y = None"
    using assms by (auto simp: ml is_stack_def)
  show "snd ml = Some x" by (simp add: ml x)
  define m1 where "m1 = (case nxt m x of Some n \<Rightarrow> m\<lparr>prev := (prev m)(n := None)\<rparr> | None \<Rightarrow> m)"
  have m1: "nxt m1 = nxt m" "\<forall>y \<in> set (x # xs). prev m1 y = None"
    using x(5) by (auto simp: m1_def split: option.splits)
  have "LL_REMOVE x ml = (m1\<lparr>prev := (prev m1)(x := None), nxt := (nxt m1)(x := None)\<rparr>, nxt m x)"
    using x(1,5) by (simp add: ml LL_REMOVE_def m1_def split: option.split)
  moreover have "chain (m1\<lparr>prev := (prev m1)(x := None), nxt := (nxt m1)(x := None)\<rparr>) (nxt m x) xs = chain m (nxt m x) xs"
    by (rule chain_cong) (use x(3) m1 in auto)
  ultimately show "is_stack (LL_REMOVE x ml) xs"
    using x m1(2) by (simp add: is_stack_def)
qed

text \<open>Away from the head, \<open>LL_REMOVE\<close> loses the nodes behind the removed one but not the node itself.\<close>

lemma LL_REMOVE_inner:
  assumes "is_stack ml (x # y # xs)"
  shows "is_stack (LL_REMOVE y ml) [x, y]"
proof -
  obtain m list where ml: "ml = (m, list)" by (cases ml)
  have x: "list = Some x" "nxt m x = Some y" "x \<noteq> y" "prev m x = None" "prev m y = None" "x \<notin> set xs"
    "chain m (nxt m y) xs"
    using assms by (auto simp: ml is_stack_def)
  have "nxt m y \<noteq> Some x" using x(6,7) by (cases xs) auto
  then show ?thesis
    using x by (auto simp: ml is_stack_def LL_REMOVE_def Let_def split: option.split)
qed

section \<open>Queue and workers\<close>

text \<open>Where a worker stands in \<open>worker_function\<close>.\<close>

datatype pc =
    Lock                       \<comment> \<open>before \<open>pthread_mutex_lock\<close>\<close>
  | Test                       \<comment> \<open>at the condition of the inner loop, with the mutex\<close>
  | Sleep                      \<comment> \<open>in \<open>pthread_cond_wait\<close>\<close>
  | Check                      \<comment> \<open>behind the inner loop, with the mutex\<close>
  | Unlock "node option"       \<comment> \<open>before \<open>pthread_mutex_unlock\<close>, with the job taken\<close>
  | Job node                   \<comment> \<open>at the call of the job function\<close>
  | Exit                       \<comment> \<open>behind the outer loop\<close>

record workqueue =
  jobs :: "links \<times> node option"
  workers :: "nat list"
  mutex :: "nat option"
  pcs :: "nat \<Rightarrow> pc"
  terminate :: "nat \<Rightarrow> bool"
  executed :: "node list"

text \<open>One step of worker \<open>w\<close>; \<open>None\<close> when it is blocked or has ended.\<close>

definition worker_step :: "nat \<Rightarrow> workqueue \<Rightarrow> workqueue option" where
  "worker_step w q =
     (case pcs q w of
        Lock \<Rightarrow> if mutex q = None then Some (q\<lparr>mutex := Some w, pcs := (pcs q)(w := Test)\<rparr>) else None
      | Test \<Rightarrow>
          if snd (jobs q) = None \<and> \<not> terminate q w
          then Some (q\<lparr>mutex := None, pcs := (pcs q)(w := Sleep)\<rparr>)
          else Some (q\<lparr>pcs := (pcs q)(w := Check)\<rparr>)
      | Sleep \<Rightarrow> if mutex q = None then Some (q\<lparr>mutex := Some w, pcs := (pcs q)(w := Test)\<rparr>) else None
      | Check \<Rightarrow>
          if terminate q w then Some (q\<lparr>pcs := (pcs q)(w := Exit)\<rparr>)
          else (case snd (jobs q) of
                  None \<Rightarrow> Some (q\<lparr>pcs := (pcs q)(w := Unlock None)\<rparr>)
                | Some job \<Rightarrow>
                    Some (q\<lparr>jobs := LL_REMOVE job (jobs q), pcs := (pcs q)(w := Unlock (Some job))\<rparr>))
      | Unlock job \<Rightarrow>
          Some (q\<lparr>mutex := None,
                 pcs := (pcs q)(w := (case job of None \<Rightarrow> Lock | Some j \<Rightarrow> Job j))\<rparr>)
      | Job j \<Rightarrow> Some (q\<lparr>executed := executed q @ [j], pcs := (pcs q)(w := Lock)\<rparr>)
      | Exit \<Rightarrow> None)"

text \<open>
  \<open>workqueue_init\<close>: the result of each \<open>malloc\<close> and \<open>pthread_create\<close> is given; the workers that
  were started stay when a later one fails.
\<close>

fun init_loop :: "nat \<Rightarrow> bool list \<Rightarrow> nat list \<Rightarrow> int \<times> nat list" where
  "init_loop 0 started ws = (0, ws)"
| "init_loop (Suc n) [] ws = (1, ws)"
| "init_loop (Suc n) (ok # started) ws = (if ok then init_loop n started (length ws # ws) else (1, ws))"

definition workqueue_init :: "int \<Rightarrow> bool list \<Rightarrow> int \<times> workqueue" where
  "workqueue_init numWorkers started =
     (let n = (if numWorkers < 1 then 1 else numWorkers);
          (r, ws) = init_loop (nat n) started []
      in (r, \<lparr>jobs = (\<lparr>prev = Map.empty, nxt = Map.empty\<rparr>, None), workers = ws, mutex = None,
              pcs = (\<lambda>w. Lock), terminate = (\<lambda>w. False), executed = []\<rparr>))"

text \<open>\<open>workqueue_add_job\<close>, one critical section; \<open>None\<close> while the mutex is taken.\<close>

definition workqueue_add_job :: "node \<Rightarrow> workqueue \<Rightarrow> workqueue option" where
  "workqueue_add_job job q = (if mutex q = None then Some (q\<lparr>jobs := LL_ADD job (jobs q)\<rparr>) else None)"

text \<open>
  The two parts of \<open>workqueue_shutdown\<close>: one round of the loop that sets the flags, without the mutex,
  and the critical section. The loop follows the list of workers while they run; that a worker which has
  ended frees its node of this list is not modelled.
\<close>

definition shutdown_flag :: "nat \<Rightarrow> workqueue \<Rightarrow> workqueue" where
  "shutdown_flag w q = q\<lparr>terminate := (terminate q)(w := True)\<rparr>"

definition shutdown_clear :: "workqueue \<Rightarrow> workqueue option" where
  "shutdown_clear q =
     (if mutex q = None then Some (q\<lparr>workers := [], jobs := (fst (jobs q), None)\<rparr>) else None)"

text \<open>
  The states a pool can reach, with the jobs added so far and whether it was cleared. The nodes
  of the jobs are all different.
\<close>

inductive pool :: "nat set \<Rightarrow> workqueue \<Rightarrow> node list \<Rightarrow> bool \<Rightarrow> bool" for W :: "nat set" where
  init: "workqueue_init n started = (r, q) \<Longrightarrow> W = set (workers q) \<Longrightarrow> pool W q [] False"
| work: "pool W q added stopped \<Longrightarrow> w \<in> W \<Longrightarrow> worker_step w q = Some q' \<Longrightarrow> pool W q' added stopped"
| add: "pool W q added stopped \<Longrightarrow> j \<notin> set added \<Longrightarrow> workqueue_add_job j q = Some q' \<Longrightarrow> pool W q' (j # added) stopped"
| flag: "pool W q added stopped \<Longrightarrow> w \<in> set (workers q) \<Longrightarrow> pool W (shutdown_flag w q) added stopped"
| clear: "pool W q added stopped \<Longrightarrow> shutdown_clear q = Some q' \<Longrightarrow> pool W q' added True"

section \<open>Invariant\<close>

fun holds_mutex :: "pc \<Rightarrow> bool" where
  "holds_mutex Test = True"
| "holds_mutex Check = True"
| "holds_mutex (Unlock j) = True"
| "holds_mutex Exit = True"
| "holds_mutex pc = False"

fun in_hand :: "pc \<Rightarrow> node multiset" where
  "in_hand (Unlock (Some j)) = {#j#}"
| "in_hand (Job j) = {#j#}"
| "in_hand pc = {#}"

text \<open>
  The mutex belongs to the one worker whose position says so; waiting, taken, executed and lost
  jobs are together the jobs that were added.
\<close>

definition pool_inv :: "nat set \<Rightarrow> workqueue \<Rightarrow> node list \<Rightarrow> bool \<Rightarrow> bool" where
  "pool_inv W q added stopped \<longleftrightarrow> finite W \<and> distinct added \<and>
     (\<forall>w. holds_mutex (pcs q w) \<longleftrightarrow> mutex q = Some w) \<and>
     (\<exists>xs lost. is_stack (jobs q) xs \<and>
        mset xs + (\<Sum>w\<in>W. in_hand (pcs q w)) + mset (executed q) + lost = mset added \<and>
        (stopped \<or> lost = {#}))"

lemma sum_in_hand:
  "finite W \<Longrightarrow> w \<in> W \<Longrightarrow>
     (\<Sum>v\<in>W. in_hand (((pcs q)(w := c)) v)) + in_hand (pcs q w) = (\<Sum>v\<in>W. in_hand (pcs q v)) + in_hand c"
  by (simp add: sum.remove [of W w] ac_simps)

lemma pool_invI:
  assumes "finite W" and "distinct added" and "\<And>w. holds_mutex (pcs q w) \<longleftrightarrow> mutex q = Some w"
    and "is_stack (jobs q) xs"
    and "mset xs + (\<Sum>w\<in>W. in_hand (pcs q w)) + mset (executed q) + lost = mset added"
    and "stopped \<or> lost = {#}"
  shows "pool_inv W q added stopped"
  using assms unfolding pool_inv_def by blast

lemma worker_step_inv:
  assumes "pool_inv W q added stopped" and "w \<in> W" and "worker_step w q = Some q'"
  shows "pool_inv W q' added stopped"
proof -
  from assms(1) obtain xs lost where inv: "finite W" "distinct added" "\<And>w. holds_mutex (pcs q w) \<longleftrightarrow> mutex q = Some w"
    "is_stack (jobs q) xs"
    "mset xs + (\<Sum>w\<in>W. in_hand (pcs q w)) + mset (executed q) + lost = mset added" "stopped \<or> lost = {#}"
    by (auto simp: pool_inv_def)
  note sum = sum_in_hand [OF inv(1) assms(2), of q]
  have m: "mutex q = Some w \<longleftrightarrow> holds_mutex (pcs q w)" using inv(3) by simp
  have mx: "holds_mutex (pcs q' v) \<longleftrightarrow> mutex q' = Some v"
    if "pcs q' = (pcs q)(w := c)" "holds_mutex c \<longleftrightarrow> mutex q' = Some w" "mutex q' \<in> {mutex q, None, Some w}"
      "mutex q \<in> {mutex q', None, Some w}" for v c
    using that inv(3) [of v] by (cases "v = w") auto
  have keep: ?thesis
    if "jobs q' = jobs q" "executed q' = executed q" "pcs q' = (pcs q)(w := c)" "in_hand c = in_hand (pcs q w)"
      "holds_mutex c \<longleftrightarrow> mutex q' = Some w" "mutex q' \<in> {mutex q, None, Some w}"
      "mutex q \<in> {mutex q', None, Some w}" for c
    using inv sum [of c] that mx [OF that(3,5,6,7)] by (intro pool_invI [of W added q' xs lost]) auto
  show ?thesis
  proof (cases "pcs q w")
    case (Unlock job)
    then show ?thesis
      using assms(3) m
      by (intro keep [of "case job of None \<Rightarrow> Lock | Some j \<Rightarrow> Job j"])
        (auto simp: worker_step_def split: option.splits)
  next
    case (Job j)
    then have q': "q' = q\<lparr>executed := executed q @ [j], pcs := (pcs q)(w := Lock)\<rparr>"
      using assms(3) by (simp add: worker_step_def)
    have "mset xs + (\<Sum>v\<in>W. in_hand (pcs q' v)) + mset (executed q') + lost =
        mset xs + ((\<Sum>v\<in>W. in_hand (((pcs q)(w := Lock)) v)) + in_hand (pcs q w)) + mset (executed q) + lost"
      using Job by (simp add: q')
    also have "\<dots> = mset added" using inv(5) unfolding sum by simp
    finally show ?thesis
      using mx [of Lock] inv Job m by (intro pool_invI [of W added q' xs lost]) (simp_all add: q')
  next
    case Check
    show ?thesis
    proof (cases "terminate q w \<or> snd (jobs q) = None")
      case True
      then show ?thesis
        using Check assms(3) m
        by (intro keep [of "if terminate q w then Exit else Unlock None"])
          (auto simp: worker_step_def split: if_splits)
    next
      case False
      then obtain x ys where xs: "xs = x # ys" "snd (jobs q) = Some x"
        using inv(4) by (cases xs) (auto simp: is_stack_def)
      have q': "q' = q\<lparr>jobs := LL_REMOVE x (jobs q), pcs := (pcs q)(w := Unlock (Some x))\<rparr>"
        using assms(3) Check False xs by (simp add: worker_step_def)
      have "mset ys + (\<Sum>v\<in>W. in_hand (pcs q' v)) + mset (executed q') + lost =
          mset ys + ((\<Sum>v\<in>W. in_hand (((pcs q)(w := Unlock (Some x))) v)) + in_hand (pcs q w)) + mset (executed q) + lost"
        using Check by (simp add: q')
      also have "\<dots> = mset added" using inv(5) xs(1) unfolding sum by simp
      finally show ?thesis
        using is_stack_REMOVE(1) [of "jobs q" x ys] mx [of "Unlock (Some x)"] inv Check m xs(1)
        by (intro pool_invI [of W added q' ys lost]) (simp_all add: q')
    qed
  next
    case Lock
    then show ?thesis using assms(3) m by (intro keep [of Test]) (auto simp: worker_step_def split: if_splits)
  next
    case Sleep
    then show ?thesis using assms(3) m by (intro keep [of Test]) (auto simp: worker_step_def split: if_splits)
  next
    case Test
    then show ?thesis
      using assms(3) m
      by (intro keep [of "if snd (jobs q) = None \<and> \<not> terminate q w then Sleep else Check"])
        (auto simp: worker_step_def split: if_splits)
  next
    case Exit
    then show ?thesis using assms(3) by (simp add: worker_step_def)
  qed
qed

lemma init_loop_workers: "init_loop n started ws = (r, ws') \<Longrightarrow> \<exists>new. ws' = new @ ws"
  by (induction n started ws rule: init_loop.induct) (auto split: if_splits)

lemma pool_invariant: "pool W q added stopped \<Longrightarrow> pool_inv W q added stopped"
proof (induction rule: pool.induct)
  case (init n started r q)
  then show ?case
    by (intro pool_invI [of W "[]" q "[]" "{#}"])
      (auto simp: workqueue_init_def is_stack_def Let_def split: prod.splits)
next
  case (work q added stopped w q')
  then show ?case using worker_step_inv by blast
next
  case (add q added stopped j q')
  then obtain xs lost where inv: "finite W" "distinct added" "\<forall>w. holds_mutex (pcs q w) \<longleftrightarrow> mutex q = Some w"
    "is_stack (jobs q) xs"
    "mset xs + (\<Sum>w\<in>W. in_hand (pcs q w)) + mset (executed q) + lost = mset added" "stopped \<or> lost = {#}"
    by (auto simp: pool_inv_def)
  have "set_mset (mset xs) \<subseteq> set_mset (mset added)" unfolding inv(5) [symmetric] by auto
  then have "j \<notin> set xs" using add(2) by auto
  then show ?case
    using is_stack_ADD [OF inv(4)] inv add(2,3)
    by (intro pool_invI [of W "j # added" q' "j # xs" lost])
      (auto simp: workqueue_add_job_def split: if_splits)
next
  case (flag q added stopped w)
  then show ?case by (simp add: pool_inv_def shutdown_flag_def)
next
  case (clear q added stopped q')
  then obtain xs lost where inv: "finite W" "distinct added" "\<forall>w. holds_mutex (pcs q w) \<longleftrightarrow> mutex q = Some w"
    "mset xs + (\<Sum>w\<in>W. in_hand (pcs q w)) + mset (executed q) + lost = mset added"
    by (auto simp: pool_inv_def)
  then show ?case
    using clear(2) by (intro pool_invI [of W added q' "[]" "mset xs + lost"])
      (auto simp: shutdown_clear_def is_stack_def ac_simps split: if_splits)
qed

lemma distinct_sub: "mset xs \<subseteq># mset ys \<Longrightarrow> distinct ys \<Longrightarrow> distinct xs"
  by (metis distinct_append ex_mset mset_append mset_eq_imp_distinct_iff mset_subset_eq_exists_conv)

text \<open>A schedule names the worker that runs next; a blocked worker is passed over.\<close>

fun schedule :: "nat list \<Rightarrow> workqueue \<Rightarrow> workqueue" where
  "schedule [] q = q"
| "schedule (w # ws) q = schedule ws (case worker_step w q of None \<Rightarrow> q | Some q' \<Rightarrow> q')"

lemma pool_schedule: "pool W q added stopped \<Longrightarrow> set ws \<subseteq> W \<Longrightarrow> pool W (schedule ws q) added stopped"
proof (induction ws q rule: schedule.induct)
  case (2 w ws q)
  then show ?case by (cases "worker_step w q") (auto dest: pool.work)
qed simp

lemma two_workers: "pool {0, 1} (snd (workqueue_init 2 [True, True])) [] False"
  by (rule pool.init [of 2 "[True, True]" 0]) (simp_all add: workqueue_init_def numeral_2_eq_2 insert_commute)

section \<open>Properties\<close>

text \<open>
  C5. Every job is run at most once, and none is lost before shutdown: in every state the pool
  can reach, under every interleaving of its workers and its clients, the executed jobs are
  pairwise different jobs that were added, the list of waiting jobs is intact, and unless the
  queue was cleared the waiting jobs, the jobs in the workers' hands and the executed ones are
  exactly the jobs added.
\<close>

theorem jobs_once:
  assumes "pool W q added stopped"
  shows "distinct (executed q) \<and> set (executed q) \<subseteq> set added \<and>
    (\<exists>xs. is_stack (jobs q) xs \<and>
      (stopped \<or> mset xs + (\<Sum>w\<in>W. in_hand (pcs q w)) + mset (executed q) = mset added))"
proof -
  from pool_invariant [OF assms] obtain xs lost where inv: "distinct added" "is_stack (jobs q) xs"
    "mset xs + (\<Sum>w\<in>W. in_hand (pcs q w)) + mset (executed q) + lost = mset added" "stopped \<or> lost = {#}"
    by (auto simp: pool_inv_def)
  have sub: "mset (executed q) \<subseteq># mset added"
    unfolding inv(3) [symmetric] by (simp add: subset_mset.add_increasing2 subset_mset.add_increasing)
  then have "set (executed q) \<subseteq> set added" using set_mset_mono [OF sub] by simp
  moreover have "distinct (executed q)"
    using distinct_sub [OF sub inv(1)] .
  ultimately show ?thesis using inv by auto
qed

theorem jobs_once_witness:
  "\<exists>q. pool {0, 1} q [5] False \<and> executed q = [5] \<and> distinct (executed q) \<and> set (executed q) \<subseteq> set [5]"
proof -
  let ?start = "snd (workqueue_init 2 [True, True])"
  let ?q = "schedule [0, 1, 0, 0, 1, 0, 0] (the (workqueue_add_job 5 ?start))"
  have "workqueue_add_job 5 ?start = Some (the (workqueue_add_job 5 ?start))"
    by (simp add: workqueue_add_job_def workqueue_init_def split: prod.split)
  from pool.add [OF two_workers _ this] have "pool {0, 1} (the (workqueue_add_job 5 ?start)) [5] False" by simp
  then have "pool {0, 1} ?q [5] False" using pool_schedule [of "{0, 1}" _ "[5]" False "[0, 1, 0, 0, 1, 0, 0]"] by simp
  moreover have "executed ?q = [5]" by code_simp
  ultimately show ?thesis using jobs_once by blast
qed

text \<open>
  C36. A worker ends with the mutex locked: once a worker has left its loop after
  \<open>workqueue_shutdown\<close>, it is the only one that ever will. Every other worker that waits for the
  mutex or the condition variable is blocked, and so is every later call of
  \<open>workqueue_add_job\<close>.
\<close>

theorem shutdown_stuck:
  assumes "pool W q added stopped" and "pcs q w = Exit"
  shows "mutex q = Some w \<and>
    (\<forall>v. v \<noteq> w \<longrightarrow> pcs q v \<noteq> Exit \<and> (pcs q v \<in> {Lock, Sleep} \<longrightarrow> worker_step v q = None)) \<and>
    workqueue_add_job j q = None"
proof -
  have inv: "holds_mutex (pcs q v) \<longleftrightarrow> mutex q = Some v" for v
    using pool_invariant [OF assms(1)] by (simp add: pool_inv_def)
  have m: "mutex q = Some w" using inv [of w] assms(2) by simp
  have "pcs q v \<noteq> Exit" if "v \<noteq> w" for v
    using inv [of v] m that by (cases "pcs q v") auto
  then show ?thesis
    using m by (auto simp: worker_step_def workqueue_add_job_def)
qed

theorem shutdown_stuck_witness:
  "\<exists>q. pool {0, 1} q [] False \<and> pcs q 0 = Exit \<and> pcs q 1 = Lock \<and> terminate q 1 \<and> worker_step 1 q = None"
proof -
  let ?start = "snd (workqueue_init 2 [True, True])"
  let ?q = "schedule [0, 0, 0] (shutdown_flag 0 (shutdown_flag 1 ?start))"
  have w: "set (workers ?start) = {0, 1}" by (auto simp: workqueue_init_def numeral_2_eq_2)
  have "pool {0, 1} (shutdown_flag 1 ?start) [] False"
    by (rule pool.flag [OF two_workers]) (simp add: w)
  then have "pool {0, 1} (shutdown_flag 0 (shutdown_flag 1 ?start)) [] False"
    by (rule pool.flag) (simp add: shutdown_flag_def w)
  then have p: "pool {0, 1} ?q [] False" by (rule pool_schedule) simp
  have e: "pcs ?q 0 = Exit" "pcs ?q 1 = Lock" "terminate ?q 1" by code_simp+
  from shutdown_stuck [OF p e(1)] e p show ?thesis by (intro exI [of _ ?q]) simp
qed

end
