(* ===== verification/Mulport_Server.thy ===== *)
theory Mulport_Server
  imports Wrap_IO Work_Queue
begin

text \<open>
  The server of \<open>src/mul_port_client_epoll/server_mulport_epoll.c\<close> around its thread pool: the calls
  \<open>nRecv\<close> and \<open>nSend\<close> that wait with \<open>poll\<close>, the handling of a client's data, and the body of the
  event loop with its counter of connections.

  Answers of \<open>recv\<close> and \<open>send\<close> come from the script of the socket, answers of \<open>poll\<close> from a second
  script. As in \<open>Wrap_IO\<close> a call for which the script has no answer does not return.
\<close>

section \<open>Waiting input and output\<close>

text \<open>An answer of \<open>poll\<close>: whether \<open>POLLHUP\<close> is reported, and the error or the number of ready descriptors.\<close>

type_synonym poll_answer = "bool \<times> (errno + nat)"

record conn =
  sk :: sock
  polls :: "poll_answer list"

definition poll :: "conn \<Rightarrow> (poll_answer \<times> conn) option" where
  "poll c = (case polls c of [] \<Rightarrow> None | a # ps \<Rightarrow> Some (a, c\<lparr>polls := ps\<rparr>))"

definition recv_conn :: "nat \<Rightarrow> conn \<Rightarrow> ((errno + byte list) \<times> conn) option" where
  "recv_conn n c = map_option (\<lambda>(r, s). (r, c\<lparr>sk := s\<rparr>)) (read_sys n (sk c))"

definition send_conn :: "byte list \<Rightarrow> conn \<Rightarrow> ((errno + nat) \<times> conn) option" where
  "send_conn d c = map_option (\<lambda>(r, s). (r, c\<lparr>sk := s\<rparr>)) (write_sys d (sk c))"

lemma recv_conn_script:
  "recv_conn n c = Some (r, c') \<Longrightarrow> length (script (sk c')) < length (script (sk c)) \<and> polls c' = polls c"
  by (auto simp: recv_conn_def dest: read_sys_script)

lemma send_conn_script: "send_conn d c = Some (r, c') \<Longrightarrow> polls c' = polls c"
  by (auto simp: send_conn_def)

lemma poll_script: "poll c = Some (a, c') \<Longrightarrow> length (polls c') < length (polls c) \<and> sk c' = sk c"
  by (auto simp: poll_def split: list.splits)

definition MAX_BUFFER :: nat where "MAX_BUFFER = 128"

text \<open>
  The loop of \<open>nRecv\<close>: \<open>left\<close> bytes are wanted, \<open>buf\<close> was received, \<open>code\<close> is \<open>ret_code\<close> (\<open>None\<close> for 0).
\<close>

function nRecv_loop :: "nat \<Rightarrow> byte list \<Rightarrow> errno option \<Rightarrow> conn \<Rightarrow> (errno option \<times> byte list \<times> conn) option" where
  "nRecv_loop left buf code c =
     (if left = 0 then Some (code, buf, c)
      else case recv_conn left c of
             None \<Rightarrow> None
           | Some (Inr d, c1) \<Rightarrow>
               if d \<noteq> [] then nRecv_loop (left - length d) (buf @ d) code c1
               else Some (Some ENOTCONN, buf, c1)
           | Some (Inl e, c1) \<Rightarrow>
               let code = (if e = EAGAIN \<or> e = EINTR then code else Some e)
               in case poll c1 of
                    None \<Rightarrow> None
                  | Some ((hup, res), c2) \<Rightarrow>
                      if hup then Some (Some ENOTCONN, buf, c2)
                      else case res of
                             Inl e \<Rightarrow> nRecv_loop left buf (if e = EINTR then code else Some e) c2
                           | Inr n \<Rightarrow>
                               if n = 0 then Some (Some ETIMEDOUT, buf, c2)
                               else nRecv_loop left buf code c2)"
  by pat_completeness auto
termination
  by (relation "measure (\<lambda>(left, buf, code, c). length (script (sk c)))")
    (auto dest!: recv_conn_script poll_script)

declare nRecv_loop.simps [simp del]

text \<open>The result of \<open>nRecv\<close>: the return code, the bytes stored and so their \<open>count\<close>.\<close>

definition nRecv :: "nat \<Rightarrow> conn \<Rightarrow> (errno option \<times> byte list \<times> conn) option" where
  "nRecv len c = nRecv_loop len [] None c"

text \<open>The loop of \<open>nSend\<close>, which tests its condition at the end; \<open>wrote\<close> bytes are sent.\<close>

function nSend_loop :: "byte list \<Rightarrow> nat \<Rightarrow> conn \<Rightarrow> (int \<times> conn) option" where
  "nSend_loop d wrote c =
     (case poll c of
        None \<Rightarrow> None
      | Some ((hup, res), c1) \<Rightarrow>
          if hup then Some (-1, c1)
          else case res of
                 Inl e \<Rightarrow>
                   if e = EINTR
                   then if wrote < length d then nSend_loop d wrote c1 else Some (int wrote, c1)
                   else Some (-1, c1)
               | Inr n \<Rightarrow>
                   if n = 0 then Some (-1, c1)
                   else case send_conn (drop wrote d) c1 of
                          None \<Rightarrow> None
                        | Some (Inl e, c2) \<Rightarrow> Some (int wrote, c2)
                        | Some (Inr k, c2) \<Rightarrow>
                            if k = 0 then Some (int wrote, c2)
                            else if wrote + k < length d then nSend_loop d (wrote + k) c2
                            else Some (int (wrote + k), c2))"
  by pat_completeness auto
termination
  by (relation "measure (\<lambda>(d, wrote, c). length (polls c))") (auto dest!: poll_script send_conn_script)

declare nSend_loop.simps [simp del]

definition nSend :: "byte list \<Rightarrow> conn \<Rightarrow> (int \<times> conn) option" where
  "nSend d c = nSend_loop d 0 c"

text \<open>
  \<open>epoll_et_loop\<close> reads until the socket is drained: what it printed and whether it closed the
  socket. A message that fills the buffer has no terminator for \<open>printf\<close>.
\<close>

function epoll_et_loop :: "conn \<Rightarrow> byte list list \<Rightarrow> (fault + byte list list \<times> bool) option" where
  "epoll_et_loop c out =
     (case recv_conn MAX_BUFFER c of
        None \<Rightarrow> None
      | Some (Inl e, c1) \<Rightarrow> if e = EAGAIN then Some (Inr (out, False)) else Some (Inr (out, True))
      | Some (Inr d, c1) \<Rightarrow>
          if d = [] then Some (Inr (out, True))
          else case cstr (d @ replicate (MAX_BUFFER - length d) 0) of
                 Inl f \<Rightarrow> Some (Inl f)
               | Inr str \<Rightarrow> epoll_et_loop c1 (out @ [str]))"
  by pat_completeness auto
termination
  by (relation "measure (\<lambda>(c, out). length (script (sk c)))") (auto dest!: recv_conn_script)

declare epoll_et_loop.simps [simp del]

section \<open>Clients\<close>

text \<open>
  The common part of \<open>client_data_process\<close> and \<open>client_job\<close>: the change of \<open>curfds\<close>, whether the
  socket was closed, and the connection. The string functions run past a full buffer.
\<close>

definition client_data :: "bool \<Rightarrow> conn \<Rightarrow> (fault + int \<times> bool \<times> conn) option" where
  "client_data nRun c =
     (case nRecv MAX_BUFFER c of
        None \<Rightarrow> None
      | Some (ret, buf, c1) \<Rightarrow>
          if length buf > 0
          then if nRun \<or> buf ! 0 = 97
               then (case cstr (buf @ replicate (MAX_BUFFER - length buf) 0) of
                       Inl f \<Rightarrow> Some (Inl f)
                     | Inr str \<Rightarrow> map_option (\<lambda>(r, c2). Inr (0, False, c2)) (nSend str c1))
               else Some (Inr (0, False, c1))
          else if ret = Some ENOTCONN then Some (Inr (-1, True, c1))
          else Some (Inr (0, False, c1)))"

definition client_data_process :: "bool \<Rightarrow> conn \<Rightarrow> (fault + int \<times> bool \<times> conn) option" where
  "client_data_process nRun c = client_data nRun c"

definition MAX_PORT :: nat where "MAX_PORT = 100"

text \<open>\<open>listenfd\<close>: the descriptor itself when it is one of the listening sockets, otherwise 0.\<close>

definition listenfd :: "int \<Rightarrow> int list \<Rightarrow> int" where
  "listenfd fd fds = (if fd \<in> set (take MAX_PORT fds) then fd else 0)"

record mulport =
  curfds :: int
  nRun :: bool
  sockfds :: "int list"
  watched :: "int list"
  queue :: workqueue

text \<open>What the body of the event loop does for one ready descriptor.\<close>

datatype action =
    Leave int                \<comment> \<open>\<open>main\<close> returns\<close>
  | Continue mulport         \<comment> \<open>the next event\<close>
  | Process int              \<comment> \<open>\<open>client_data_process\<close> is called\<close>
  | Blocked                  \<comment> \<open>the mutex of the queue is taken\<close>

definition on_event :: "mulport \<Rightarrow> int \<Rightarrow> int \<Rightarrow> node \<Rightarrow> action" where
  "on_event m fd clientfd job =
     (let sockfd = listenfd fd (sockfds m)
      in if sockfd \<noteq> 0
         then if clientfd < 0 then Leave 4
              else Continue (m\<lparr>nRun := nRun m \<or> curfds m > 1000 * 1000, curfds := i32 (curfds m + 1),
                               watched := clientfd # watched m\<rparr>)
         else if nRun m then Process fd
         else (case workqueue_add_job job (queue m) of
                 None \<Rightarrow> Blocked
               | Some q \<Rightarrow> Continue (m\<lparr>queue := q\<rparr>)))"

text \<open>
  \<open>main\<close> up to the loop, with the results of \<open>socket\<close>, \<open>bind\<close> and \<open>listen\<close> for each port: the exit code
  or the listening sockets.
\<close>

fun open_ports :: "(int \<times> int \<times> int) list \<Rightarrow> int list \<Rightarrow> int + int list" where
  "open_ports [] fds = Inr fds"
| "open_ports ((sockfd, bind_r, listen_r) # rs) fds =
     (if sockfd < 0 then Inl 1
      else if bind_r < 0 then Inl 2
      else if listen_r < 0 then Inl 3
      else open_ports rs (fds @ [sockfd]))"

section \<open>Properties of the calls\<close>

text \<open>What \<open>nRecv\<close> stores is what the stream delivers, and a good return code means all of it.\<close>

lemma recv_conn_stream:
  "recv_conn n c = Some (Inr d, c') \<Longrightarrow>
     d @ incoming (sk c') = incoming (sk c) \<and> length d \<le> n \<and> outgoing (sk c') = outgoing (sk c)"
  "recv_conn n c = Some (Inl e, c') \<Longrightarrow> incoming (sk c') = incoming (sk c) \<and> outgoing (sk c') = outgoing (sk c)"
  by (auto simp: recv_conn_def read_sys_def Let_def split: list.splits io.splits)

lemma nRecv_loop_stream:
  assumes "nRecv_loop left buf code c = Some (code', buf', c')"
  shows "\<exists>d. buf' = buf @ d \<and> d @ incoming (sk c') = incoming (sk c) \<and> length d \<le> left \<and>
    (code' = None \<longrightarrow> length d = left) \<and> outgoing (sk c') = outgoing (sk c)"
  using assms
proof (induction "length (script (sk c))" arbitrary: left buf code c rule: less_induct)
  case less
  show ?case
  proof (cases "left = 0")
    case True
    then show ?thesis using less.prems by (simp add: nRecv_loop.simps)
  next
    case False
    then obtain r c1 where r: "recv_conn left c = Some (r, c1)"
      using less.prems by (auto simp: nRecv_loop.simps [of left] split: option.splits)
    have shorter: "length (script (sk c1)) < length (script (sk c))" using recv_conn_script [OF r] by simp
    show ?thesis
    proof (cases r)
      case (Inr d)
      note st = recv_conn_stream(1) [OF r [unfolded Inr]]
      show ?thesis
      proof (cases "d = []")
        case True
        then show ?thesis using less.prems False r Inr st by (auto simp: nRecv_loop.simps [of left])
      next
        case ne: False
        then have "nRecv_loop (left - length d) (buf @ d) code c1 = Some (code', buf', c')"
          using less.prems False r Inr by (simp add: nRecv_loop.simps [of left])
        from less.hyps [OF shorter this] obtain d' where
          "buf' = (buf @ d) @ d'" "d' @ incoming (sk c') = incoming (sk c1)" "length d' \<le> left - length d"
          "code' = None \<longrightarrow> length d' = left - length d" "outgoing (sk c') = outgoing (sk c1)" by blast
        then show ?thesis using st by (intro exI [of _ "d @ d'"]) auto
      qed
    next
      case (Inl e)
      note st = recv_conn_stream(2) [OF r [unfolded Inl]]
      define code1 where "code1 = (if e = EAGAIN \<or> e = EINTR then code else Some e)"
      obtain hup res c2 where p: "poll c1 = Some ((hup, res), c2)"
        using less.prems False r Inl by (auto simp: nRecv_loop.simps [of left] Let_def split: option.splits)
      have sk: "sk c2 = sk c1" using poll_script [OF p] by simp
      have body: "(if hup then Some (Some ENOTCONN, buf, c2)
          else case res of
                 Inl e \<Rightarrow> nRecv_loop left buf (if e = EINTR then code1 else Some e) c2
               | Inr n \<Rightarrow> if n = 0 then Some (Some ETIMEDOUT, buf, c2) else nRecv_loop left buf code1 c2) =
          Some (code', buf', c')"
        unfolding code1_def using less.prems False r Inl p by (simp add: nRecv_loop.simps [of left] Let_def)
      have IH: "\<exists>d. buf' = buf @ d \<and> d @ incoming (sk c') = incoming (sk c) \<and> length d \<le> left \<and>
          (code' = None \<longrightarrow> length d = left) \<and> outgoing (sk c') = outgoing (sk c)" if "nRecv_loop left buf k c2 = Some (code', buf', c')" for k
        using less.hyps [OF _ that] shorter sk st by simp
      show ?thesis
        using body IH sk st by (auto split: if_splits sum.splits)
    qed
  qed
qed

lemma send_conn_stream:
  "send_conn d c = Some (Inr k, c') \<Longrightarrow>
     outgoing (sk c') = outgoing (sk c) @ take k d \<and> k \<le> length d \<and> incoming (sk c') = incoming (sk c)"
  "send_conn d c = Some (Inl e, c') \<Longrightarrow> outgoing (sk c') = outgoing (sk c) \<and> incoming (sk c') = incoming (sk c)"
  by (auto simp: send_conn_def write_sys_def min_def split: list.splits io.splits)

lemma nSend_loop_stream:
  assumes "nSend_loop d wrote c = Some (r, c')" and "wrote \<le> length d"
  shows "\<exists>k. outgoing (sk c') = outgoing (sk c) @ take k (drop wrote d) \<and> wrote + k \<le> length d \<and>
    (r = -1 \<or> r = int (wrote + k)) \<and> incoming (sk c') = incoming (sk c)"
  using assms
proof (induction "length (polls c)" arbitrary: wrote c rule: less_induct)
  case less
  obtain hup res c1 where p: "poll c = Some ((hup, res), c1)"
    using less.prems(1) by (auto simp: nSend_loop.simps [of d] split: option.splits)
  have sk: "sk c1 = sk c" "length (polls c1) < length (polls c)" using poll_script [OF p] by simp_all
  have body: "(if hup then Some (-1, c1)
      else case res of
             Inl e \<Rightarrow>
               if e = EINTR
               then if wrote < length d then nSend_loop d wrote c1 else Some (int wrote, c1)
               else Some (-1, c1)
           | Inr n \<Rightarrow>
               if n = 0 then Some (-1, c1)
               else case send_conn (drop wrote d) c1 of
                      None \<Rightarrow> None
                    | Some (Inl e, c2) \<Rightarrow> Some (int wrote, c2)
                    | Some (Inr k, c2) \<Rightarrow>
                        if k = 0 then Some (int wrote, c2)
                        else if wrote + k < length d then nSend_loop d (wrote + k) c2
                        else Some (int (wrote + k), c2)) = Some (r, c')"
    using less.prems(1) p by (simp add: nSend_loop.simps [of d])
  have stop: ?case
    if "outgoing (sk c') = outgoing (sk c)" "incoming (sk c') = incoming (sk c)" "r = -1 \<or> r = int wrote"
    using that less.prems(2) by (intro exI [of _ 0]) auto
  show ?case
  proof (cases "\<exists>n. \<not> hup \<and> res = Inr n \<and> n \<noteq> 0")
    case False
    have "nSend_loop d wrote c1 = Some (r, c') \<Longrightarrow> ?thesis"
      using less.hyps [of c1 wrote] sk less.prems(2) by simp
    with False body stop sk show ?thesis by (auto split: if_splits sum.splits)
  next
    case True
    then obtain q c2 where q: "send_conn (drop wrote d) c1 = Some (q, c2)"
      using body by (auto split: option.splits)
    show ?thesis
    proof (cases q)
      case (Inl e)
      then show ?thesis using True body q stop send_conn_stream(2) [OF q [unfolded Inl]] sk by auto
    next
      case (Inr k)
      note st = send_conn_stream(1) [OF q [unfolded Inr]]
      have rec: ?thesis if rec: "nSend_loop d (wrote + k) c2 = Some (r, c')"
      proof -
        have "length (polls c2) < length (polls c)" using send_conn_script [OF q] sk(2) by simp
        moreover have "wrote + k \<le> length d" using st less.prems(2) by auto
        ultimately obtain j where
          "outgoing (sk c') = outgoing (sk c2) @ take j (drop (wrote + k) d)" "wrote + k + j \<le> length d"
          "r = -1 \<or> r = int (wrote + k + j)" "incoming (sk c') = incoming (sk c2)" using less.hyps [OF _ rec] by blast
        moreover have "take (k + j) (drop wrote d) = take k (drop wrote d) @ take j (drop (wrote + k) d)"
          unfolding take_add drop_drop by (simp add: add.commute [of k wrote])
        ultimately show ?thesis
          using st sk(1) by (intro exI [of _ "k + j"]) auto
      qed
      show ?thesis
        using True body q Inr st sk(1) rec stop less.prems(2)
        by (auto split: if_splits intro: exI [of _ k])
    qed
  qed
qed

section \<open>Properties\<close>

text \<open>
  The server sends a client nothing but its own words: when handling a client's data
  returns, the bytes sent are a prefix of the bytes just received, cut at the first NUL, and
  nothing is sent unless these start with an \<open>a\<close> or the server is in its final mode; the counter
  of connections goes down exactly when the socket is closed, and then nothing was received.
\<close>

theorem client_echo:
  assumes "client_data_process run c = Some (Inr (delta, closed, c'))"
  shows "\<exists>d sent. d @ incoming (sk c') = incoming (sk c) \<and> length d \<le> MAX_BUFFER \<and>
    outgoing (sk c') = outgoing (sk c) @ sent \<and> prefix sent (takeWhile (\<lambda>b. b \<noteq> 0) d) \<and>
    (sent = [] \<or> run \<or> d ! 0 = 97) \<and> delta = (if closed then -1 else 0) \<and> (closed \<longrightarrow> d = [])"
proof -
  obtain ret d c1 where r: "nRecv MAX_BUFFER c = Some (ret, d, c1)"
    using assms by (auto simp: client_data_process_def client_data_def split: option.splits)
  have st: "d @ incoming (sk c1) = incoming (sk c)" "length d \<le> MAX_BUFFER" and o1: "outgoing (sk c1) = outgoing (sk c)"
    using nRecv_loop_stream [OF r [unfolded nRecv_def]] by auto
  show ?thesis
  proof (cases "d \<noteq> [] \<and> (run \<or> d ! 0 = 97)")
    case False
    then show ?thesis
      using assms r st o1 by (intro exI [of _ d] exI [of _ "[]"])
        (auto simp: client_data_process_def client_data_def split: if_splits)
  next
    case True
    then obtain str k where s: "cstr (d @ replicate (MAX_BUFFER - length d) 0) = Inr str"
      "nSend str c1 = Some (k, c')" "delta = 0" "\<not> closed"
      using assms r by (auto simp: client_data_process_def client_data_def split: sum.splits if_splits)
    have str: "str = takeWhile (\<lambda>b. b \<noteq> 0) d"
    proof (cases "MAX_BUFFER - length d")
      case 0
      then show ?thesis using s(1) by (simp add: cstr_def split: if_splits)
    next
      case (Suc n)
      then show ?thesis using s(1) by (simp add: cstr_NUL)
    qed
    obtain j where "outgoing (sk c') = outgoing (sk c1) @ take j str" "incoming (sk c') = incoming (sk c1)"
      using nSend_loop_stream [OF s(2) [unfolded nSend_def]] by auto
    then show ?thesis
      using True s(3,4) st o1 str by (intro exI [of _ d] exI [of _ "take j str"]) (auto simp: take_is_prefix)
  qed
qed

theorem client_echo_witness:
  "\<exists>c c' d sent. client_data_process False c = Some (Inr (0, False, c')) \<and> outgoing (sk c') = outgoing (sk c) @ sent \<and>
     d @ incoming (sk c') = incoming (sk c) \<and> prefix sent (takeWhile (\<lambda>b. b \<noteq> 0) d)"
proof -
  let ?c = "\<lparr>sk = \<lparr>script = [Bytes 3, Fail EAGAIN, Bytes 9], incoming = bs ''abc'', outgoing = []\<rparr>,
    polls = [(False, Inr 0), (False, Inr 1)]\<rparr>"
  have c: "client_data_process False ?c =
      Some (Inr (0, False, \<lparr>sk = \<lparr>script = [], incoming = [], outgoing = bs ''abc''\<rparr>, polls = []\<rparr>))"
    by code_simp
  from client_echo [OF this] c show ?thesis by blast
qed

text \<open>
  \<open>nRecv\<close> does not give up on a broken socket: while \<open>recv\<close> fails with an error that is not
  transient and \<open>poll\<close> reports the descriptor ready, as it does for a socket in error, the loop
  only records the error and tries again. However long this lasts, the call has not returned.
\<close>

theorem nRecv_spins:
  assumes "0 < len" and "e \<noteq> EAGAIN"
  shows "nRecv len \<lparr>sk = \<lparr>script = replicate n (Fail e), incoming = inc, outgoing = out\<rparr>,
    polls = replicate n (False, Inr 1)\<rparr> = None"
proof -
  have "nRecv_loop len buf code \<lparr>sk = \<lparr>script = replicate n (Fail e), incoming = inc, outgoing = out\<rparr>,
      polls = replicate n (False, Inr 1)\<rparr> = None" for buf code
  proof (induction n arbitrary: code)
    case 0
    then show ?case using assms(1) by (simp add: nRecv_loop.simps recv_conn_def read_sys_def)
  next
    case (Suc n)
    then show ?case
      using assms(1) by (subst nRecv_loop.simps) (simp add: recv_conn_def read_sys_def poll_def Let_def)
  qed
  then show ?thesis by (simp add: nRecv_def)
qed

theorem nRecv_spins_witness:
  "nRecv 128 \<lparr>sk = \<lparr>script = replicate 1000 (Fail (Errno 104)), incoming = [], outgoing = []\<rparr>,
     polls = replicate 1000 (False, Inr 1)\<rparr> = None"
  by (rule nRecv_spins) simp_all

end
