(* ===== verification/Event_Table.thy ===== *)
theory Event_Table
  imports Wrap_IO
begin

text \<open>
  The reactor with a fixed table of events, \<open>src/epoll_reactor/reactor.cpp\<close>: \<open>eventadd\<close>, \<open>eventset\<close>,
  \<open>eventdel\<close>, the three callbacks and the body of the loop. An event of the table is named by its
  index; the last entry belongs to the listening socket.
\<close>

section \<open>State\<close>

definition EVENT_SIZE :: nat where "EVENT_SIZE = 1024"
definition BUF_LEN :: nat where "BUF_LEN = 1024"

datatype reaction = InitAccept | ReadData | SendData

record xx_event =
  ev_fd :: int
  ev_events :: u32
  call_back :: "reaction option"
  buf :: "byte list"
  buflen :: int

definition no_event :: xx_event where
  "no_event = \<lparr>ev_fd = 0, ev_events = 0, call_back = None, buf = replicate BUF_LEN 0, buflen = 0\<rparr>"

text \<open>
  The table, the epoll tree (events and index registered for a descriptor), the open descriptors
  and what was written to each.
\<close>

record table =
  myevents :: "xx_event list"
  tree :: "int \<Rightarrow> (u32 \<times> nat) option"
  live :: "int set"
  wrote :: "(int \<times> byte list) list"

section \<open>Operations\<close>

definition eventadd :: "int \<Rightarrow> u32 \<Rightarrow> reaction \<Rightarrow> nat \<Rightarrow> table \<Rightarrow> table" where
  "eventadd fd events cb i t =
     (let ev = (myevents t ! i)\<lparr>ev_fd := fd, ev_events := events, call_back := Some cb\<rparr>;
          t = t\<lparr>myevents := (myevents t)[i := ev]\<rparr>
      in if fd \<in> live t \<and> tree t fd = None then t\<lparr>tree := (tree t)(fd \<mapsto> (events, i))\<rparr> else t)"

definition eventset :: "int \<Rightarrow> u32 \<Rightarrow> reaction \<Rightarrow> nat \<Rightarrow> table \<Rightarrow> table" where
  "eventset fd events cb i t =
     (let ev = (myevents t ! i)\<lparr>ev_fd := fd, ev_events := events, call_back := Some cb\<rparr>;
          t = t\<lparr>myevents := (myevents t)[i := ev]\<rparr>
      in if tree t fd \<noteq> None then t\<lparr>tree := (tree t)(fd \<mapsto> (events, i))\<rparr> else t)"

definition eventdel :: "nat \<Rightarrow> int \<Rightarrow> table \<Rightarrow> table" where
  "eventdel i fd t =
     t\<lparr>myevents := (myevents t)[i := no_event], tree := (tree t)(fd := None)\<rparr>"

text \<open>\<open>Write\<close> hands over the bytes; its result is not looked at.\<close>

definition senddata :: "int \<Rightarrow> nat \<Rightarrow> table \<Rightarrow> table" where
  "senddata fd i t =
     (let ev = myevents t ! i;
          t = t\<lparr>wrote := wrote t @ [(fd, take (nat (buflen ev)) (buf ev))]\<rparr>
      in eventset fd EPOLLIN ReadData i t)"

text \<open>\<open>Read\<close> has dealt with signals; \<open>None\<close> is its result -1. Closing takes the descriptor off the tree.\<close>

definition readData :: "int \<Rightarrow> nat \<Rightarrow> byte list option \<Rightarrow> table \<Rightarrow> table" where
  "readData fd i r t =
     (case r of
        None \<Rightarrow> t\<lparr>myevents := (myevents t)[i := (myevents t ! i)\<lparr>buflen := -1\<rparr>]\<rparr>
      | Some d \<Rightarrow>
          let d = take BUF_LEN d;
              ev = myevents t ! i;
              t = t\<lparr>myevents := (myevents t)[i := ev\<lparr>buf := d @ drop (length d) (buf ev), buflen := int (length d)\<rparr>]\<rparr>
          in if d \<noteq> [] then eventset fd EPOLLOUT SendData i t
             else eventdel i fd (t\<lparr>live := live t - {fd}, tree := (tree t)(fd := None)\<rparr>))"

text \<open>The search for a free entry stops behind the table when there is none.\<close>

definition free_slot :: "table \<Rightarrow> nat" where
  "free_slot t = length (takeWhile (\<lambda>ev. ev_fd ev \<noteq> 0) (take EVENT_SIZE (myevents t)))"

definition initAccept :: "int \<Rightarrow> table \<Rightarrow> table" where
  "initAccept cfd t = eventadd cfd EPOLLIN ReadData (free_slot t) (t\<lparr>live := insert cfd (live t)\<rparr>)"

text \<open>
  One ready event: the reported events and the index. The arguments are the result of \<open>Accept\<close> and
  of \<open>Read\<close>; \<open>None\<close> is a call through a null pointer.
\<close>

definition table_ready :: "u32 \<times> nat \<Rightarrow> int \<Rightarrow> byte list option \<Rightarrow> table \<Rightarrow> table option" where
  "table_ready e cfd r t =
     (let xe = myevents t ! snd e
      in if ev_events xe AND fst e \<noteq> 0
         then (case call_back xe of
                 None \<Rightarrow> None
               | Some InitAccept \<Rightarrow> Some (initAccept cfd t)
               | Some ReadData \<Rightarrow> Some (readData (ev_fd xe) (snd e) r t)
               | Some SendData \<Rightarrow> Some (senddata (ev_fd xe) (snd e) t))
         else Some t)"

text \<open>\<open>main\<close> up to the loop, for a listening descriptor.\<close>

definition table_init :: "int \<Rightarrow> table" where
  "table_init lfd =
     eventadd lfd EPOLLIN InitAccept EVENT_SIZE
       \<lparr>myevents = replicate (EVENT_SIZE + 1) no_event, tree = Map.empty, live = {lfd}, wrote = []\<rparr>"

section \<open>Invariant\<close>

definition reaction_events :: "reaction \<Rightarrow> u32" where
  "reaction_events cb = (if cb = SendData then EPOLLOUT else EPOLLIN)"

text \<open>
  Every registered descriptor is open and has an entry of its own, which carries the descriptor,
  the registered events and the callback for them; the listening socket keeps the last entry.
\<close>

definition entry_ok :: "int set \<Rightarrow> xx_event list \<Rightarrow> int \<Rightarrow> u32 \<Rightarrow> nat \<Rightarrow> bool" where
  "entry_ok fds evs fd ev i \<longleftrightarrow> fd \<in> fds \<and> fd \<noteq> 0 \<and> i \<le> EVENT_SIZE \<and> ev_fd (evs ! i) = fd \<and> ev_events (evs ! i) = ev \<and>
     (\<exists>cb. call_back (evs ! i) = Some cb \<and> ev = reaction_events cb \<and> (cb = InitAccept \<longrightarrow> i = EVENT_SIZE))"

definition wf_table :: "int \<Rightarrow> table \<Rightarrow> bool" where
  "wf_table lfd t \<longleftrightarrow> length (myevents t) = EVENT_SIZE + 1 \<and> (\<forall>j \<le> EVENT_SIZE. length (buf (myevents t ! j)) = BUF_LEN) \<and>
     tree t lfd = Some (EPOLLIN, EVENT_SIZE) \<and> call_back (myevents t ! EVENT_SIZE) = Some InitAccept \<and>
     (\<forall>fd ev i. tree t fd = Some (ev, i) \<longrightarrow> entry_ok (live t) (myevents t) fd ev i)"

lemma wf_tableD: "wf_table lfd t \<Longrightarrow> tree t fd = Some (ev, i) \<Longrightarrow> entry_ok (live t) (myevents t) fd ev i"
  by (simp add: wf_table_def)

lemma wf_table_inj:
  "wf_table lfd t \<Longrightarrow> tree t fd = Some (ev, i) \<Longrightarrow> tree t fd' = Some (ev', i) \<Longrightarrow> fd' = fd"
  using wf_tableD unfolding entry_ok_def by metis

lemma wf_table_slot:
  "wf_table lfd t \<Longrightarrow> tree t fd = Some (ev, i) \<Longrightarrow> fd \<noteq> lfd \<Longrightarrow> i < EVENT_SIZE"
  using wf_table_inj [of lfd t lfd EPOLLIN EVENT_SIZE fd ev] wf_tableD [of lfd t fd ev i]
  by (auto simp: wf_table_def entry_ok_def le_less)

text \<open>Replacing one entry below the last.\<close>

lemma wf_table_change:
  assumes "wf_table lfd t" and "i < EVENT_SIZE" and "myevents t' = (myevents t)[i := x]" and "length (buf x) = BUF_LEN"
    and "tree t' lfd = tree t lfd"
    and "\<And>fd ev j. tree t' fd = Some (ev, j) \<Longrightarrow>
      j \<noteq> i \<and> tree t fd = Some (ev, j) \<and> fd \<in> live t' \<or>
      j = i \<and> fd \<in> live t' \<and> fd \<noteq> 0 \<and> ev_fd x = fd \<and> ev_events x = ev \<and> (\<exists>cb. call_back x = Some cb \<and> ev = reaction_events cb \<and> cb \<noteq> InitAccept)"
  shows "wf_table lfd t'"
proof -
  have len: "i < length (myevents t)" using assms(1,2) by (simp add: wf_table_def)
  have "entry_ok (live t') (myevents t') fd ev j" if "tree t' fd = Some (ev, j)" for fd ev j
    using assms(6) [OF that]
  proof
    assume "j \<noteq> i \<and> tree t fd = Some (ev, j) \<and> fd \<in> live t'"
    then show ?thesis using wf_tableD [OF assms(1), of fd ev j] by (simp add: entry_ok_def assms(3))
  next
    assume "j = i \<and> fd \<in> live t' \<and> fd \<noteq> 0 \<and> ev_fd x = fd \<and> ev_events x = ev \<and>
      (\<exists>cb. call_back x = Some cb \<and> ev = reaction_events cb \<and> cb \<noteq> InitAccept)"
    then show ?thesis using len assms(2) by (simp add: entry_ok_def assms(3))
  qed
  then show ?thesis
    using assms(1-5) len by (simp add: wf_table_def nth_list_update)
qed

lemma eventset_wf:
  assumes "wf_table lfd t" and "tree t fd = Some (ev, i)" and "fd \<noteq> lfd" and "cb \<noteq> InitAccept"
  shows "wf_table lfd (eventset fd (reaction_events cb) cb i t)"
proof (rule wf_table_change [OF assms(1)])
  let ?x = "(myevents t ! i)\<lparr>ev_fd := fd, ev_events := reaction_events cb, call_back := Some cb\<rparr>"
  show i: "i < EVENT_SIZE" by (rule wf_table_slot [OF assms(1-3)])
  show "myevents (eventset fd (reaction_events cb) cb i t) = (myevents t)[i := ?x]"
    "tree (eventset fd (reaction_events cb) cb i t) lfd = tree t lfd"
    using assms(2,3) by (simp_all add: eventset_def)
  show "length (buf ?x) = BUF_LEN" using assms(1) i by (simp add: wf_table_def)
  fix fd' ev' j assume t: "tree (eventset fd (reaction_events cb) cb i t) fd' = Some (ev', j)"
  show "j \<noteq> i \<and> tree t fd' = Some (ev', j) \<and> fd' \<in> live (eventset fd (reaction_events cb) cb i t) \<or>
    j = i \<and> fd' \<in> live (eventset fd (reaction_events cb) cb i t) \<and> fd' \<noteq> 0 \<and> ev_fd ?x = fd' \<and>
    ev_events ?x = ev' \<and> (\<exists>cb'. call_back ?x = Some cb' \<and> ev' = reaction_events cb' \<and> cb' \<noteq> InitAccept)"
  proof (cases "fd' = fd")
    case True
    then show ?thesis using t assms(2,4) wf_tableD [OF assms(1,2)] by (auto simp: eventset_def entry_ok_def)
  next
    case False
    then have "tree t fd' = Some (ev', j)" using t assms(2) by (simp add: eventset_def)
    moreover have "j \<noteq> i" using wf_table_inj [OF assms(1,2)] calculation False by metis
    ultimately show ?thesis using wf_tableD [OF assms(1)] assms(2) by (auto simp: eventset_def entry_ok_def)
  qed
qed

text \<open>Changing the buffer of an entry, and what was written.\<close>

lemma set_buffer_wf:
  assumes "wf_table lfd t" and "i < EVENT_SIZE" and "length b = BUF_LEN"
  shows "wf_table lfd (t\<lparr>myevents := (myevents t)[i := (myevents t ! i)\<lparr>buf := b, buflen := n\<rparr>]\<rparr>)"
proof (rule wf_table_change [OF assms(1,2)])
  fix fd ev j
  let ?t = "t\<lparr>myevents := (myevents t)[i := (myevents t ! i)\<lparr>buf := b, buflen := n\<rparr>]\<rparr>"
  assume "tree ?t fd = Some (ev, j)"
  then have "entry_ok (live t) (myevents t) fd ev j" "tree t fd = Some (ev, j)" using wf_tableD [OF assms(1)] by simp_all
  then show "j \<noteq> i \<and> tree t fd = Some (ev, j) \<and> fd \<in> live ?t \<or>
    j = i \<and> fd \<in> live ?t \<and> fd \<noteq> 0 \<and> ev_fd ((myevents t ! i)\<lparr>buf := b, buflen := n\<rparr>) = fd \<and>
    ev_events ((myevents t ! i)\<lparr>buf := b, buflen := n\<rparr>) = ev \<and>
    (\<exists>cb. call_back ((myevents t ! i)\<lparr>buf := b, buflen := n\<rparr>) = Some cb \<and> ev = reaction_events cb \<and> cb \<noteq> InitAccept)"
    using assms(2) by (auto simp: entry_ok_def)
qed (use assms(3) in simp_all)

lemma wrote_wf [simp]: "wf_table lfd (t\<lparr>wrote := w\<rparr>) = wf_table lfd t"
  by (simp add: wf_table_def)

lemma eventdel_wf:
  assumes "wf_table lfd t" and "tree t fd = Some (ev, i)" and "fd \<noteq> lfd"
  shows "wf_table lfd (eventdel i fd (t\<lparr>live := live t - {fd}, tree := (tree t)(fd := None)\<rparr>))"
proof (rule wf_table_change [OF assms(1)])
  let ?t = "eventdel i fd (t\<lparr>live := live t - {fd}, tree := (tree t)(fd := None)\<rparr>)"
  show "i < EVENT_SIZE" by (rule wf_table_slot [OF assms])
  show "myevents ?t = (myevents t)[i := no_event]" by (simp add: eventdel_def)
  fix fd' ev' j assume "tree ?t fd' = Some (ev', j)"
  then have "tree t fd' = Some (ev', j)" "fd' \<noteq> fd" by (auto simp: eventdel_def split: if_splits)
  moreover have "j \<noteq> i" using wf_table_inj [OF assms(1,2)] calculation by metis
  ultimately show "j \<noteq> i \<and> tree t fd' = Some (ev', j) \<and> fd' \<in> live ?t \<or>
    j = i \<and> fd' \<in> live ?t \<and> fd' \<noteq> 0 \<and> ev_fd no_event = fd' \<and> ev_events no_event = ev' \<and>
    (\<exists>cb. call_back no_event = Some cb \<and> ev' = reaction_events cb \<and> cb \<noteq> InitAccept)"
    using wf_tableD [OF assms(1)] by (auto simp: eventdel_def entry_ok_def)
qed (use assms(3) in \<open>simp_all add: eventdel_def no_event_def\<close>)

lemma free_slot_free:
  assumes "free_slot t < EVENT_SIZE" and "length (myevents t) = EVENT_SIZE + 1"
  shows "ev_fd (myevents t ! free_slot t) = 0"
proof -
  let ?evs = "take EVENT_SIZE (myevents t)"
  have "free_slot t < length ?evs" using assms by simp
  from nth_length_takeWhile [OF this [unfolded free_slot_def]] show ?thesis
    using assms(1) by (simp add: free_slot_def)
qed

lemma initAccept_wf:
  assumes "wf_table lfd t" and "free_slot t < EVENT_SIZE" and "cfd \<notin> live t" and "0 < cfd"
  shows "wf_table lfd (initAccept cfd t)" and "tree (initAccept cfd t) cfd = Some (EPOLLIN, free_slot t)"
proof -
  let ?i = "free_slot t"
  let ?x = "(myevents t ! ?i)\<lparr>ev_fd := cfd, ev_events := EPOLLIN, call_back := Some ReadData\<rparr>"
  have new: "tree t cfd = None"
    using wf_tableD [OF assms(1), of cfd] assms(3) by (cases "tree t cfd") (auto simp: entry_ok_def)
  have t: "tree (initAccept cfd t) = (tree t)(cfd \<mapsto> (EPOLLIN, ?i))" "live (initAccept cfd t) = insert cfd (live t)"
    "myevents (initAccept cfd t) = (myevents t)[?i := ?x]"
    using new by (simp_all add: initAccept_def eventadd_def)
  have unused: "j \<noteq> ?i" if "tree t fd = Some (ev, j)" for fd ev j
    using wf_tableD [OF assms(1) that] free_slot_free [OF assms(2)] assms(1) by (auto simp: entry_ok_def wf_table_def)
  show "wf_table lfd (initAccept cfd t)"
  proof (rule wf_table_change [OF assms(1,2) t(3)])
    show "length (buf ?x) = BUF_LEN" using assms(1,2) by (simp add: wf_table_def)
    show "tree (initAccept cfd t) lfd = tree t lfd" using new assms(1) by (auto simp: t wf_table_def)
    fix fd ev j assume e: "tree (initAccept cfd t) fd = Some (ev, j)"
    show "j \<noteq> ?i \<and> tree t fd = Some (ev, j) \<and> fd \<in> live (initAccept cfd t) \<or>
      j = ?i \<and> fd \<in> live (initAccept cfd t) \<and> fd \<noteq> 0 \<and> ev_fd ?x = fd \<and> ev_events ?x = ev \<and>
      (\<exists>cb. call_back ?x = Some cb \<and> ev = reaction_events cb \<and> cb \<noteq> InitAccept)"
    proof (cases "fd = cfd")
      case True
      then show ?thesis using e assms(4) by (auto simp: t reaction_events_def)
    next
      case False
      then have "tree t fd = Some (ev, j)" using e by (simp add: t)
      then show ?thesis using unused wf_tableD [OF assms(1), of fd ev j] by (auto simp: t entry_ok_def)
    qed
  qed
  show "tree (initAccept cfd t) cfd = Some (EPOLLIN, ?i)" by (simp add: t)
qed

lemma senddata_wf:
  assumes "wf_table lfd t" and "tree t fd = Some (ev, i)" and "fd \<noteq> lfd"
  shows "wf_table lfd (senddata fd i t)"
proof -
  let ?t = "t\<lparr>wrote := wrote t @ [(fd, take (nat (buflen (myevents t ! i))) (buf (myevents t ! i)))]\<rparr>"
  have "wf_table lfd ?t" "tree ?t fd = Some (ev, i)" using assms by simp_all
  from eventset_wf [OF this assms(3), of ReadData] show ?thesis
    by (simp add: senddata_def reaction_events_def Let_def)
qed

lemma readData_wf:
  assumes "wf_table lfd t" and "tree t fd = Some (ev, i)" and "fd \<noteq> lfd"
  shows "wf_table lfd (readData fd i r t)"
proof -
  note i = wf_table_slot [OF assms]
  have len: "length (buf (myevents t ! i)) = BUF_LEN" using assms(1) i by (simp add: wf_table_def)
  show ?thesis
  proof (cases r)
    case None
    have "(myevents t ! i)\<lparr>buf := buf (myevents t ! i), buflen := -1\<rparr> = (myevents t ! i)\<lparr>buflen := -1\<rparr>" by simp
    then show ?thesis
      using set_buffer_wf [OF assms(1) i len, of "-1"] None by (simp add: readData_def)
  next
    case (Some d)
    let ?d = "take BUF_LEN d"
    let ?t = "t\<lparr>myevents := (myevents t)[i := (myevents t ! i)\<lparr>buf := ?d @ drop (length ?d) (buf (myevents t ! i)),
      buflen := int (length ?d)\<rparr>]\<rparr>"
    have "length (?d @ drop (length ?d) (buf (myevents t ! i))) = BUF_LEN" using len by simp
    from set_buffer_wf [OF assms(1) i this] have t: "wf_table lfd ?t" "tree ?t fd = Some (ev, i)"
      using assms(2) by simp_all
    show ?thesis
      using eventset_wf [OF t assms(3), of SendData] eventdel_wf [OF t assms(3)] Some
      by (simp add: readData_def reaction_events_def Let_def)
  qed
qed

lemma table_init_wf: "lfd \<noteq> 0 \<Longrightarrow> wf_table lfd (table_init lfd)"
proof -
  assume "lfd \<noteq> 0"
  have t: "tree (table_init lfd) = [lfd \<mapsto> (EPOLLIN, EVENT_SIZE)]" "live (table_init lfd) = {lfd}"
    "myevents (table_init lfd) = (replicate (EVENT_SIZE + 1) no_event)[EVENT_SIZE :=
      (no_event\<lparr>ev_fd := lfd, ev_events := EPOLLIN, call_back := Some InitAccept\<rparr>)]"
    unfolding table_init_def eventadd_def Let_def by (simp_all add: nth_replicate del: replicate.simps replicate_Suc)
  have "length (buf (myevents (table_init lfd) ! j)) = BUF_LEN" if "j \<le> EVENT_SIZE" for j
    using that by (cases "j = EVENT_SIZE") (simp_all add: t(3) no_event_def nth_replicate del: replicate.simps)
  moreover have "myevents (table_init lfd) ! EVENT_SIZE =
      no_event\<lparr>ev_fd := lfd, ev_events := EPOLLIN, call_back := Some InitAccept\<rparr>"
    by (simp add: t(3) del: replicate.simps)
  moreover have "length (myevents (table_init lfd)) = EVENT_SIZE + 1"
    unfolding t(3) by (simp del: replicate.simps)
  ultimately show ?thesis
    using \<open>lfd \<noteq> 0\<close> by (auto simp: wf_table_def entry_ok_def reaction_events_def t(1,2))
qed

section \<open>Properties\<close>

text \<open>
  C27. The reactor with the event table keeps its entries in order: from a well-formed state,
  handling any event of a registered descriptor calls a callback that is set and ends in a
  well-formed state again, as long as a new connection finds a free entry and gets a new
  descriptor.
\<close>

theorem table_invariant:
  assumes "wf_table lfd t" and "tree t fd = Some (ev, i)"
    and "i = EVENT_SIZE \<longrightarrow> free_slot t < EVENT_SIZE \<and> cfd \<notin> live t \<and> 0 < cfd"
  shows "\<exists>t'. table_ready (evs, i) cfd r t = Some t' \<and> wf_table lfd t'"
proof (cases "fd = lfd")
  case True
  then have "i = EVENT_SIZE" "call_back (myevents t ! i) = Some InitAccept"
    using assms(1,2) by (simp_all add: wf_table_def)
  then show ?thesis
    using assms(1,3) initAccept_wf(1) by (simp add: table_ready_def Let_def)
next
  case False
  note e = wf_tableD [OF assms(1,2)] and i = wf_table_slot [OF assms(1,2) False]
  show ?thesis
    using e i readData_wf [OF assms(1,2) False, of r] senddata_wf [OF assms(1,2) False] assms(1)
    by (cases "call_back (myevents t ! i)"; cases "the (call_back (myevents t ! i))")
      (auto simp: table_ready_def entry_ok_def Let_def)
qed

theorem table_invariant_witness:
  "\<exists>t'. table_ready (EPOLLIN, EVENT_SIZE) 5 None (table_init 3) = Some t' \<and> wf_table 3 t'"
proof -
  have wf: "wf_table 3 (table_init 3)" by (simp add: table_init_wf)
  have t: "tree (table_init 3) 3 = Some (EPOLLIN, EVENT_SIZE)" using wf by (simp add: wf_table_def)
  have "ev_fd (myevents (table_init 3) ! 0) = 0" "length (myevents (table_init 3)) = EVENT_SIZE + 1"
    using wf by (simp_all add: wf_table_def table_init_def eventadd_def no_event_def EVENT_SIZE_def)
  then have "free_slot (table_init 3) = 0"
    by (cases "myevents (table_init 3)") (auto simp: free_slot_def EVENT_SIZE_def)
  moreover have "live (table_init 3) = {3}" by (simp add: table_init_def eventadd_def Let_def)
  ultimately show ?thesis using table_invariant [OF wf t, of 5 EPOLLIN None] by (simp add: EVENT_SIZE_def)
qed

text \<open>
  A full table loses the listening socket: when no entry is free, \<open>initAccept\<close> writes the new
  connection into the last entry, which is the listener's. From then on a ready listening
  socket makes the server read from the new connection, and no connection is accepted.
\<close>

theorem table_full:
  assumes "wf_table lfd t" and "free_slot t = EVENT_SIZE" and "cfd \<notin> live t"
  shows "\<exists>t'. table_ready (EPOLLIN, EVENT_SIZE) cfd r t = Some t' \<and>
    tree t' lfd = Some (EPOLLIN, EVENT_SIZE) \<and> tree t' cfd = Some (EPOLLIN, EVENT_SIZE) \<and>
    table_ready (EPOLLIN, EVENT_SIZE) c q t' = Some (readData cfd EVENT_SIZE q t')"
proof -
  have l: "length (myevents t) = EVENT_SIZE + 1" "tree t lfd = Some (EPOLLIN, EVENT_SIZE)"
    "call_back (myevents t ! EVENT_SIZE) = Some InitAccept"
    "ev_events (myevents t ! EVENT_SIZE) = EPOLLIN" "lfd \<in> live t"
    using assms(1) wf_tableD [OF assms(1), of lfd EPOLLIN EVENT_SIZE] by (simp_all add: wf_table_def entry_ok_def)
  have new: "tree t cfd = None"
    using wf_tableD [OF assms(1), of cfd] assms(3) by (cases "tree t cfd") (auto simp: entry_ok_def)
  have "EPOLLIN AND EPOLLIN \<noteq> 0" by (simp add: EPOLLIN_def)
  then show ?thesis
    using l new assms(2,3) by (auto simp: table_ready_def initAccept_def eventadd_def Let_def)
qed

text \<open>A table with 1024 connections, with the descriptors from 10 on.\<close>

definition crowded :: table where
  "crowded =
     \<lparr>myevents = map (\<lambda>i. no_event\<lparr>ev_fd := 10 + int i, ev_events := EPOLLIN, call_back := Some ReadData\<rparr>) [0..<EVENT_SIZE] @
        [no_event\<lparr>ev_fd := 3, ev_events := EPOLLIN, call_back := Some InitAccept\<rparr>],
      tree = (\<lambda>fd. if fd = 3 then Some (EPOLLIN, EVENT_SIZE)
        else if 10 \<le> fd \<and> fd < 10 + int EVENT_SIZE then Some (EPOLLIN, nat (fd - 10)) else None),
      live = insert 3 {10..<10 + int EVENT_SIZE}, wrote = []\<rparr>"

lemma crowded_wf: "wf_table 3 crowded" "free_slot crowded = EVENT_SIZE"
proof -
  have "\<forall>ev \<in> set (take EVENT_SIZE (myevents crowded)). ev_fd ev \<noteq> 0"
    by (auto simp: crowded_def)
  then have "takeWhile (\<lambda>ev. ev_fd ev \<noteq> 0) (take EVENT_SIZE (myevents crowded)) = take EVENT_SIZE (myevents crowded)"
    by (simp add: takeWhile_eq_all_conv)
  moreover have "length (take EVENT_SIZE (myevents crowded)) = EVENT_SIZE" by (simp add: crowded_def)
  ultimately show "free_slot crowded = EVENT_SIZE" by (simp only: free_slot_def)
  let ?entry = "\<lambda>i. no_event\<lparr>ev_fd := 10 + int i, ev_events := EPOLLIN, call_back := Some ReadData\<rparr>"
  have ev: "myevents crowded ! i = ?entry i" if "i < EVENT_SIZE" for i
    using that by (simp add: crowded_def nth_append)
  have lis: "myevents crowded ! EVENT_SIZE = no_event\<lparr>ev_fd := 3, ev_events := EPOLLIN, call_back := Some InitAccept\<rparr>"
    by (simp add: crowded_def nth_append)
  have "entry_ok (live crowded) (myevents crowded) fd e i" if "tree crowded fd = Some (e, i)" for fd e i
  proof (cases "fd = 3")
    case True
    then have "e = EPOLLIN" "i = EVENT_SIZE" using that by (simp_all add: crowded_def)
    then show ?thesis using True lis by (simp add: entry_ok_def reaction_events_def) (simp add: crowded_def)
  next
    case False
    then have f: "e = EPOLLIN" "i = nat (fd - 10)" "10 \<le> fd" "fd < 10 + int EVENT_SIZE"
      using that by (simp_all add: crowded_def split: if_splits)
    then have i: "i < EVENT_SIZE" "10 + int i = fd" by simp_all
    have "fd \<in> live crowded" using f by (simp add: crowded_def)
    then show ?thesis using ev [OF i(1)] i f(1,3) by (simp add: entry_ok_def reaction_events_def)
  qed
  moreover have "length (buf (myevents crowded ! j)) = BUF_LEN" if "j \<le> EVENT_SIZE" for j
    using that ev [of j] lis by (cases "j = EVENT_SIZE") (simp_all add: no_event_def)
  moreover have "length (myevents crowded) = EVENT_SIZE + 1" "tree crowded 3 = Some (EPOLLIN, EVENT_SIZE)"
    by (simp_all add: crowded_def)
  ultimately show "wf_table 3 crowded" using lis by (simp add: wf_table_def)
qed

theorem table_full_witness:
  "\<exists>t'. table_ready (EPOLLIN, EVENT_SIZE) 5000 None crowded = Some t' \<and> tree t' 5000 = tree t' 3 \<and>
     table_ready (EPOLLIN, EVENT_SIZE) 5001 (Some []) t' = Some (readData 5000 EVENT_SIZE (Some []) t')"
proof -
  have "5000 \<notin> live crowded" by (simp add: crowded_def EVENT_SIZE_def)
  from table_full [OF crowded_wf this, of None 5001 "Some []"] show ?thesis by auto
qed

end
