(* ===== verification/Hello_Reactor.thy ===== *)
theory Hello_Reactor
  imports Reactor
begin

text \<open>
  The server \<open>src/epoll_reactor/epoll_reactor.cpp\<close>, which answers every message with a greeting. Its
  items have no state of their own beyond descriptor and callback (the two string members are
  never used), so it works on the plain \<open>item\<close> record.
\<close>

type_synonym hello_server = "item server"

definition hello_send_cb :: "hello_server \<Rightarrow> int \<Rightarrow> addr \<Rightarrow> fault + hello_server" where
  "hello_send_cb s fd p =
     (case heap s p of
        None \<Rightarrow> Inl Use_after_free
      | Some si \<Rightarrow>
          let s = send_fd fd (bs ''hello'' @ [10]) s;
              si = si\<lparr>sock_fd := fd, callback := Recv_cb\<rparr>
          in Inr (ctl_mod fd (EPOLLIN OR EPOLLET) p (put_item p si s)))"

text \<open>Every failure of \<open>recv\<close> closes the connection, also one that only asks to try again.\<close>

definition hello_recv_cb :: "hello_server \<Rightarrow> int \<Rightarrow> addr \<Rightarrow> answer \<Rightarrow> fault + hello_server" where
  "hello_recv_cb s fd p a =
     (case recv_n 18 a of
        Inl e \<Rightarrow> Inr (free_item p (ctl_del fd (close_fd fd s)))
      | Inr d \<Rightarrow>
          if d = [] then Inr (free_item p (ctl_del fd (close_fd fd s)))
          else case cstr (d @ replicate (18 - length d) 0) of
                 Inl f \<Rightarrow> Inl f
               | Inr str_buff \<Rightarrow>
                   let s = print_msg str_buff (int (length d)) s
                   in case heap s p of
                        None \<Rightarrow> Inl Use_after_free
                      | Some si \<Rightarrow>
                          let si = si\<lparr>sock_fd := fd, callback := Send_cb\<rparr>
                          in Inr (ctl_mod fd (EPOLLOUT OR EPOLLET) p (put_item p si s)))"

definition hello_accept_cb :: "hello_server \<Rightarrow> answer \<Rightarrow> hello_server" where
  "hello_accept_cb s a =
     (let clientfd = ans_accept a; s = open_fd clientfd s
      in if clientfd \<le> 0 then s
         else let si = \<lparr>sock_fd = clientfd, callback = Recv_cb\<rparr>
              in ctl_add clientfd (EPOLLIN OR EPOLLET) (brk s) (malloc_item si s))"

definition hello_call :: "hello_server \<Rightarrow> addr \<Rightarrow> answer \<Rightarrow> fault + hello_server" where
  "hello_call s p a =
     (case heap s p of
        None \<Rightarrow> Inl Use_after_free
      | Some si \<Rightarrow>
          (case callback si of
             Accept_cb \<Rightarrow> Inr (hello_accept_cb s a)
           | Recv_cb \<Rightarrow> hello_recv_cb s (sock_fd si) p a
           | Send_cb \<Rightarrow> hello_send_cb s (sock_fd si) p))"

definition hello_on_ready :: "hello_server \<Rightarrow> ready \<Rightarrow> answer \<times> answer \<Rightarrow> fault + hello_server" where
  "hello_on_ready = on_ready hello_call"

definition hello_main :: "int \<Rightarrow> int \<Rightarrow> int \<Rightarrow> int \<Rightarrow> int + hello_server" where
  "hello_main listen_fd epfd bind_r listen_r =
     (if listen_fd < 0 then Inl (-1)
      else if bind_r < 0 then Inl (-2)
      else if listen_r < 0 then Inl (-3)
      else let s = \<lparr>interest = Map.empty, open_fds = {listen_fd, epfd}, heap = Map.empty, brk = 0,
                    outbox = [], printed = []\<rparr>;
               si = \<lparr>sock_fd = listen_fd, callback = Accept_cb\<rparr>
           in Inr (ctl_add listen_fd EPOLLIN (brk s) (malloc_item si s)))"

section \<open>The reactor contract\<close>

lemma hello_rearm:
  assumes "wf_server s" and "heap s p = Some si" and "interest s (sock_fd si) = Some (ev, p)" and "cb \<noteq> Accept_cb"
  shows "wf_server (ctl_mod (sock_fd si) (cb_events cb) p (put_item p (si\<lparr>callback := cb\<rparr>) s)) \<and>
    local_to p s (ctl_mod (sock_fd si) (cb_events cb) p (put_item p (si\<lparr>callback := cb\<rparr>) s))"
  using rearm [OF assms(1,3,2), of "si\<lparr>callback := cb\<rparr>"] by simp

lemma hello_commute [simp]:
  "put_item p x (send_fd fd d s) = send_fd fd d (put_item p x s)"
  "put_item p x (print_msg d n s) = print_msg d n (put_item p x s)"
  "ctl_mod fd ev p (send_fd fd' d s) = send_fd fd' d (ctl_mod fd ev p s)"
  "ctl_mod fd ev p (print_msg d n s) = print_msg d n (ctl_mod fd ev p s)"
  "heap (print_msg d n s) = heap s" "brk (open_fd c s) = brk s"
  by (simp_all add: server_ops)

interpretation hello: callback_server hello_call "{Out_of_bounds}"
proof
  fix s :: hello_server and p si and a :: answer
  assume wf: "wf_server s" and si: "heap s p = Some si"
    "interest s (sock_fd si) = Some (cb_events (callback si), p)" and a: "ans_accept a \<notin> open_fds s"
  show "case hello_call s p a of Inl f \<Rightarrow> f \<in> {Out_of_bounds} | Inr s' \<Rightarrow> wf_server s' \<and> local_to p s s'"
  proof (cases "callback si")
    case Accept_cb
    then show ?thesis
      using connect [OF wf a, of "\<lparr>sock_fd = ans_accept a, callback = Recv_cb\<rparr>"] wf si(1)
      by (simp add: hello_call_def hello_accept_cb_def Let_def)
  next
    case Recv_cb
    then show ?thesis
      using hello_rearm [OF wf si, of Send_cb] destroy [OF wf si(2)] si(1)
      by (simp add: hello_call_def hello_recv_cb_def cstr_def Let_def split: sum.split)
  next
    case Send_cb
    then show ?thesis
      using hello_rearm [OF wf si, of Recv_cb] si(1) by (simp add: hello_call_def hello_send_cb_def)
  qed
qed

lemma hello_main_wf: "hello_main lfd epfd b l = Inr s \<Longrightarrow> wf_server s"
  by (auto simp: hello_main_def wf_server_def server_ops Let_def split: if_splits)

text \<open>The greeting server follows no dangling pointer either.\<close>

lemma hello_loop_safe:
  assumes "hello_main lfd epfd b l = Inr s0" and "reaches hello_call s0 s (e # es)" and "answer_ok s a"
  shows "wf_server s \<and> hello_on_ready s e a \<noteq> Inl Use_after_free"
  using hello.reaches_wf [OF assms(2) hello_main_wf [OF assms(1)]]
    hello.loop_safe [OF assms(2) hello_main_wf [OF assms(1)] assms(3)]
  unfolding hello_on_ready_def by (cases "on_ready hello_call s e a") auto

end
