(* ===== verification/Web_Pub.thy ===== *)
theory Web_Pub
  imports Do_String
begin

text \<open>
  The helpers of the web server in C, \<open>src/webserver/web-http/pub.c\<close>: file types, reading a line from
  a socket, and percent encoding in fixed buffers. C strings are lists of bytes without NUL.
\<close>

section \<open>File types\<close>

text \<open>\<open>strrchr\<close>: the rest of the string from the last occurrence of a character on.\<close>

definition strrchr :: "byte list \<Rightarrow> byte \<Rightarrow> byte list option" where
  "strrchr s c = (if c \<in> set s then Some (c # rev (takeWhile (\<lambda>x. x \<noteq> c) (rev s))) else None)"

definition c_get_mime_type :: "byte list \<Rightarrow> byte list" where
  "c_get_mime_type name =
     (case strrchr name 46 of
        None \<Rightarrow> bs ''text/plain; charset=utf-8''
      | Some dot \<Rightarrow>
          if dot = bs ''.html'' \<or> dot = bs ''.htm'' then bs ''text/html; charset=utf-8''
          else if dot = bs ''.jpg'' \<or> dot = bs ''.jpeg'' then bs ''image/jpeg''
          else if dot = bs ''.gif'' then bs ''image/gif''
          else if dot = bs ''.png'' then bs ''image/png''
          else if dot = bs ''.css'' then bs ''text/css''
          else if dot = bs ''.au'' then bs ''audio/basic''
          else if dot = bs ''.wav'' then bs ''audio/wav''
          else if dot = bs ''.avi'' then bs ''video/x-msvideo''
          else if dot = bs ''.mov'' \<or> dot = bs ''.qt'' then bs ''video/quicktime''
          else if dot = bs ''.mpeg'' \<or> dot = bs ''.mpe'' then bs ''video/mpeg''
          else if dot = bs ''.vrml'' \<or> dot = bs ''.wrl'' then bs ''model/vrml''
          else if dot = bs ''.midi'' \<or> dot = bs ''.mid'' then bs ''audio/midi''
          else if dot = bs ''.mp3'' then bs ''audio/mpeg''
          else if dot = bs ''.ogg'' then bs ''application/ogg''
          else if dot = bs ''.pac'' then bs ''application/x-ns-proxy-autoconfig''
          else bs ''text/plain; charset=utf-8'')"

section \<open>Reading a line\<close>

text \<open>
  \<open>get_line\<close> on the bytes that are still to come; \<open>recv\<close> fails when there are none. The loop ends when
  \<open>room\<close> is used up or a line end was stored; CR, LF and CR LF are all stored as LF.
\<close>

fun get_line_loop :: "nat \<Rightarrow> byte list \<Rightarrow> byte list \<times> byte list" where
  "get_line_loop 0 st = ([], st)"
| "get_line_loop (Suc room) [] = ([], [])"
| "get_line_loop (Suc room) (c # st) =
     (if c = 13
      then (case st of
              [] \<Rightarrow> ([10], [])
            | d # st' \<Rightarrow> if d = 10 then ([10], st') else ([10], st))
      else if c = 10 then ([10], st)
      else let (line, rest) = get_line_loop room st in (c # line, rest))"

text \<open>The bytes stored, with the terminator, the number returned, and the rest of the stream.\<close>

definition get_line :: "nat \<Rightarrow> byte list \<Rightarrow> byte list \<times> nat \<times> byte list" where
  "get_line sz st = (let (line, rest) = get_line_loop (sz - 1) st in (line @ [0], length line, rest))"

section \<open>Percent encoding\<close>

definition isxdigit :: "byte \<Rightarrow> bool" where
  "isxdigit c \<longleftrightarrow> (48 \<le> c \<and> c \<le> 57) \<or> (65 \<le> c \<and> c \<le> 70) \<or> (97 \<le> c \<and> c \<le> 102)"

definition hexit :: "byte \<Rightarrow> byte" where
  "hexit c =
     (if 48 \<le> c \<and> c \<le> 57 then c - 48
      else if 97 \<le> c \<and> c \<le> 102 then c - 97 + 10
      else if 65 \<le> c \<and> c \<le> 70 then c - 65 + 10
      else 0)"

fun strdecode :: "byte list \<Rightarrow> byte list" where
  "strdecode [] = []"
| "strdecode (c # a # b # from) =
     (if c = 37 \<and> isxdigit a \<and> isxdigit b then (hexit a * 16 + hexit b) # strdecode from
      else c # strdecode (a # b # from))"
| "strdecode (c # from) = c # strdecode from"

text \<open>The digits \<open>sprintf\<close> prints for \<open>%02x\<close>.\<close>

definition hex_digit :: "byte \<Rightarrow> byte" where
  "hex_digit x = (if x < 10 then x + 48 else x + 87)"

definition percent :: "byte \<Rightarrow> byte list" where
  "percent c = [37, hex_digit (c div 16), hex_digit (c mod 16)]"

definition plain_char :: "byte \<Rightarrow> bool" where
  "plain_char c \<longleftrightarrow> isalnum c \<or> c \<in> set (bs ''/_.-~'')"

text \<open>The loop of \<open>strencode\<close>; \<open>tolen\<close> bytes are written.\<close>

fun strencode_loop :: "nat \<Rightarrow> nat \<Rightarrow> byte list \<Rightarrow> byte list" where
  "strencode_loop tosize tolen [] = []"
| "strencode_loop tosize tolen (c # from) =
     (if tolen + 4 < tosize
      then if plain_char c then c # strencode_loop tosize (tolen + 1) from
           else percent c @ strencode_loop tosize (tolen + 3) from
      else [])"

text \<open>What \<open>strencode\<close> stores, with the terminator.\<close>

definition strencode :: "nat \<Rightarrow> byte list \<Rightarrow> byte list" where
  "strencode tosize from = strencode_loop tosize 0 from @ [0]"

section \<open>Lemmas\<close>

lemma get_line_loop_line:
  assumes "set ln \<inter> {10, 13} = {}" and "length ln < room" and "eol \<in> {[10], [13], [13, 10]}"
    and "eol = [13] \<Longrightarrow> rest = [] \<or> hd rest \<noteq> 10"
  shows "get_line_loop room (ln @ eol @ rest) = (ln @ [10], rest)"
  using assms(1,2)
proof (induction ln arbitrary: room)
  case Nil
  then obtain r where "room = Suc r" by (cases room) auto
  then show ?case using assms(3,4) by (cases rest) auto
next
  case (Cons c ln)
  then obtain r where "room = Suc r" by (cases room) auto
  then show ?case using Cons by simp
qed

lemma strencode_loop_length:
  "tolen < tosize \<Longrightarrow> tolen + length (strencode_loop tosize tolen str) < tosize"
  by (induction tosize tolen str rule: strencode_loop.induct) (auto simp: percent_def)

lemma nibble_digit: "x < 16 \<Longrightarrow> isxdigit (hex_digit x) \<and> hexit (hex_digit x) = x"
proof -
  assume "x < 16"
  then have "unat x < 16" by (simp add: word_less_nat_alt)
  moreover have "\<forall>n < 16. isxdigit (hex_digit (of_nat n)) \<and> hexit (hex_digit (of_nat n)) = of_nat n" by code_simp
  ultimately have "isxdigit (hex_digit (of_nat (unat x))) \<and> hexit (hex_digit (of_nat (unat x))) = of_nat (unat x)" by blast
  then show ?thesis by simp
qed

lemma strdecode_percent: "strdecode (percent c @ str) = c # strdecode str"
proof -
  have "c div 16 < 16" "c mod 16 < 16" using nibbles [of c] by (simp_all add: drop_bit_eq_div)
  then show ?thesis using nibble_digit div_mult_mod_eq [of c 16] by (simp add: percent_def)
qed

lemma strdecode_plain: "c \<noteq> 37 \<Longrightarrow> strdecode (c # str) = c # strdecode str"
  by (cases str rule: strdecode.cases) auto

lemma plain_char_37: "plain_char c \<Longrightarrow> c \<noteq> 37"
  by (auto simp: plain_char_def isalnum_def bs_def)

lemma strencode_loop_prefix: "\<exists>n. strdecode (strencode_loop tosize tolen str) = take n str"
proof (induction tosize tolen str rule: strencode_loop.induct)
  case (2 tosize tolen c str)
  show ?case
  proof (cases "tolen + 4 < tosize")
    case True
    then obtain n where "strdecode (strencode_loop tosize (if plain_char c then tolen + 1 else tolen + 3) str) = take n str"
      using 2 by (cases "plain_char c") auto
    then have "strdecode (strencode_loop tosize tolen (c # str)) = take (Suc n) (c # str)"
      using True strdecode_plain plain_char_37 [of c] by (simp add: strdecode_percent split: if_splits)
    then show ?thesis by blast
  next
    case False
    then show ?thesis by (intro exI [of _ 0]) simp
  qed
qed simp

lemma strencode_loop_all:
  "tolen + 3 * length str + 1 < tosize \<Longrightarrow> strdecode (strencode_loop tosize tolen str) = str"
  by (induction tosize tolen str rule: strencode_loop.induct)
    (auto simp: strdecode_plain plain_char_37 strdecode_percent)

section \<open>Properties\<close>

text \<open>
  \<open>strencode\<close> never writes past its buffer, terminator included, and never cuts an escape in
  two: \<open>strdecode\<close> gives back a prefix of the string, and the whole string when the buffer has
  room for three characters per byte.
\<close>

theorem strencode_safe:
  assumes "0 < tosize"
  shows "length (strencode tosize str) \<le> tosize \<and> (\<exists>n. strdecode (butlast (strencode tosize str)) = take n str) \<and>
    (3 * length str + 1 < tosize \<longrightarrow> strdecode (butlast (strencode tosize str)) = str)"
  using strencode_loop_length [OF assms, of str] strencode_loop_prefix [of tosize 0 str] strencode_loop_all [of 0 str tosize]
  by (simp add: strencode_def)

theorem strencode_safe_witness:
  "strencode 20 (bs ''a b'') = bs ''a%20b'' @ [0] \<and> strdecode (butlast (strencode 20 (bs ''a b''))) = bs ''a b''"
proof -
  have "strencode 20 (bs ''a b'') = bs ''a%20b'' @ [0]" by code_simp
  then show ?thesis using strencode_safe [of 20 "bs ''a b''"] by (simp add: bs_def)
qed

text \<open>
  \<open>get_line\<close> does what its comment says: a line that fits the buffer is stored with a single
  line feed and a terminator, whether it ended in LF, CR or CR LF, the result is its length, and
  exactly the line and its end are taken from the stream.
\<close>

theorem get_line_documented:
  assumes "set ln \<inter> {10, 13} = {}" and "length ln + 1 < sz" and "eol \<in> {[10], [13], [13, 10]}"
    and "eol = [13] \<longrightarrow> rest = [] \<or> hd rest \<noteq> 10"
  shows "get_line sz (ln @ eol @ rest) = (ln @ [10, 0], length ln + 1, rest)"
  using get_line_loop_line [of ln "sz - 1" eol rest] assms by (simp add: get_line_def)

theorem get_line_documented_witness:
  "get_line 16 (bs ''GET /'' @ [13, 10] @ [65]) = (bs ''GET /'' @ [10, 0], length (bs ''GET /'') + 1, [65])"
  by (rule get_line_documented) (simp_all add: bs_def)

end
