(* ===== verification/Web_Server.thy ===== *)
theory Web_Server
  imports Web_Pub Wrap_IO
begin

text \<open>
  The web server \<open>src/webserver/epoll_webserver.cpp\<close>: reading a request, choosing what to send, the
  headers, files and directory listings, and the body of the event loop. \<open>UrlDecode\<close> is the one of
  \<open>Do_String\<close> (\<open>urlencode_urldecode.cpp\<close> holds the same text).

  The file system is the parameter \<open>fs\<close>, which maps a path to what the system calls find there: a
  directory with its entries, a file with its contents, or a file of some size that may not be
  opened. An answer is a list of blocks, one for each call of \<open>send\<close>; the client's socket does not
  block and the code ignores the results, so of each block the kernel takes as much as it likes
  (\<open>sent_bytes\<close>).
\<close>

datatype entry = Dir "(byte list \<times> bool) list" | File "byte list" | Unreadable nat

type_synonym filesystem = "byte list \<Rightarrow> entry option"

section \<open>Helpers\<close>

definition web_split :: "byte list \<Rightarrow> byte list \<Rightarrow> byte list list option" where
  "web_split str delim = (if str = [] then Some [] else split_loop delim False (str @ delim) [])"

text \<open>\<open>std::string::rfind\<close> for one character.\<close>

fun rfind :: "byte \<Rightarrow> byte list \<Rightarrow> nat option" where
  "rfind c [] = None"
| "rfind c (x # xs) =
     (case rfind c xs of Some n \<Rightarrow> Some (Suc n) | None \<Rightarrow> if x = c then Some 0 else None)"

definition get_mime_type :: "byte list \<Rightarrow> byte list" where
  "get_mime_type str =
     (case rfind 46 str of
        None \<Rightarrow> bs ''text/plain; charset=utf-8''
      | Some pos \<Rightarrow>
          let dot = drop pos str in
          if dot = bs ''.html'' \<or> dot = bs ''.htm'' then bs ''text/html; charset=utf-8''
          else if dot = bs ''.jpg'' \<or> dot = bs ''.jpeg'' then bs ''image/jpeg''
          else if dot = bs ''.gif'' then bs ''image/gif''
          else if dot = bs ''.png'' then bs ''image/png''
          else if dot = bs ''.css'' then bs ''text/css''
          else if dot = bs ''.au'' then bs ''audio/basic''
          else if dot = bs ''.wav'' then bs ''audio/wav''
          else if dot = bs ''.avi'' then bs ''video/x-msvideo''
          else if dot = bs ''.mov'' \<or> dot = bs ''.qt'' then bs ''video/quicktime''
          else if dot = bs ''.mpeg'' \<or> dot = bs ''.mpe'' then bs ''video/mpeg''
          else if dot = bs ''.vrml'' \<or> dot = bs ''.wrl'' then bs ''model/vrml''
          else if dot = bs ''.midi'' \<or> dot = bs ''.mid'' then bs ''audio/midi''
          else if dot = bs ''.mp3'' then bs ''audio/mpeg''
          else if dot = bs ''.ogg'' then bs ''application/ogg''
          else if dot = bs ''.pac'' then bs ''application/x-ns-proxy-autoconfig''
          else bs ''text/plain; charset=utf-8'')"

definition tolower :: "byte \<Rightarrow> byte" where
  "tolower c = (if 65 \<le> c \<and> c \<le> 90 then c + 32 else c)"

definition EOL :: "byte list" where "EOL = [13, 10]"

section \<open>Responses\<close>

text \<open>
  The header lines, one call of \<open>send\<close> each. The length is an \<open>int\<close>; the caller passes the size of a
  file, an \<open>off_t\<close>, which is narrowed to 32 bits on the way.
\<close>

definition send_http_headers :: "nat \<Rightarrow> byte list \<Rightarrow> byte list \<Rightarrow> int \<Rightarrow> byte list list" where
  "send_http_headers status_code info file_type len =
     [bs ''HTTP/1.1 '' @ to_string status_code @ bs '' '' @ info @ EOL,
      bs ''Content-Type:'' @ file_type @ EOL] @
     (if 0 < len then [bs ''Content-Length:'' @ to_string (nat len) @ EOL] else []) @ [EOL]"

text \<open>The size \<open>stat\<close> reports.\<close>

definition st_size :: "entry \<Rightarrow> int" where
  "st_size e = (case e of Dir es \<Rightarrow> 0 | File c \<Rightarrow> int (length c) | Unreadable n \<Rightarrow> int n)"

text \<open>
  A file that cannot be opened sends nothing and leaves the connection open; reading a directory
  ends at once, so an empty block is sent.
\<close>

definition send_file_requests :: "filesystem \<Rightarrow> byte list \<Rightarrow> bool \<Rightarrow> byte list list \<times> bool" where
  "send_file_requests fs file_path is_closed =
     (case fs file_path of
        None \<Rightarrow> ([], False)
      | Some (Unreadable n) \<Rightarrow> ([], False)
      | Some (Dir es) \<Rightarrow> ([[]], is_closed)
      | Some (File c) \<Rightarrow> ([c], is_closed))"

text \<open>What is on the connection when the kernel takes \<open>taken i\<close> bytes of the \<open>i\<close>-th block.\<close>

fun sent_bytes :: "(nat \<Rightarrow> nat) \<Rightarrow> byte list list \<Rightarrow> byte list" where
  "sent_bytes taken [] = []"
| "sent_bytes taken (d # ds) = take (taken 0) d @ sent_bytes (\<lambda>i. taken (Suc i)) ds"

definition list_item :: "byte list \<times> bool \<Rightarrow> byte list" where
  "list_item e =
     (let li = (if snd e then fst e @ bs ''/'' else fst e)
      in bs ''<li><a href='' @ [34] @ li @ [34] @ bs ''>'' @ li @ bs ''</a></li>'')"

text \<open>The answer to a request line: the blocks handed to \<open>send\<close> and whether the connection was closed.\<close>

definition respond :: "filesystem \<Rightarrow> byte list \<Rightarrow> fault + byte list list \<times> bool" where
  "respond fs request_head =
     (case web_split request_head (bs '' '') of
        None \<Rightarrow> Inl Diverges
      | Some res \<Rightarrow>
          if length res < 3 then Inl Out_of_bounds
          else if map tolower (res ! 0) \<noteq> bs ''get'' then Inr ([], False)
          else if res ! 1 = [] then Inl Uncaught
          else (case UrlDecode (tl (res ! 1)) of
                  Inl f \<Rightarrow> Inl f
                | Inr decoded \<Rightarrow>
                    let string_file = (if decoded = [] then bs ''./'' else decoded)
                    in Inr (case fs string_file of
                              Some (Dir es) \<Rightarrow>
                                let (tail, closed) = send_file_requests fs (bs ''dir_tail.html'') True
                                in (send_http_headers 200 (bs ''OK'') (get_mime_type (bs ''*.html'')) 0 @
                                    fst (send_file_requests fs (bs ''dir_header.html'') False) @
                                    map list_item es @ tail, closed)
                            | Some e \<Rightarrow>
                                (send_http_headers 200 (bs ''OK'') (get_mime_type string_file) (i32 (st_size e)) @
                                 fst (send_file_requests fs string_file False), False)
                            | None \<Rightarrow>
                                (send_http_headers 404 (bs ''NOT FOUND'') (get_mime_type (bs ''*.html'')) 0 @
                                 fst (send_file_requests fs (bs ''error.html'') False), False))))"

section \<open>Requests\<close>

definition ReadBufferSize :: nat where "ReadBufferSize = 1500"

text \<open>The loop that reads the rest of the request away.\<close>

partial_function (option) drain :: "byte list \<Rightarrow> sock \<Rightarrow> (byte list \<times> sock) option" where
  "drain pending s =
     (case Readline ReadBufferSize pending s of
        None \<Rightarrow> None
      | Some (ret, tmp, pending', s') \<Rightarrow> if 0 < ret then drain pending' s' else Some (pending', s'))"

text \<open>
  \<open>read_client_requests\<close>: the bytes that went out, whether the connection was closed, and the state of the line
  reader and the socket.
\<close>

definition read_client_requests ::
  "filesystem \<Rightarrow> (nat \<Rightarrow> nat) \<Rightarrow> byte list \<Rightarrow> sock \<Rightarrow> (fault + byte list \<times> bool \<times> byte list \<times> sock) option" where
  "read_client_requests fs taken pending s =
     (case Readline ReadBufferSize pending s of
        None \<Rightarrow> None
      | Some (n, buffer, pending1, s1) \<Rightarrow>
          if n \<le> 0 then Some (Inr ([], True, pending1, s1))
          else (case drain pending1 s1 of
                  None \<Rightarrow> None
                | Some (pending2, s2) \<Rightarrow>
                    (case cstr buffer of
                       Inl f \<Rightarrow> Some (Inl f)
                     | Inr request_head \<Rightarrow>
                         (case respond fs request_head of
                            Inl f \<Rightarrow> Some (Inl f)
                          | Inr (out, closed) \<Rightarrow> Some (Inr (sent_bytes taken out, closed, pending2, s2))))))"

text \<open>
  One ready event of the loop in \<open>main\<close>: a new client is registered for input, a client's request is
  read, everything else is ignored. The arguments are the listening descriptor, the registered
  descriptors, the event and the answers of \<open>accept\<close>; \<open>None\<close> when \<open>Accept\<close> blocks.
\<close>

datatype web_action = Registered "int set" | Request int | Ignored | Ended int

definition web_on_event :: "int \<Rightarrow> int set \<Rightarrow> int \<Rightarrow> u32 \<Rightarrow> (errno + int) list \<Rightarrow> web_action option" where
  "web_on_event listen_fd fds fd events answers =
     (if fd = listen_fd \<and> events AND EPOLLIN \<noteq> 0
      then (case Accept answers of
              None \<Rightarrow> None
            | Some (Exits c, rest) \<Rightarrow> Some (Ended c)
            | Some (Returns client_fd, rest) \<Rightarrow> Some (Registered (insert client_fd fds)))
      else if events AND EPOLLIN \<noteq> 0 then Some (Request fd)
      else Some Ignored)"

section \<open>Lemmas\<close>











section \<open>Properties\<close>



text \<open>
  Large files: \<open>stat\<close> gives the size as \<open>off_t\<close>, \<open>send_http_headers\<close> takes an \<open>int\<close>. From 2 GiB to 4 GiB the
  length is not sent at all, and a file of 4 GiB and \<open>n\<close> bytes is announced as \<open>n\<close> bytes.
\<close>

lemma large_file_length:
  "2 ^ 31 \<le> n \<Longrightarrow> n \<le> 2 ^ 32 \<Longrightarrow> send_http_headers code info t (i32 n) = send_http_headers code info t 0"
  "0 \<le> n \<Longrightarrow> n < 2 ^ 31 \<Longrightarrow> send_http_headers code info t (i32 (2 ^ 32 + n)) = send_http_headers code info t n"
proof -
  have wrap: "i32 (2 ^ 32 + m) = i32 m" for m
  proof -
    have "(word_of_int (2 ^ 32 + m) :: u32) = word_of_int m"
      by (rule word_of_int_eq_iff [THEN iffD2]) (simp add: take_bit_eq_mod)
    then show ?thesis by (simp only: i32_def)
  qed
  show "0 \<le> n \<Longrightarrow> n < 2 ^ 31 \<Longrightarrow> send_http_headers code info t (i32 (2 ^ 32 + n)) = send_http_headers code info t n"
    using wrap [of n] by simp
  assume n: "2 ^ 31 \<le> n" "n \<le> 2 ^ 32"
  then have "i32 n = n - 2 ^ 32" using wrap [of "n - 2 ^ 32"] by simp
  then show "send_http_headers code info t (i32 n) = send_http_headers code info t 0"
    using n(2) by (simp add: send_http_headers_def)
qed

end
