(* ===== verification/Event_Web.thy ===== *)
theory Event_Web
  imports Web_Server
begin

text \<open>
  The web server on libevent, \<open>src/webserver/event_webserver.cpp\<close>. Its functions \<open>split\<close> and
  \<open>get_mime_type\<close> have the text of those in \<open>epoll_webserver.cpp\<close> and are taken from \<open>Web_Server\<close>. The
  calls \<open>bufferevent_read\<close> and \<open>bufferevent_write\<close> are the parameters \<open>rd\<close> and \<open>wr\<close>; what libevent
  documents of them is \<open>buffered\<close>.
\<close>

section \<open>Buffer events\<close>

text \<open>
  A buffer event has an input and an output buffer. Reading takes up to \<open>n\<close> bytes from the front of the
  input, writing appends to the output; neither touches the other buffer.
\<close>

definition buffered ::
  "(nat \<Rightarrow> 'b \<Rightarrow> byte list \<times> 'b) \<Rightarrow> (byte list \<Rightarrow> 'b \<Rightarrow> 'b) \<Rightarrow> ('b \<Rightarrow> byte list) \<Rightarrow> ('b \<Rightarrow> byte list) \<Rightarrow> bool" where
  "buffered rd wr input output \<longleftrightarrow>
     (\<forall>n b. fst (rd n b) = take n (input b) \<and> input (snd (rd n b)) = drop n (input b) \<and> output (snd (rd n b)) = output b) \<and>
     (\<forall>d b. input (wr d b) = input b \<and> output (wr d b) = output b @ d)"

section \<open>The callbacks\<close>

definition ev_BufferSize :: nat where "ev_BufferSize = 256"

text \<open>As in the other server the length is an \<open>int\<close>, to which the caller's \<open>off_t\<close> is narrowed.\<close>

definition ev_send_http_headers ::
  "(byte list \<Rightarrow> 'b \<Rightarrow> 'b) \<Rightarrow> nat \<Rightarrow> byte list \<Rightarrow> byte list \<Rightarrow> int \<Rightarrow> 'b \<Rightarrow> 'b" where
  "ev_send_http_headers wr status_code info file_type len bev =
     (let buffer = bs ''HTTP/1.1 '' @ to_string status_code @ bs '' '' @ info @ EOL;
          buffer = buffer @ bs ''Content-Type:'' @ file_type @ EOL;
          buffer = (if len > 0 then buffer @ bs ''Content-Length:'' @ to_string (nat len) @ EOL else buffer)
      in wr (buffer @ EOL) bev)"

text \<open>The result is 1 when the file cannot be opened; nobody looks at it.\<close>

definition ev_send_file_requests :: "(byte list \<Rightarrow> 'b \<Rightarrow> 'b) \<Rightarrow> filesystem \<Rightarrow> byte list \<Rightarrow> 'b \<Rightarrow> int \<times> 'b" where
  "ev_send_file_requests wr fs file_path bev =
     (case fs file_path of
        None \<Rightarrow> (1, bev)
      | Some (Unreadable n) \<Rightarrow> (1, bev)
      | Some (Dir es) \<Rightarrow> (0, wr [] bev)
      | Some (File c) \<Rightarrow> (0, wr c bev))"

definition dir_names :: "(byte list \<times> bool) list \<Rightarrow> byte list list" where
  "dir_names es = map (\<lambda>(name, is_directory). if is_directory then name @ bs ''/'' else name) es"

fun ev_listing :: "byte list \<Rightarrow> byte list list \<Rightarrow> byte list" where
  "ev_listing string_li [] = string_li"
| "ev_listing string_li (li # dirs) =
     ev_listing (string_li @ bs ''<li><a href='' @ [34] @ li @ [34] @ bs ''>'' @ li @ bs ''</a></li>'') dirs"

definition ev_read_client_requests ::
  "(byte list \<Rightarrow> 'b \<Rightarrow> 'b) \<Rightarrow> filesystem \<Rightarrow> byte list \<Rightarrow> 'b \<Rightarrow> fault + 'b" where
  "ev_read_client_requests wr fs path bev =
     (if path = [] then Inl Uncaught
      else case UrlDecode (tl path) of
             Inl f \<Rightarrow> Inl f
           | Inr decoded \<Rightarrow>
               let string_file = (if decoded = [] then bs ''./'' else decoded)
               in Inr (case fs string_file of
                         Some (Dir es) \<Rightarrow>
                           let bev = ev_send_http_headers wr 200 (bs ''OK'') (get_mime_type (bs ''*.html'')) 0 bev;
                               bev = snd (ev_send_file_requests wr fs (bs ''dir_header.html'') bev);
                               bev = wr (ev_listing [] (dir_names es)) bev
                           in snd (ev_send_file_requests wr fs (bs ''dir_tail.html'') bev)
                       | Some e \<Rightarrow>
                           let bev = ev_send_http_headers wr 200 (bs ''OK'') (get_mime_type string_file) (i32 (st_size e)) bev
                           in snd (ev_send_file_requests wr fs string_file bev)
                       | None \<Rightarrow>
                           let bev = ev_send_http_headers wr 404 (bs ''NOT FOUND'') (get_mime_type (bs ''*.html'')) 0 bev
                           in snd (ev_send_file_requests wr fs (bs ''error.html'') bev)))"

text \<open>The loop that reads the rest of the request away; whether it ends depends on \<open>rd\<close>.\<close>

partial_function (option) ev_drain :: "(nat \<Rightarrow> 'b \<Rightarrow> byte list \<times> 'b) \<Rightarrow> 'b \<Rightarrow> 'b option" where
  "ev_drain rd bev =
     (case rd ev_BufferSize bev of (d, bev') \<Rightarrow> if d \<noteq> [] then ev_drain rd bev' else Some bev')"

text \<open>
  \<open>read_cb\<close>: the string in the array needs a NUL behind it, the vector needs three elements.
\<close>

definition ev_read_cb ::
  "(nat \<Rightarrow> 'b \<Rightarrow> byte list \<times> 'b) \<Rightarrow> (byte list \<Rightarrow> 'b \<Rightarrow> 'b) \<Rightarrow> filesystem \<Rightarrow> 'b \<Rightarrow> (fault + 'b) option" where
  "ev_read_cb rd wr fs bev =
     (let (d, bev) = rd ev_BufferSize bev;
          buffer = d @ replicate (ev_BufferSize - length d) 0
      in case cstr buffer of
           Inl f \<Rightarrow> Some (Inl f)
         | Inr request_head1 \<Rightarrow>
             (case web_split request_head1 (bs '' '') of
                None \<Rightarrow> Some (Inl Diverges)
              | Some res \<Rightarrow>
                  if length res < 3 then Some (Inl Out_of_bounds)
                  else if map tolower (res ! 0) = bs ''get''
                       then (case ev_drain rd bev of
                               None \<Rightarrow> None
                             | Some bev \<Rightarrow> Some (ev_read_client_requests wr fs (res ! 1) bev))
                  else Some (Inr bev)))"

section \<open>Lemmas\<close>

lemma split_loop_step:
  "32 \<notin> set p \<Longrightarrow> split_loop (bs '' '') False (p @ [32] @ r) res = split_loop (bs '' '') False r (res @ [p])"
  using find_sub_piece [of "bs '' ''" p r] by (subst split_loop.simps) (simp add: bs_def)

text \<open>The first two pieces do not depend on what follows them.\<close>

lemma web_split_start:
  assumes "32 \<notin> set m" and "32 \<notin> set path"
  obtains ps where "ps \<noteq> []" "web_split (m @ [32] @ path @ [32] @ rest) (bs '' '') = Some (m # path # ps)"
proof -
  have "unbordered (bs '' '')" by (auto simp: bs_def unbordered_def)
  then obtain ps where "ps \<noteq> []" "split_loop (bs '' '') False (rest @ [32]) [m, path] = Some ([m, path] @ ps)"
    using split_loop_pieces [of "bs '' ''" rest False "[m, path]"] by (auto simp: bs_def)
  then show ?thesis
    using that split_loop_step [OF assms(1), of "path @ [32] @ rest @ [32]" "[]"] split_loop_step [OF assms(2), of "rest @ [32]" "[m]"]
    by (simp add: web_split_def bs_def)
qed

lemma ev_drain_returns:
  assumes "buffered rd wr input output"
  shows "\<exists>b'. ev_drain rd b = Some b' \<and> input b' = [] \<and> output b' = output b"
proof (induction "length (input b)" arbitrary: b rule: less_induct)
  case less
  obtain d b1 where r: "rd ev_BufferSize b = (d, b1)" by force
  have b1: "d = take 256 (input b)" "input b1 = drop 256 (input b)" "output b1 = output b"
    using assms r unfolding buffered_def ev_BufferSize_def by (metis fst_conv snd_conv)+
  show ?case
  proof (cases "input b = []")
    case False
    then have "length (input b1) < length (input b)" by (simp add: b1(2))
    from less [OF this] False show ?thesis by (simp add: ev_drain.simps [of rd b] r b1)
  qed (simp add: ev_drain.simps [of rd b] r b1)
qed

lemma ev_listing_items: "ev_listing s (dir_names es) = s @ concat (map list_item es)"
  by (induction es arbitrary: s) (auto simp: dir_names_def list_item_def)

lemma ev_send_http_headers_eq: "ev_send_http_headers wr code info ty len b = wr (concat (send_http_headers code info ty len)) b"
  by (simp add: ev_send_http_headers_def send_http_headers_def Let_def)

lemma ev_send_file_output:
  assumes "buffered rd wr input output"
  shows "output (snd (ev_send_file_requests wr fs p b)) = output b @ concat (fst (send_file_requests fs p c))"
    and "input (snd (ev_send_file_requests wr fs p b)) = input b"
  using assms by (auto simp: buffered_def ev_send_file_requests_def send_file_requests_def split: option.splits entry.splits)

lemma send_file_closed: "fst (send_file_requests fs p c) = fst (send_file_requests fs p False)"
  by (simp add: send_file_requests_def split: option.split entry.split)

text \<open>Once the path is known both servers do the same.\<close>

lemma ev_answer:
  assumes "buffered rd wr input output" and "web_split line (bs '' '') = Some (m # path # q # qs)" and "map tolower m = bs ''get''"
  shows "case respond fs line of
      Inl f \<Rightarrow> ev_read_client_requests wr fs path b = Inl f
    | Inr (sent, closed) \<Rightarrow>
        \<exists>b'. ev_read_client_requests wr fs path b = Inr b' \<and> output b' = output b @ concat sent \<and> input b' = input b"
proof (cases "path = [] \<or> (\<exists>f. UrlDecode (tl path) = Inl f)")
  case True
  then show ?thesis using assms(2,3) by (auto simp: respond_def ev_read_client_requests_def split: sum.split)
next
  case False
  then obtain decoded where d: "path \<noteq> []" "UrlDecode (tl path) = Inr decoded" by (cases "UrlDecode (tl path)") auto
  define sfile where "sfile = (if decoded = [] then bs ''./'' else decoded)"
  have w: "input (wr x c) = input c" "output (wr x c) = output c @ x" for x c
    using assms(1) by (simp_all add: buffered_def)
  note out = ev_send_file_output(1) [OF assms(1)] ev_send_file_output(2) [OF assms(1)]
  note defs = respond_def ev_read_client_requests_def assms(2,3) d sfile_def [symmetric] Let_def ev_send_http_headers_eq w
  show ?thesis
  proof (cases "fs sfile")
    case None
    then show ?thesis by (simp add: defs out(1) [where c = False] out(2))
  next
    case (Some e)
    then show ?thesis
      by (cases e) (simp_all add: defs out(1) [where c = False] out(2) send_file_closed [where c = True] ev_listing_items split_beta)
  qed
qed

section \<open>Properties\<close>

text \<open>
  C19. Both web servers give the same answer. When a request of fewer than 256 bytes is in the input
  buffer, the callback ends, has read all of it, and has put into the output buffer exactly the bytes
  the server on \<open>epoll\<close> hands to \<open>send\<close> for a request line with the same method and path; where that one fails (a bad
  escape, an empty path) this one fails in the same way.
\<close>

theorem web_servers_agree:
  assumes "buffered rd wr input output" and "input b = m @ [32] @ path @ [32] @ rest" and "32 \<notin> set m" and "32 \<notin> set path"
    and "0 \<notin> set (input b)" and "length (input b) < 256"
  shows "case respond fs (m @ [32] @ path @ [32] @ line_rest) of
      Inl f \<Rightarrow> ev_read_cb rd wr fs b = Some (Inl f)
    | Inr (sent, closed) \<Rightarrow> \<exists>b'. ev_read_cb rd wr fs b = Some (Inr b') \<and> output b' = output b @ concat sent \<and> input b' = []"
proof -
  obtain d b1 where r: "rd ev_BufferSize b = (d, b1)" by force
  have b1: "d = input b" "input b1 = []" "output b1 = output b"
    using assms(1,6) r unfolding buffered_def ev_BufferSize_def by (metis fst_conv snd_conv take_all drop_all less_imp_le)+
  have "replicate (256 - length d) (0 :: byte) = 0 # replicate (255 - length d) 0"
    using assms(6) b1(1) by (simp flip: replicate_Suc add: Suc_diff_le)
  then have c: "cstr (d @ replicate (256 - length d) 0) = Inr (input b)"
    using cstr_plain [of "input b"] assms(5) by (simp add: b1(1))
  obtain ps where ps: "ps \<noteq> []" "web_split (input b) (bs '' '') = Some (m # path # ps)"
    using web_split_start [OF assms(3,4), of rest] assms(2) by metis
  obtain qs where qs: "qs \<noteq> []" "web_split (m @ [32] @ path @ [32] @ line_rest) (bs '' '') = Some (m # path # qs)"
    using web_split_start [OF assms(3,4), of line_rest] by metis
  obtain p ps' q qs' where pq: "ps = p # ps'" "qs = q # qs'" using ps(1) qs(1) by (meson neq_Nil_conv)
  obtain b2 where b2: "ev_drain rd b1 = Some b2" "input b2 = []" "output b2 = output b"
    using ev_drain_returns [OF assms(1), of b1] b1(3) by auto
  have cb: "ev_read_cb rd wr fs b =
      (if map tolower m = bs ''get'' then Some (ev_read_client_requests wr fs path b2) else Some (Inr b1))"
    using r c ps(2) pq(1) b2(1) by (simp add: ev_read_cb_def ev_BufferSize_def)
  show ?thesis
  proof (cases "map tolower m = bs ''get''")
    case True
    from ev_answer [OF assms(1) qs(2) [unfolded pq(2)] True, of fs b2] show ?thesis
      by (auto simp: cb True b2 split: sum.splits)
  next
    case False
    then have "respond fs (m @ [32] @ path @ [32] @ line_rest) = Inr ([], False)"
      using qs(2) pq(2) by (simp add: respond_def)
    then show ?thesis using False b1 by (simp add: cb)
  qed
qed

text \<open>A request line with the same path and another version gets the same answer.\<close>

definition demo_fs :: filesystem where
  "demo_fs = [bs ''a.txt'' \<mapsto> File [1, 2, 3]]"

definition demo_request :: "byte list" where
  "demo_request = bs ''GET'' @ [32] @ bs ''/a.txt'' @ [32] @ bs ''HTTP/1.1'' @ EOL @ EOL"

definition pair_read :: "nat \<Rightarrow> byte list \<times> byte list \<Rightarrow> byte list \<times> byte list \<times> byte list" where
  "pair_read n b = (take n (fst b), drop n (fst b), snd b)"

definition pair_write :: "byte list \<Rightarrow> byte list \<times> byte list \<Rightarrow> byte list \<times> byte list" where
  "pair_write d b = (fst b, snd b @ d)"

lemma pair_buffered: "buffered pair_read pair_write fst snd"
  by (simp add: buffered_def pair_read_def pair_write_def)

theorem web_servers_agree_witness:
  "\<exists>b'. ev_read_cb pair_read pair_write demo_fs (demo_request, []) = Some (Inr b') \<and>
     snd b' = concat (send_http_headers 200 (bs ''OK'') (bs ''text/plain; charset=utf-8'') 3) @ [1, 2, 3]"
proof -
  have r: "respond demo_fs (bs ''GET'' @ [32] @ bs ''/a.txt'' @ [32] @ bs ''HTTP/1.0'') =
      Inr (send_http_headers 200 (bs ''OK'') (bs ''text/plain; charset=utf-8'') 3 @ [[1, 2, 3]], False)"
    by code_simp
  have "32 \<notin> set (bs ''GET'')" "32 \<notin> set (bs ''/a.txt'')" "0 \<notin> set demo_request" "length demo_request < 256"
    by code_simp+
  then show ?thesis
    using web_servers_agree [OF pair_buffered, of "(demo_request, [])" "bs ''GET''" "bs ''/a.txt''" "bs ''HTTP/1.1'' @ EOL @ EOL"
        demo_fs "bs ''HTTP/1.0''"] r
    by (auto simp: demo_request_def)
qed

text \<open>
  Longer requests are read over the end of the array: when the buffer holds 256 bytes or more, nothing
  ends the string. Requests of browsers are of this kind.
\<close>

lemma ev_long_request:
  assumes "buffered rd wr input output" and "256 \<le> length (input b)" and "0 \<notin> set (take 256 (input b))"
  shows "ev_read_cb rd wr fs b = Some (Inl Out_of_bounds)"
proof -
  obtain d b1 where r: "rd ev_BufferSize b = (d, b1)" by force
  have "d = take 256 (input b)" using assms(1) r unfolding buffered_def ev_BufferSize_def by (metis fst_conv)
  then have "length d = 256" "0 \<notin> set d" using assms(2,3) by simp_all
  then show ?thesis using r by (simp add: ev_read_cb_def ev_BufferSize_def cstr_def)
qed

end
