(* ===== verification/Spec2Isabelle.thy ===== *)
theory Spec2Isabelle
  imports Kcp_Session Kcp_Demo Kcp_Queue Thread_Pool Select_Servers Ws_C Latency Mulport_Server Event_Table Hello_Reactor Event_Web
begin

text \<open>
  \<^bold>\<open>The programs.\<close> The repository collects network programs for Linux: the reliable datagram
  protocol KCP (\<open>src/kcp_learn\<close>, used by the sessions of \<open>src/kcp-cpp\<close>), two WebSocket servers
  (\<open>src/websocket\<close>), reactors on \<open>epoll\<close> (\<open>src/epoll_reactor\<close>), a server on a hundred ports with a
  thread pool (\<open>src/mul_port_client_epoll\<close>), a web server (\<open>src/webserver\<close>) and the socket wrappers
  all of them share (\<open>wrap.cpp\<close>). The development models each as functions on explicit states and
  proves what makes it correct. An error return is a value, a failed assertion or an access outside an
  object is a value of a \<open>fault\<close> type, and integers whose overflow matters are machine words.

  \<^bold>\<open>KCP\<close> (\<open>ikcp.c\<close>, \<open>ikcp.h\<close>). \<open>Kcp_Codec\<close> has the constants, the little-endian codecs and the
  24-byte header; \<open>Kcp_Queue\<close> the queue macros as assignments to nodes in memory, with the proof that
  they are list operations; \<open>Kcp_State\<close> the control block (record \<open>ikcpcb\<close>, its four queues as
  lists), creation, release, the configuration calls and the invariant \<open>kcp_inv\<close>; \<open>Kcp_Recv\<close> the
  reordering buffer, \<open>ikcp_parse_data\<close> and \<open>ikcp_recv\<close>; \<open>Kcp_Ack\<close> the round-trip estimate, both
  kinds of acknowledgement and the growing array of acknowledgements; \<open>Kcp_Send\<close> fragmentation in
  message and stream mode; \<open>Kcp_Input\<close> the datagram parser with the congestion window; \<open>Kcp_Flush\<close>
  the whole of \<open>ikcp_flush\<close> with its output buffer, \<open>ikcp_update\<close> and \<open>ikcp_check\<close>.
  \<open>Kcp_System\<close> puts two control blocks and a network together. Shown: the invariant is kept by
  every operation on every input; the loops that stop early because a buffer is sorted do what plain
  filters do; datagrams are well formed, within the MTU and within the window; timers are scheduled
  within their bounds; and, end to end, what the receiver has read is always a prefix of what the
  sender handed over, although the network may lose, repeat and reorder datagrams. Sequence numbers wrap around modulo \<open>2 ^ 32\<close>; the statements
  hold across the wrap. The allocator is the parameter \<open>alloc\<close>.
  \<open>Latency\<close> is the network simulator of the test program (\<open>test.h\<close>): exact loss rate and
  first-in first-out tunnels. \<open>Kcp_Demo\<close> is the echo server of the measurements (\<open>server.c\<close>): together
  with any client it returns a prefix of what the client sent.

  \<^bold>\<open>KCP sessions\<close> (\<open>KCPNet.cpp\<close>, \<open>KCPNet.h\<close> of \<open>src/kcp-cpp\<close>). \<open>Kcp_Time\<close> is the clock
  synchronisation: time packets, the server's estimate of the offset, the client's drift towards it in
  double precision. \<open>Kcp_Net\<close> has the client and the server, each with its network thread and its nudge
  thread (one round of a loop is one function, and the mutex sections of setting up a session are
  separate functions), their destructors and the map of sessions. The KCP these files link against is
  fetched by the build; it is a parameter, which \<open>Kcp_Session\<close> instantiates by the model of \<open>ikcp.c\<close>.
  Shown: the server treats each peer as if it were alone; a session without data is dropped at a fixed
  heart beat; the network time is monotone and, from its first correction, within half a round trip; and,
  end to end, what either
  application is given is a prefix of what the other one sent (\<open>link_delivery\<close>).

  \<^bold>\<open>WebSocket servers.\<close> \<open>Std_String\<close> and \<open>Do_String\<close> hold the string helpers of \<open>do_string.h\<close>
  (trimming, splitting, percent encoding, Base64) with their round trips; \<open>Ws_Frame\<close> the frame codec
  on explicit buffers. \<open>Reactor\<close> models what the callback servers share: open descriptors, the
  interest list of an epoll instance, the heap of items, and the event loop. Its locale
  \<open>callback_server\<close> states what a callback has to keep, and proves once that a server whose callbacks
  do so never uses a freed item over any sequence of events. \<open>Ws_Server\<close>
  (\<open>epoll_websocket.cpp\<close>), \<open>Ws_C\<close> (\<open>epoll_websocket.c\<close>) and \<open>Hello_Reactor\<close>
  (\<open>epoll_reactor.cpp\<close>) interpret it. Also shown: the handshake answer, exactly when both servers give
  the same one, the echo of a data frame, and conditions under which a frame is misread. SHA-1
  and the Base64 filter of OpenSSL are parameters (\<open>sha1\<close>, \<open>bio\<close>), as are the contents of fresh
  memory (\<open>junk\<close> for the C server's arrays; for the C++ server, which never constructs the strings of
  its items, \<open>mem\<close> says whether the memory at an address serves as empty strings, and using others is the
  fault \<open>Unconstructed\<close>); what is assumed of them stands in the theorems.

  \<^bold>\<open>Socket wrappers and servers on them.\<close> \<open>Wrap_IO\<close> models \<open>wrap.cpp\<close>. The kernel is a script of
  answers (how many bytes a call moves, or which error it returns); a call for which the script has no
  answer blocks for ever, and its result is \<open>None\<close>. Loops take their number of rounds from the
  script, which every round shortens, so they are total functions; that they return is proved for
  every script with enough answers. \<open>Work_Queue\<close> is the thread pool of \<open>server_mulport_epoll.c\<close>:
  its list macros on memory, and workers as threads that interleave between calls of the mutex and the
  condition variable. No interleaving runs a job twice or loses one; after shutdown a worker ends with
  the mutex held. \<open>Mulport_Server\<close> is the server around the pool, \<open>Event_Table\<close> the reactor with a
  table of 1024 events (\<open>reactor.cpp\<close>), \<open>Web_Pub\<close> the C helpers \<open>pub.c\<close>, \<open>Web_Server\<close> the web
  server \<open>epoll_webserver.cpp\<close> over a given file system (an answer is a list of blocks, one for each
  call of \<open>send\<close>, of which the kernel may take a part), \<open>Event_Web\<close> the one on libevent
  (\<open>event_webserver.cpp\<close>), with the proof that both give the same answers; libevent's buffers are
  parameters with the laws \<open>buffered\<close>. \<open>Thread_Pool\<close> is the thread pool in C++
  (\<open>thread_pools.h\<close>), whose workers, callers and destructor interleave between their operations on
  mutex, condition variable and atomic flag: tasks start in order and, until the pool is stopped, no
  wake-up is lost. \<open>Echo_Servers\<close> holds the servers of \<open>src/epoll_study\<close> and
  the class \<open>Rector\<close> (\<open>reactor_class.cpp\<close>), \<open>Select_Servers\<close> those on \<open>select\<close> and \<open>poll\<close>. The locale
  \<open>isolated_clients\<close> states when a server treats its clients independently; the level-triggered server,
  the class and both \<open>select\<close> servers interpret it. The edge-triggered and the \<open>poll\<close> server do not
  satisfy it: their buffers carry data into answers to which it does not belong.

  \<^bold>\<open>What the kernel and the peers may do.\<close> Everything the programs do not determine is an argument:
  answers of system calls, ready events, times, values of \<open>rand()\<close>, scheduling. Theorems quantify
  over all of them. Descriptors that \<open>accept\<close> returns are assumed to be new. Console output is left
  out except where a theorem is about it.

  \<^bold>\<open>Not modelled.\<close> \<open>kissnet.hpp\<close>, Crypto++, OpenSSL and libevent, which are other people's code, and
  with libevent the small programs written for it (\<open>src/libevent_study\<close>), whose behaviour is that
  library's; the measuring clients around KCP and TCP, the stress client and
  the exercises on sockets, UDP, Unix domain sockets and names, which are straight-line system calls with
  console output; the copies of \<open>wrap.cpp\<close>, of the C++ WebSocket server and of the thread pool, whose
  text is modelled once. Of the single-file servers the set-up in front of the loop is modelled only for
  the class \<open>Rector\<close>.

  \<^bold>\<open>Findings.\<close> The model shows where code and intention differ: \<open>ikcp_setmtu\<close> can make a later flush
  write behind its buffer (\<open>setmtu_overrun\<close>), a frame with an extended length is misread
  (\<open>extended_frame_misread\<close>), a NUL byte cuts a received frame (\<open>ws_data_frame\<close>), shutting the
  thread pool in C down leaves its mutex locked (\<open>shutdown_stuck\<close>), the destructor of the one in C++ can
  wait for ever (\<open>stop_wakeup_lost\<close>) and its tasks never run in parallel (\<open>pool_serial_fifo\<close>), a full
  event table overwrites the listening entry (\<open>table_full\<close>), \<open>Readline\<close> returns one more than it stored
  when the buffer is full (part of \<open>Readline_refines\<close>), a short datagram is taken for a time packet
  (\<open>runt_misread\<close>), the strings of a WebSocket item are never constructed (\<open>unconstructed_strings\<close>), the
  length of a large file is announced wrongly (\<open>large_file_length\<close>), an idle but connected client is dropped (\<open>idle_session_dropped\<close>), the edge-triggered
  server sends memory it never wrote (\<open>et_exposes_memory\<close>), and the \<open>poll\<close> server sends one client's data
  to another (\<open>poll_leaks\<close>).
\<close>

end
